(* ===== verification/Prelude.thy ===== *)
theory Prelude
  imports Main "HOL-Library.Word" "HOL-Library.List_Lexorder" "HOL-Library.Sublist"
begin

text \<open>
  Shared vocabulary of the development.

  \<^item> A Rust \<open>u8\<close> is a \<open>byte\<close>, a byte slice or \<open>Vec<u8>\<close> is a list of bytes, and a Rust
    \<open>str\<close> is the list of its UTF-8 bytes (\<open>valid_utf8\<close> says when \<open>std::str::from_utf8\<close> accepts
    it). The order on byte lists is the library's lexicographic one, as Rust's \<open>Ord\<close> on slices.
  \<^item> \<open>gyt_error\<close> is the enum of \<open>src/errors.rs\<close>; \<open>'a res\<close> is its \<open>Result\<close>. A message keeps the
    fixed text of the source's message and leaves interpolated values out.
  \<^item> The standard-library routines the sources call are modelled once here: splitting and
    trimming of strings, little-endian integers, printing and parsing of numbers, UTF-8
    validation and lossy decoding, \<open>Path::components\<close>.
\<close>

unbundle bit_operations_syntax

named_theorems codec_simps \<open>round-trip equations of the byte codecs\<close>
named_theorems res_simps \<open>when a chain of fallible steps succeeds\<close>
named_theorems len_simps \<open>lengths of encoded values\<close>

type_synonym byte = "8 word"
type_synonym bytes = "byte list"

datatype gyt_error =
    EIo string
  | EParse string
  | ERepo string
  | EObject string
  | EIndex string
  | ERefs string
  | ENet string
  | ENotFound string
  | EInvalidArgument string
  | EUnsupported string
  | ECi string

type_synonym 'a res = "gyt_error + 'a"

lemma if_Inl_eq [res_simps]: "(if c then Inl e else f) = Inr x \<longleftrightarrow> \<not> c \<and> f = Inr x"
  by simp

lemma case_Inl_eq [res_simps]:
  "(case r of Inl e \<Rightarrow> Inl (g e) | Inr y \<Rightarrow> f y) = Inr x \<longleftrightarrow> (\<exists>y. r = Inr y \<and> f y = Inr x)"
  by (cases r) simp_all

lemma case_None_eq [res_simps]:
  "(case r of None \<Rightarrow> Inl e | Some y \<Rightarrow> f y) = Inr x \<longleftrightarrow> (\<exists>y. r = Some y \<and> f y = Inr x)"
  by (cases r) simp_all

text \<open>A computation that can also abort: \<open>Panic\<close> is a Rust panic (an index out of range, a failed
  \<open>expect\<close>), \<open>Diverge\<close> a loop still running when its fuel is used up.\<close>

datatype 'a run = Return 'a | Panic | Diverge

definition slice :: "nat \<Rightarrow> nat \<Rightarrow> 'a list \<Rightarrow> 'a list run" where
  "slice a b xs = (if a \<le> b \<and> b \<le> length xs then Return (take (b - a) (drop a xs)) else Panic)"

lemma concat_block:
  "\<forall>x \<in> set xs. length (f x) = k \<Longrightarrow> i < length xs \<Longrightarrow>
     take k (drop (i * k) (concat (map f xs) @ zs)) = f (xs ! i)"
proof (induction xs arbitrary: i)
  case (Cons x xs)
  then show ?case by (cases i) simp_all
qed simp

section \<open>Byte strings\<close>

definition ascii :: "string \<Rightarrow> bytes" where
  "ascii s = map of_char s"

lemma ascii_Nil [simp]: "ascii [] = []"
  by (simp add: ascii_def)

lemma ascii_Cons [simp]: "ascii (c # cs) = of_char c # ascii cs"
  by (simp add: ascii_def)

lemma length_ascii [simp]: "length (ascii s) = length s"
  by (simp add: ascii_def)

abbreviation NL :: byte where "NL \<equiv> 10"
abbreviation CR :: byte where "CR \<equiv> 13"
abbreviation TAB :: byte where "TAB \<equiv> 9"
abbreviation SP :: byte where "SP \<equiv> 32"
abbreviation SLASH :: byte where "SLASH \<equiv> 47"
abbreviation BSLASH :: byte where "BSLASH \<equiv> 92"

text \<open>\<open>u8::to_ascii_lowercase\<close> and \<open>eq_ignore_ascii_case\<close>.\<close>

definition to_lower :: "byte \<Rightarrow> byte" where
  "to_lower b = (if 65 \<le> b \<and> b \<le> 90 then b + 32 else b)"

definition eq_ignore_case :: "bytes \<Rightarrow> bytes \<Rightarrow> bool" where
  "eq_ignore_case a b \<longleftrightarrow> map to_lower a = map to_lower b"

text \<open>\<open>iter().position(..)\<close>.\<close>

fun position :: "('a \<Rightarrow> bool) \<Rightarrow> 'a list \<Rightarrow> nat option" where
  "position p [] = None"
| "position p (x # xs) = (if p x then Some 0 else map_option Suc (position p xs))"

lemma position_append_hit:
  "\<forall>x \<in> set xs. \<not> p x \<Longrightarrow> p y \<Longrightarrow> position p (xs @ y # ys) = Some (length xs)"
  by (induction xs) auto

lemma position_SomeD:
  "position p xs = Some i \<Longrightarrow> i < length xs \<and> p (xs ! i) \<and> (\<forall>x \<in> set (take i xs). \<not> p x)"
  by (induction xs arbitrary: i) (auto split: if_splits)

lemma position_split:
  assumes "position p xs = Some i"
  obtains y ys where "xs = take i xs @ y # ys" "p y" "\<forall>x \<in> set (take i xs). \<not> p x"
    "drop (Suc i) xs = ys" "length (take i xs) = i"
proof -
  from position_SomeD [OF assms] have i: "i < length xs" "p (xs ! i)" "\<forall>x \<in> set (take i xs). \<not> p x"
    by auto
  from i(1) have "xs = take i xs @ xs ! i # drop (Suc i) xs"
    by (rule id_take_nth_drop)
  with i that [of "xs ! i" "drop (Suc i) xs"] show thesis by simp
qed

lemma position_eq_split: "position (\<lambda>b. b = c) xs = Some i \<Longrightarrow> xs = take i xs @ c # drop (i + 1) xs"
  by (erule position_split) simp

text \<open>\<open>strip_prefix\<close>, \<open>split_once\<close>, \<open>contains\<close>, \<open>split(c)\<close>, \<open>split_inclusive('\n')\<close>, \<open>lines\<close>.\<close>

definition strip_prefix :: "bytes \<Rightarrow> bytes \<Rightarrow> bytes option" where
  "strip_prefix p s = (if prefix p s then Some (drop (length p) s) else None)"

lemma strip_prefix_append [simp]: "strip_prefix p (p @ s) = Some s"
  by (simp add: strip_prefix_def)

lemma strip_prefix_SomeD: "strip_prefix p s = Some r \<Longrightarrow> s = p @ r"
  by (auto simp: strip_prefix_def prefix_def split: if_splits)

fun split_once :: "bytes \<Rightarrow> bytes \<Rightarrow> (bytes \<times> bytes) option" where
  "split_once pat [] = (if pat = [] then Some ([], []) else None)"
| "split_once pat (x # xs) =
     (if prefix pat (x # xs) then Some ([], drop (length pat) (x # xs))
      else map_option (apfst (Cons x)) (split_once pat xs))"

lemma split_once_SomeD: "split_once pat s = Some (u, v) \<Longrightarrow> s = u @ pat @ v"
  by (induction s arbitrary: u) (auto simp: prefix_def split: if_splits)

lemma split_once_char:
  "c \<notin> set u \<Longrightarrow> split_once [c] (u @ c # v) = Some (u, v)"
  by (induction u) auto

lemma split_once_char_fst:
  "split_once [c] s = Some (u, v) \<Longrightarrow> c \<notin> set u"
  by (induction s arbitrary: u) (auto split: if_splits)

definition contains_sub :: "bytes \<Rightarrow> bytes \<Rightarrow> bool" where
  "contains_sub pat s \<longleftrightarrow> split_once pat s \<noteq> None"

lemma contains_sub_iff: "contains_sub pat s \<longleftrightarrow> (\<exists>u v. s = u @ pat @ v)"
proof
  assume "contains_sub pat s"
  then show "\<exists>u v. s = u @ pat @ v"
    by (auto simp: contains_sub_def dest: split_once_SomeD)
next
  assume "\<exists>u v. s = u @ pat @ v"
  then obtain u v where s: "s = u @ pat @ v" by blast
  have "split_once pat (u @ pat @ v) \<noteq> None"
  proof (induction u)
    case Nil
    show ?case by (cases "pat @ v") (simp_all, metis prefixI)
  next
    case (Cons x u)
    then show ?case by auto
  qed
  with s show "contains_sub pat s" by (simp add: contains_sub_def)
qed

fun split_char :: "byte \<Rightarrow> bytes \<Rightarrow> bytes list" where
  "split_char c [] = [[]]"
| "split_char c (x # xs) =
     (if x = c then [] # split_char c xs
      else (case split_char c xs of [] \<Rightarrow> [[x]] | p # ps \<Rightarrow> (x # p) # ps))"

fun join_char :: "byte \<Rightarrow> bytes list \<Rightarrow> bytes" where
  "join_char c [] = []"
| "join_char c [p] = p"
| "join_char c (p # q # ps) = p @ c # join_char c (q # ps)"

lemma split_char_nonempty [simp]: "split_char c s \<noteq> []"
  by (induction s) (auto split: list.splits)

lemma split_char_no_sep: "p \<in> set (split_char c s) \<Longrightarrow> c \<notin> set p"
  by (induction s arbitrary: p) (auto split: if_splits list.splits)

lemma join_split_char: "join_char c (split_char c s) = s"
proof (induction s)
  case Nil
  then show ?case by simp
next
  case (Cons x xs)
  obtain p ps where ps: "split_char c xs = p # ps"
    by (cases "split_char c xs") auto
  with Cons show ?case by (cases ps) auto
qed

lemma split_char_piece: "c \<notin> set p \<Longrightarrow> split_char c p = [p]"
  by (induction p) auto

lemma split_char_append: "c \<notin> set p \<Longrightarrow> split_char c (p @ c # s) = p # split_char c s"
  by (induction p) auto

lemma split_join_char:
  "ps \<noteq> [] \<Longrightarrow> \<forall>p \<in> set ps. c \<notin> set p \<Longrightarrow> split_char c (join_char c ps) = ps"
  by (induction c ps rule: join_char.induct) (auto simp: split_char_piece split_char_append)

lemma set_split_char: "x \<in> set s \<Longrightarrow> x \<noteq> c \<Longrightarrow> \<exists>p \<in> set (split_char c s). x \<in> set p"
  by (induction s) (auto split: list.splits)

fun splitn :: "nat \<Rightarrow> byte \<Rightarrow> bytes \<Rightarrow> bytes list" where
  "splitn 0 c s = []"
| "splitn (Suc 0) c s = [s]"
| "splitn (Suc (Suc n)) c s = (case split_once [c] s of None \<Rightarrow> [s] | Some (u, v) \<Rightarrow> u # splitn (Suc n) c v)"

fun split_incl :: "bytes \<Rightarrow> bytes list" where
  "split_incl [] = []"
| "split_incl (x # xs) =
     (if x = NL then [x] # split_incl xs
      else (case split_incl xs of [] \<Rightarrow> [[x]] | p # ps \<Rightarrow> (x # p) # ps))"

lemma split_incl_line:
  "NL \<notin> set l \<Longrightarrow> split_incl (l @ NL # rest) = (l @ [NL]) # split_incl rest"
  by (induction l) auto

lemma split_incl_last: "NL \<notin> set l \<Longrightarrow> l \<noteq> [] \<Longrightarrow> split_incl l = [l]"
proof (induction l)
  case Nil
  then show ?case by simp
next
  case (Cons x l)
  then show ?case by (cases l) auto
qed

lemma concat_split_incl: "concat (split_incl s) = s"
  by (induction s) (auto split: list.splits)

definition strip_nl :: "bytes \<Rightarrow> bytes" where
  "strip_nl l = (if l \<noteq> [] \<and> last l = NL then butlast l else l)"

lemma strip_nl_snoc [simp]: "strip_nl (l @ [NL]) = l"
  by (simp add: strip_nl_def)

lemma strip_nl_none: "NL \<notin> set l \<Longrightarrow> strip_nl l = l"
  using last_in_set by (fastforce simp: strip_nl_def)

definition line_of :: "bytes \<Rightarrow> bytes" where
  "line_of l =
     (if l \<noteq> [] \<and> last l = NL
      then (let m = butlast l in if m \<noteq> [] \<and> last m = CR then butlast m else m)
      else l)"

definition str_lines :: "bytes \<Rightarrow> bytes list" where
  "str_lines s = map line_of (split_incl s)"

lemma str_lines_Nil [simp]: "str_lines [] = []"
  by (simp add: str_lines_def)

lemma str_lines_line:
  "NL \<notin> set l \<Longrightarrow> \<not> (l \<noteq> [] \<and> last l = CR) \<Longrightarrow> str_lines (l @ NL # rest) = l # str_lines rest"
  by (auto simp: str_lines_def split_incl_line line_of_def Let_def)

lemma str_lines_last: "NL \<notin> set l \<Longrightarrow> l \<noteq> [] \<Longrightarrow> str_lines l = [l]"
  by (metis last_in_set line_of_def list.simps(8) list.simps(9) split_incl_last str_lines_def)


section \<open>Header blocks\<close>

text \<open>Commits and tags are a block of non-empty header lines, a blank line and a message. The first
  blank line of such a text is the one after the block.\<close>

definition header_text :: "bytes list \<Rightarrow> bytes \<Rightarrow> bytes" where
  "header_text ls msg = concat (map (\<lambda>l. l @ [NL]) ls) @ NL # msg"

lemma split_once_skip_line:
  assumes "l \<noteq> []" "NL \<notin> set l" "s \<noteq> []" "hd s \<noteq> NL"
  shows "split_once [NL, NL] (l @ NL # s) = map_option (apfst (\<lambda>u. l @ NL # u)) (split_once [NL, NL] s)"
  using assms(1,2)
proof (induction l)
  case Nil
  then show ?case by simp
next
  case (Cons x l)
  from assms(3,4) have n: "\<not> prefix [NL, NL] (NL # s)" by (cases s) auto
  show ?case
  proof (cases "l = []")
    case True
    with Cons.prems n show ?thesis by (cases "split_once [NL, NL] s") auto
  next
    case False
    with Cons show ?thesis by (cases "split_once [NL, NL] s") auto
  qed
qed

lemma split_once_end_line:
  "NL \<notin> set l \<Longrightarrow> split_once [NL, NL] (l @ NL # NL # msg) = Some (l, msg)"
proof (induction l)
  case Nil
  then show ?case by simp
next
  case (Cons x l)
  then show ?case by simp
qed

lemma split_header_text:
  assumes "ls \<noteq> []" "\<forall>l \<in> set ls. l \<noteq> [] \<and> NL \<notin> set l"
  shows "split_once [NL, NL] (header_text ls msg) = Some (join_char NL ls, msg)"
  using assms
proof (induction ls rule: induct_list012)
  case (2 l)
  then show ?case by (simp add: header_text_def split_once_end_line)
next
  case (3 l m ls)
  let ?s = "header_text (m # ls) msg"
  have m: "m \<noteq> []" "NL \<notin> set m" and l: "l \<noteq> []" "NL \<notin> set l" using "3.prems"(2) by simp_all
  have "split_once [NL, NL] ?s = Some (join_char NL (m # ls), msg)"
    using "3.prems"(2) by (intro "3.IH"(2)) simp_all
  moreover from m have "hd m \<noteq> NL" using hd_in_set by metis
  then have "?s \<noteq> []" "hd ?s \<noteq> NL"
    using m by (simp_all add: header_text_def hd_append)
  moreover have "header_text (l # m # ls) msg = l @ NL # ?s"
    by (simp add: header_text_def)
  ultimately show ?case using split_once_skip_line [OF l, of ?s] by simp
qed simp

definition line_ok :: "bytes \<Rightarrow> bool" where
  "line_ok l \<longleftrightarrow> l \<noteq> [] \<and> NL \<notin> set l \<and> last l \<noteq> CR"

lemma str_lines_join:
  assumes "\<forall>l \<in> set ls. line_ok l"
  shows "str_lines (join_char NL ls) = ls"
  using assms
proof (induction ls rule: induct_list012)
  case (2 l)
  then show ?case by (simp add: str_lines_last line_ok_def)
next
  case (3 l m ls)
  then show ?case by (simp add: str_lines_line line_ok_def)
qed simp

section \<open>Little-endian integers\<close>

text \<open>\<open>to_le_bytes\<close> and \<open>from_le_bytes\<close> of the unsigned and signed integer types; the width is the
  word length.\<close>

fun le_bytes :: "nat \<Rightarrow> nat \<Rightarrow> bytes" where
  "le_bytes 0 v = []"
| "le_bytes (Suc n) v = word_of_nat (v mod 256) # le_bytes n (v div 256)"

fun le_nat :: "bytes \<Rightarrow> nat" where
  "le_nat [] = 0"
| "le_nat (b # bs) = unat b + 256 * le_nat bs"

definition to_le :: "'a::len word \<Rightarrow> bytes" where
  "to_le w = le_bytes (LENGTH('a) div 8) (unat w)"

definition from_le :: "bytes \<Rightarrow> 'a::len word" where
  "from_le bs = word_of_nat (le_nat bs)"

lemma length_le_bytes [simp, len_simps]: "length (le_bytes n v) = n"
  by (induction n arbitrary: v) auto

lemma length_to_le [simp, len_simps]: "length (to_le (w :: 'a::len word)) = LENGTH('a) div 8"
  by (simp add: to_le_def)

lemma unat_byte_less: "unat (b :: byte) < 256"
  using unsigned_less [of b] by simp

lemma le_nat_le_bytes: "le_nat (le_bytes n v) = v mod 256 ^ n"
proof (induction n arbitrary: v)
  case 0
  then show ?case by simp
next
  case (Suc n)
  have "unat (word_of_nat (v mod 256) :: byte) = v mod 256"
    by (simp add: unat_of_nat)
  with Suc show ?case
    by (simp add: mod_mult2_eq)
qed

lemma le_nat_bound: "le_nat bs < 256 ^ length bs"
proof (induction bs)
  case Nil
  then show ?case by simp
next
  case (Cons b bs)
  then have "256 * Suc (le_nat bs) \<le> 256 * 256 ^ length bs"
    by (simp only: mult_le_mono2 Suc_le_eq)
  with unat_byte_less [of b] show ?case by simp
qed

lemma le_bytes_le_nat: "le_bytes (length bs) (le_nat bs) = bs"
proof (induction bs)
  case Nil
  then show ?case by simp
next
  case (Cons b bs)
  have "(unat b + 256 * le_nat bs) mod 256 = unat b"
    using unat_byte_less [of b] by simp
  moreover have "(unat b + 256 * le_nat bs) div 256 = le_nat bs"
    using unat_byte_less [of b] by simp
  ultimately show ?case using Cons by simp
qed

lemma from_le_to_le [simp, codec_simps]:
  assumes "8 dvd LENGTH('a)"
  shows "from_le (to_le (w :: 'a::len word)) = w"
proof -
  have "(256::nat) ^ (LENGTH('a) div 8) = 2 ^ (8 * (LENGTH('a) div 8))"
    by (simp add: power_mult)
  also have "\<dots> = 2 ^ LENGTH('a)" using assms by simp
  finally have "unat w mod 256 ^ (LENGTH('a) div 8) = unat w"
    using unsigned_less [of w] by simp
  then show ?thesis
    by (simp add: from_le_def to_le_def le_nat_le_bytes)
qed

lemma to_le_from_le:
  assumes "length bs * 8 = LENGTH('a)"
  shows "to_le (from_le bs :: 'a::len word) = bs"
proof -
  have "(256::nat) ^ length bs = 2 ^ (length bs * 8)"
    using power_mult [of "2::nat" 8 "length bs"] by (simp add: mult.commute)
  with assms le_nat_bound [of bs] have "le_nat bs < 2 ^ LENGTH('a)"
    by simp
  then have "unat (word_of_nat (le_nat bs) :: 'a word) = le_nat bs"
    by (simp add: unat_of_nat take_bit_nat_eq_self)
  moreover from assms have "LENGTH('a) div 8 = length bs" by linarith
  ultimately show ?thesis
    by (simp add: to_le_def from_le_def le_bytes_le_nat)
qed

section \<open>Numbers as text\<close>

text \<open>\<open>to_radix b n\<close> prints \<open>n\<close> in base \<open>b \<le> 10\<close> as \<open>format!\<close> does; \<open>parse_uint b lim\<close> is
  \<open>from_str_radix\<close> of an unsigned type with values below \<open>lim\<close>: an optional plus sign, at least
  one digit, no overflow.\<close>

fun to_radix :: "nat \<Rightarrow> nat \<Rightarrow> bytes" where
  "to_radix b n =
     (if n < b \<or> b < 2 then [48 + word_of_nat n]
      else to_radix b (n div b) @ [48 + word_of_nat (n mod b)])"

declare to_radix.simps [simp del]

fun radix_val :: "nat \<Rightarrow> nat \<Rightarrow> bytes \<Rightarrow> nat option" where
  "radix_val b acc [] = Some acc"
| "radix_val b acc (c # cs) =
     (if 48 \<le> c \<and> unat c < 48 + b then radix_val b (acc * b + (unat c - 48)) cs else None)"

definition parse_uint :: "nat \<Rightarrow> nat \<Rightarrow> bytes \<Rightarrow> nat option" where
  "parse_uint b lim s =
     (let ds = (case s of [] \<Rightarrow> [] | c # cs \<Rightarrow> if c = 43 then cs else s)
      in if ds = [] then None
         else (case radix_val b 0 ds of
                 None \<Rightarrow> None
               | Some n \<Rightarrow> if n < lim then Some n else None))"

definition U32_LIMIT :: nat where "U32_LIMIT = 2 ^ 32"
definition USIZE_LIMIT :: nat where "USIZE_LIMIT = 2 ^ 64"
definition U64_LIMIT :: nat where "U64_LIMIT = 2 ^ 64"

lemma unat_u32: "unat (w :: 32 word) < U32_LIMIT"
  using unsigned_less [of w] by (simp add: U32_LIMIT_def)

lemma radix_val_append:
  "radix_val b acc (xs @ ys) =
     (case radix_val b acc xs of None \<Rightarrow> None | Some a \<Rightarrow> radix_val b a ys)"
  by (induction xs arbitrary: acc) auto

lemma unat_digit: "d < 10 \<Longrightarrow> unat (48 + word_of_nat d :: byte) = 48 + d"
  by (simp add: unat_word_ariths unat_of_nat)

lemma to_radix_digits:
  "b \<le> 10 \<Longrightarrow> 2 \<le> b \<Longrightarrow> \<forall>c \<in> set (to_radix b n). 48 \<le> c \<and> c \<le> 57"
proof (induction b n rule: to_radix.induct)
  case (1 b n)
  have d: "48 \<le> (48 + word_of_nat k :: byte) \<and> (48 + word_of_nat k :: byte) \<le> 57" if "k < b" for k
    using that 1(2) unat_digit [of k] by (simp add: word_le_nat_alt)
  show ?case
  proof (cases "n < b")
    case True
    with d [of n] show ?thesis by (subst to_radix.simps) simp
  next
    case False
    with 1 have "\<forall>c \<in> set (to_radix b (n div b)). 48 \<le> c \<and> c \<le> 57" by simp
    with False 1(3) d [of "n mod b"] show ?thesis by (subst to_radix.simps) auto
  qed
qed

lemma to_radix_nonempty [simp]: "to_radix b n \<noteq> []"
  by (subst to_radix.simps) simp

lemma radix_val_to_radix: "b \<le> 10 \<Longrightarrow> 2 \<le> b \<Longrightarrow> radix_val b 0 (to_radix b n) = Some n"
proof (induction b n rule: to_radix.induct)
  case (1 b n)
  have d: "radix_val b acc [48 + word_of_nat k] = Some (acc * b + k)" if "k < b" for k acc
    using that 1(2) unat_digit [of k] by (simp add: word_le_nat_alt)
  show ?case
  proof (cases "n < b")
    case True
    with d [of n 0] show ?thesis by (subst to_radix.simps) simp
  next
    case False
    with 1 have "radix_val b 0 (to_radix b (n div b)) = Some (n div b)" by simp
    with False 1(3) d [of "n mod b" "n div b"] show ?thesis
      by (subst to_radix.simps) (simp add: radix_val_append)
  qed
qed

lemma parse_uint_to_radix [codec_simps]:
  assumes "b \<le> 10" "2 \<le> b" "n < lim"
  shows "parse_uint b lim (to_radix b n) = Some n"
proof -
  obtain c cs where c: "to_radix b n = c # cs"
    by (cases "to_radix b n") auto
  with to_radix_digits [OF assms(1,2), of n] have "c \<noteq> 43" by auto
  with c radix_val_to_radix [OF assms(1,2), of n] assms(3) show ?thesis
    by (simp add: parse_uint_def)
qed

section \<open>UTF-8\<close>

text \<open>\<open>utf8_step bs\<close> looks at the front of a non-empty byte string: \<open>(True, n)\<close> when its first \<open>n\<close>
  bytes are one well-formed character, \<open>(False, n)\<close> when they are a maximal ill-formed piece. The
  ranges are those of the Unicode standard's table of well-formed sequences (no overlong forms, no
  surrogates, nothing above U+10FFFF).\<close>

definition byte_in :: "byte \<Rightarrow> byte \<Rightarrow> nat \<Rightarrow> bytes \<Rightarrow> bool" where
  "byte_in lo hi i bs \<longleftrightarrow> i < length bs \<and> lo \<le> bs ! i \<and> bs ! i \<le> hi"

definition utf8_width :: "byte \<Rightarrow> nat \<times> byte \<times> byte" where
  \<comment> \<open>length of the character a lead byte opens (0: not a lead byte), range of its second byte\<close>
  "utf8_width b =
     (if b < 0x80 then (1, 0, 0)
      else if b < 0xC2 then (0, 0, 0)
      else if b < 0xE0 then (2, 0x80, 0xBF)
      else if b < 0xF0 then (3, if b = 0xE0 then 0xA0 else 0x80, if b = 0xED then 0x9F else 0xBF)
      else if b < 0xF5 then (4, if b = 0xF0 then 0x90 else 0x80, if b = 0xF4 then 0x8F else 0xBF)
      else (0, 0, 0))"

definition utf8_step :: "bytes \<Rightarrow> bool \<times> nat" where
  "utf8_step bs =
     (case utf8_width (hd bs) of (w, lo, hi) \<Rightarrow>
        if w = 0 then (False, 1)
        else if w = 1 then (True, 1)
        else if \<not> byte_in lo hi 1 bs then (False, 1)
        else if w = 2 then (True, 2)
        else if \<not> byte_in 0x80 0xBF 2 bs then (False, 2)
        else if w = 3 then (True, 3)
        else if \<not> byte_in 0x80 0xBF 3 bs then (False, 3)
        else (True, 4))"

lemma utf8_step_pos [simp]: "0 < snd (utf8_step bs)"
  by (simp add: utf8_step_def split: prod.split)

function valid_utf8 :: "bytes \<Rightarrow> bool" where
  "valid_utf8 bs =
     (if bs = [] then True
      else fst (utf8_step bs) \<and> valid_utf8 (drop (snd (utf8_step bs)) bs))"
  by pat_completeness auto
termination
  by (relation "measure length") auto

function to_string_lossy :: "bytes \<Rightarrow> bytes" where
  "to_string_lossy bs =
     (if bs = [] then []
      else (if fst (utf8_step bs) then take (snd (utf8_step bs)) bs else [0xEF, 0xBF, 0xBD])
           @ to_string_lossy (drop (snd (utf8_step bs)) bs))"
  by pat_completeness auto
termination
  by (relation "measure length") auto

declare valid_utf8.simps [simp del] to_string_lossy.simps [simp del]

lemma valid_utf8_Nil [simp]: "valid_utf8 []"
  by (simp add: valid_utf8.simps)

lemma valid_utf8_low: "b < 0x80 \<Longrightarrow> valid_utf8 (b # bs) = valid_utf8 bs"
  by (subst valid_utf8.simps) (simp add: utf8_step_def utf8_width_def)

lemma valid_utf8_ascii: "\<forall>b \<in> set bs. b < 0x80 \<Longrightarrow> valid_utf8 bs"
  by (induction bs) (auto simp: valid_utf8_low)

lemma byte_in_length: "byte_in lo hi i bs \<Longrightarrow> Suc i \<le> length bs"
  by (simp add: byte_in_def)

lemma byte_in_append: "byte_in lo hi i bs \<Longrightarrow> byte_in lo hi i (bs @ cs)"
  by (auto simp: byte_in_def nth_append)

lemma utf8_step_fits:
  assumes "bs \<noteq> []" and "fst (utf8_step bs)"
  shows "snd (utf8_step bs) \<le> length bs"
  using assms byte_in_length [of _ _ 1 bs] byte_in_length [of _ _ 2 bs] byte_in_length [of _ _ 3 bs]
  by (cases bs) (auto simp: utf8_step_def split: prod.splits if_splits)

lemma utf8_step_append:
  assumes "bs \<noteq> []" and "fst (utf8_step bs)"
  shows "utf8_step (bs @ cs) = utf8_step bs"
  using assms byte_in_append [of _ _ _ bs cs]
  by (auto simp: utf8_step_def hd_append split: prod.splits if_splits)

lemma valid_utf8_append: "valid_utf8 bs \<Longrightarrow> valid_utf8 (bs @ cs) = valid_utf8 cs"
proof (induction bs rule: valid_utf8.induct)
  case (1 bs)
  show ?case
  proof (cases "bs = []")
    case True
    then show ?thesis by simp
  next
    case False
    with "1.prems" have ok: "fst (utf8_step bs)" and v: "valid_utf8 (drop (snd (utf8_step bs)) bs)"
      by (subst (asm) valid_utf8.simps, simp)+
    have "valid_utf8 (bs @ cs) = valid_utf8 (drop (snd (utf8_step bs)) (bs @ cs))"
      using False ok by (subst valid_utf8.simps) (simp add: utf8_step_append)
    also have "\<dots> = valid_utf8 (drop (snd (utf8_step bs)) bs @ cs)"
      using utf8_step_fits [OF False ok] by simp
    also have "\<dots> = valid_utf8 cs"
      using "1.IH" [OF False] v by simp
    finally show ?thesis .
  qed
qed

lemma valid_utf8_concat: "\<forall>b \<in> set bss. valid_utf8 b \<Longrightarrow> valid_utf8 (concat bss)"
  by (induction bss) (auto simp: valid_utf8_append)

lemma utf8_width_second: "utf8_width b = (w, lo, hi) \<Longrightarrow> 2 \<le> w \<Longrightarrow> 0x80 \<le> lo"
  by (auto simp: utf8_width_def split: if_splits)

lemma byte_in_not_ascii: "byte_in lo hi i (p @ c # s) \<Longrightarrow> 0x80 \<le> lo \<Longrightarrow> c < 0x80 \<Longrightarrow> i \<noteq> length p"
  unfolding byte_in_def by (metis linorder_not_less nth_append_length order.trans)

lemma byte_in_front: "i < length p \<Longrightarrow> byte_in lo hi i (p @ q) = byte_in lo hi i p"
  by (simp add: byte_in_def nth_append)

lemma utf8_step_before_ascii:
  assumes "p \<noteq> []" "c < 0x80" "fst (utf8_step (p @ c # s))"
  shows "utf8_step p = utf8_step (p @ c # s)"
proof -
  obtain w lo hi where w: "utf8_width (hd p) = (w, lo, hi)" by (metis prod_cases3)
  have n: "byte_in lo hi 1 (p @ c # s) \<Longrightarrow> 2 \<le> w \<Longrightarrow> length p \<noteq> 1"
      "byte_in 0x80 0xBF 2 (p @ c # s) \<Longrightarrow> length p \<noteq> 2" "byte_in 0x80 0xBF 3 (p @ c # s) \<Longrightarrow> length p \<noteq> 3"
    using byte_in_not_ascii [OF _ _ assms(2)] utf8_width_second [OF w] by (metis order_refl)+
  have p: "length p \<noteq> 0" using assms(1) by simp
  have w0: "w \<noteq> 0" using assms(1,3) w by (auto simp: utf8_step_def split: if_splits)
  show ?thesis
  proof (cases "w = 1")
    case True
    then show ?thesis using w assms(1) by (simp add: utf8_step_def)
  next
    case False
    with w0 have w2: "2 \<le> w" by simp
    have b1: "byte_in lo hi 1 (p @ c # s)" using assms(1,3) w w0 False by (auto simp: utf8_step_def split: if_splits)
    with n(1) w2 p have l: "1 < length p" by linarith
    show ?thesis
    proof (cases "w = 2")
      case True
      then show ?thesis using w assms(1) b1 byte_in_front [OF l] by (simp add: utf8_step_def)
    next
      case w3: False
      have b2: "byte_in 0x80 0xBF 2 (p @ c # s)" using assms(1,3) w w0 False w3 by (auto simp: utf8_step_def split: if_splits)
      with n(2) l have l2: "2 < length p" by linarith
      show ?thesis
      proof (cases "w = 3")
        case True
        then show ?thesis using w assms(1) b1 b2 byte_in_front [OF l] byte_in_front [OF l2] by (simp add: utf8_step_def)
      next
        case w4: False
        have b3: "byte_in 0x80 0xBF 3 (p @ c # s)"
          using assms(1,3) w w0 False w3 w4 by (auto simp: utf8_step_def split: if_splits)
        with n(3) l2 have l3: "3 < length p" by linarith
        show ?thesis
          using w assms(1) w0 False w3 w4 b1 b2 b3 byte_in_front [OF l] byte_in_front [OF l2] byte_in_front [OF l3]
          by (simp add: utf8_step_def)
      qed
    qed
  qed
qed

lemma valid_utf8_cut: "valid_utf8 (p @ c # s) \<Longrightarrow> c < 0x80 \<Longrightarrow> valid_utf8 p \<and> valid_utf8 s"
proof (induction "length p" arbitrary: p rule: less_induct)
  case less
  show ?case
  proof (cases "p = []")
    case True
    with less.prems show ?thesis by (simp add: valid_utf8_low)
  next
    case False
    let ?n = "snd (utf8_step (p @ c # s))"
    have ok: "fst (utf8_step (p @ c # s))" and v: "valid_utf8 (drop ?n (p @ c # s))"
      using less.prems(1) by (subst (asm) valid_utf8.simps, simp)+
    note st = utf8_step_before_ascii [OF False less.prems(2) ok]
    have n: "?n \<le> length p" "0 < ?n" using utf8_step_fits [OF False] ok by (simp_all add: st [symmetric])
    from v n have "valid_utf8 (drop ?n p @ c # s)" by simp
    with less.hyps [of "drop ?n p"] n False less.prems(2) have "valid_utf8 (drop ?n p)" "valid_utf8 s" by simp_all
    then show ?thesis using False ok by (subst valid_utf8.simps) (simp add: st)
  qed
qed

lemma valid_utf8_pieces: "valid_utf8 s \<Longrightarrow> c < 0x80 \<Longrightarrow> p \<in> set (split_char c s) \<Longrightarrow> valid_utf8 p"
proof (induction "length s" arbitrary: s rule: less_induct)
  case less
  show ?case
  proof (cases "c \<in> set s")
    case False
    with less.prems show ?thesis by (simp add: split_char_piece)
  next
    case True
    then obtain u v where s: "s = u @ c # v" "c \<notin> set u" by (meson split_list_first)
    from valid_utf8_cut [of u c v] less.prems(1,2) s have "valid_utf8 u" "valid_utf8 v" by simp_all
    with less.hyps [of v] less.prems(2,3) s show ?thesis by (auto simp: split_char_append)
  qed
qed

lemma valid_header_text:
  assumes "\<forall>l \<in> set ls. valid_utf8 l" "valid_utf8 msg"
  shows "valid_utf8 (header_text ls msg)"
proof -
  have "valid_utf8 (concat (map (\<lambda>l. l @ [NL]) ls))"
    using assms(1) by (intro valid_utf8_concat) (auto simp: valid_utf8_append valid_utf8_low)
  with assms(2) show ?thesis
    by (simp add: header_text_def valid_utf8_append valid_utf8_low)
qed

lemma valid_utf8_text: "list_all (\<lambda>b. b < 0x80) s \<Longrightarrow> valid_utf8 s"
  by (rule valid_utf8_ascii) (simp add: list_all_iff)

text \<open>A header line is a key and a one-line value.\<close>

definition field_ok :: "bytes \<Rightarrow> bool" where
  "field_ok v \<longleftrightarrow> valid_utf8 v \<and> NL \<notin> set v \<and> (v \<noteq> [] \<longrightarrow> last v \<noteq> CR)"

definition key_ok :: "bytes \<Rightarrow> bool" where
  "key_ok k \<longleftrightarrow> k \<noteq> [] \<and> (\<forall>b \<in> set k. b < 0x80 \<and> b \<noteq> NL) \<and> last k \<noteq> CR"

lemma key_ok_line:
  assumes "key_ok k" "field_ok v"
  shows "line_ok (k @ v) \<and> valid_utf8 (k @ v)"
proof -
  have "valid_utf8 k" using assms(1) by (intro valid_utf8_ascii) (simp add: key_ok_def)
  with assms show ?thesis
    by (auto simp: line_ok_def field_ok_def key_ok_def valid_utf8_append last_append)
qed

lemma to_string_lossy_valid: "valid_utf8 bs \<Longrightarrow> to_string_lossy bs = bs"
proof (induction bs rule: to_string_lossy.induct)
  case (1 bs)
  show ?case
  proof (cases "bs = []")
    case True
    then show ?thesis by (simp add: to_string_lossy.simps)
  next
    case False
    with "1.prems" have ok: "fst (utf8_step bs)" and v: "valid_utf8 (drop (snd (utf8_step bs)) bs)"
      by (subst (asm) valid_utf8.simps, simp)+
    have "to_string_lossy (drop (snd (utf8_step bs)) bs) = drop (snd (utf8_step bs)) bs"
      using "1.IH" [OF False] v by simp
    with False ok show ?thesis
      by (subst to_string_lossy.simps) simp
  qed
qed

text \<open>\<open>str::trim\<close> removes Unicode white space at both ends; \<open>ws_len\<close> is the length in bytes of a
  white-space character at the front, 0 when there is none.\<close>

definition ws_len :: "bytes \<Rightarrow> nat" where
  "ws_len s =
     (if byte_in 9 13 0 s \<or> byte_in 32 32 0 s then 1
      else if byte_in 0xC2 0xC2 0 s \<and> (byte_in 0x85 0x85 1 s \<or> byte_in 0xA0 0xA0 1 s) then 2
      else if byte_in 0xE1 0xE1 0 s \<and> byte_in 0x9A 0x9A 1 s \<and> byte_in 0x80 0x80 2 s then 3
      else if byte_in 0xE2 0xE2 0 s \<and> byte_in 0x80 0x80 1 s
              \<and> (byte_in 0x80 0x8A 2 s \<or> byte_in 0xA8 0xA9 2 s \<or> byte_in 0xAF 0xAF 2 s) then 3
      else if byte_in 0xE2 0xE2 0 s \<and> byte_in 0x81 0x81 1 s \<and> byte_in 0x9F 0x9F 2 s then 3
      else if byte_in 0xE3 0xE3 0 s \<and> byte_in 0x80 0x80 1 s \<and> byte_in 0x80 0x80 2 s then 3
      else 0)"

lemma ws_len_Nil [simp]: "ws_len [] = 0"
  by (simp add: ws_len_def byte_in_def)

lemma drop_ws_len: "ws_len s \<noteq> 0 \<Longrightarrow> length (drop (ws_len s) s) < length s"
  by (cases s) auto

function trim_start :: "bytes \<Rightarrow> bytes" where
  "trim_start s = (if ws_len s = 0 then s else trim_start (drop (ws_len s) s))"
  by pat_completeness auto
termination
  by (relation "measure length") (simp_all add: drop_ws_len del: length_drop)

definition ends_ws :: "nat \<Rightarrow> bytes \<Rightarrow> bool" where
  "ends_ws k s \<longleftrightarrow> k \<le> length s \<and> 0 < k \<and> ws_len (drop (length s - k) s) = k"

function trim_end :: "bytes \<Rightarrow> bytes" where
  "trim_end s =
     (if ends_ws 1 s then trim_end (take (length s - 1) s)
      else if ends_ws 2 s then trim_end (take (length s - 2) s)
      else if ends_ws 3 s then trim_end (take (length s - 3) s)
      else s)"
  by pat_completeness auto
termination
  by (relation "measure length") (auto simp: ends_ws_def)

declare trim_start.simps [simp del] trim_end.simps [simp del]

definition trim :: "bytes \<Rightarrow> bytes" where
  "trim s = trim_end (trim_start s)"

definition graphic :: "bytes \<Rightarrow> bool" where
  "graphic s \<longleftrightarrow> (\<forall>b \<in> set s. 33 \<le> b \<and> b \<le> 126)"

lemma graphic_drop: "graphic s \<Longrightarrow> graphic (drop n s)"
  by (auto simp: graphic_def dest: in_set_dropD)

lemma graphic_byte_in: "graphic s \<Longrightarrow> byte_in lo hi i s \<Longrightarrow> 33 \<le> hi \<and> lo \<le> 126"
  unfolding graphic_def byte_in_def by (meson nth_mem order_trans)

lemma no_lead_ws_len:
  assumes "\<And>lo hi. byte_in lo hi 0 s \<Longrightarrow> 33 \<le> hi \<and> lo \<le> 126"
  shows "ws_len s = 0"
proof -
  have "\<not> byte_in lo hi 0 s" if "hi < 33 \<or> 126 < lo" for lo hi
    using assms [of lo hi] that by auto
  then show ?thesis by (simp add: ws_len_def)
qed

lemma graphic_ws_len: "graphic s \<Longrightarrow> ws_len s = 0"
  by (rule no_lead_ws_len) (rule graphic_byte_in)

lemma trim_graphic: "graphic s \<Longrightarrow> trim s = s"
proof -
  assume s: "graphic s"
  have "trim_start s = s" using s by (simp add: trim_start.simps graphic_ws_len)
  moreover have "\<not> ends_ws k s" for k
    using graphic_ws_len [OF graphic_drop [OF s]] by (auto simp: ends_ws_def)
  ultimately show ?thesis by (simp add: trim_def trim_end.simps)
qed

lemma trim_end_ws: "ws_len [b] = 1 \<Longrightarrow> trim_end (s @ [b]) = trim_end s"
  by (subst trim_end.simps) (simp add: ends_ws_def)

lemma trim_graphic_nl: "graphic s \<Longrightarrow> s \<noteq> [] \<Longrightarrow> trim (s @ [NL]) = s"
proof -
  assume s: "graphic s" "s \<noteq> []"
  have "byte_in lo hi 0 (s @ [NL]) = byte_in lo hi 0 s" for lo hi
    using s(2) by (simp add: byte_in_def nth_append)
  then have "ws_len (s @ [NL]) = 0"
    using graphic_byte_in [OF s(1)] by (intro no_lead_ws_len) simp
  then have "trim_start (s @ [NL]) = s @ [NL]" by (simp add: trim_start.simps)
  moreover have "trim_end (s @ [NL]) = trim_end s"
    by (rule trim_end_ws) (simp add: ws_len_def byte_in_def)
  moreover have "\<not> ends_ws k s" for k
    using graphic_ws_len [OF graphic_drop [OF s(1)]] by (auto simp: ends_ws_def)
  ultimately show ?thesis by (simp add: trim_def trim_end.simps [of s])
qed

section \<open>Paths\<close>

text \<open>\<open>Path::components\<close> on Unix: a leading slash is the root, empty and \<open>.\<close> pieces are dropped
  except a \<open>.\<close> that opens a relative path.\<close>

datatype component = RootDir | CurDir | ParentDir | Normal bytes

definition piece_component :: "bytes \<Rightarrow> component list" where
  "piece_component p =
     (if p = [] \<or> p = [46] then [] else if p = [46, 46] then [ParentDir] else [Normal p])"

definition path_components :: "bytes \<Rightarrow> component list" where
  "path_components p =
     (if p \<noteq> [] \<and> hd p = SLASH then [RootDir] else [])
     @ (case split_char SLASH p of
          [] \<Rightarrow> []
        | q # qs \<Rightarrow> (if q = [46] then [CurDir] else piece_component q) @ concat (map piece_component qs))"

definition plain_piece :: "bytes \<Rightarrow> bool" where
  "plain_piece p \<longleftrightarrow> p \<noteq> [] \<and> p \<noteq> [46] \<and> p \<noteq> [46, 46]"

lemma path_components_plain:
  assumes "\<forall>q \<in> set (split_char SLASH p). plain_piece q"
  shows "path_components p = map Normal (split_char SLASH p)"
proof -
  have c: "concat (map piece_component qs) = map Normal qs" if "\<forall>q \<in> set qs. plain_piece q" for qs
    using that by (induction qs) (auto simp: piece_component_def plain_piece_def)
  obtain q qs where q: "split_char SLASH p = q # qs"
    by (cases "split_char SLASH p") auto
  have qs: "plain_piece q" "\<forall>q \<in> set qs. plain_piece q"
    using assms q by simp_all
  have "\<not> (p \<noteq> [] \<and> hd p = SLASH)"
  proof
    assume "p \<noteq> [] \<and> hd p = SLASH"
    then have "q = []" using q by (cases p) simp_all
    with qs(1) show False by (simp add: plain_piece_def)
  qed
  then have "path_components p = piece_component q @ concat (map piece_component qs)"
    using qs(1) unfolding path_components_def plain_piece_def by (simp only: q if_False list.case) simp
  also have "\<dots> = map Normal (q # qs)"
    using qs(1) c [OF qs(2)] by (simp add: piece_component_def plain_piece_def)
  finally show ?thesis by (simp only: q)
qed

section \<open>Signed numbers as text\<close>

definition print_i64 :: "64 word \<Rightarrow> bytes" where
  "print_i64 w = (if sint w < 0 then 45 # to_radix 10 (nat (- sint w)) else to_radix 10 (nat (sint w)))"

definition parse_i64 :: "bytes \<Rightarrow> int option" where
  "parse_i64 s =
     (if prefix [45] s
      then (if tl s = [] then None
            else (case radix_val 10 0 (tl s) of
                    None \<Rightarrow> None
                  | Some v \<Rightarrow> if v \<le> 2 ^ 63 then Some (- int v) else None))
      else map_option int (parse_uint 10 (2 ^ 63) s))"

lemma sint_range: "- (2 ^ 63) \<le> sint (w :: 64 word)" "sint (w :: 64 word) < 2 ^ 63"
  using sint_greater_eq [of w] sint_less [of w] by simp_all

lemma radix_nonempty_sign: "\<not> prefix [45] (to_radix 10 n)"
proof
  assume "prefix [45] (to_radix 10 n)"
  then have "45 \<in> set (to_radix 10 n)" by (cases "to_radix 10 n") auto
  then show False using to_radix_digits [of 10 n] by auto
qed

lemma parse_print_i64: "parse_i64 (print_i64 w) = Some (sint w)"
proof (cases "sint w < 0")
  case True
  have "nat (- sint w) \<le> 2 ^ 63" using sint_range(1) [of w] by simp
  with True show ?thesis by (simp add: print_i64_def parse_i64_def radix_val_to_radix)
next
  case False
  have "nat (sint w) < 2 ^ 63" using sint_range(2) [of w] False by simp
  then have "parse_uint 10 (2 ^ 63) (to_radix 10 (nat (sint w))) = Some (nat (sint w))"
    by (intro parse_uint_to_radix) simp_all
  with False radix_nonempty_sign show ?thesis by (simp add: print_i64_def parse_i64_def)
qed

lemma print_i64_plain: "c \<in> set (print_i64 w) \<Longrightarrow> 45 \<le> c \<and> c \<le> 57"
  using to_radix_digits [of 10] by (fastforce simp: print_i64_def word_le_nat_alt split: if_splits)

section \<open>Loops\<close>

text \<open>A \<open>while\<close> loop that may not end: \<open>step\<close> is one turn of its body, \<open>Inl\<close> the state for the next
  turn and \<open>Inr\<close> the value of the \<open>return\<close> or of the exit. A loop that runs forever is \<open>None\<close>.\<close>

partial_function (option) loop :: "('s \<Rightarrow> 's + 'r) \<Rightarrow> 's \<Rightarrow> 'r option" where
  "loop step s = (case step s of Inl s' \<Rightarrow> loop step s' | Inr r \<Rightarrow> Some r)"

lemma loop_step: "step s = Inl s' \<Longrightarrow> loop step s = loop step s'"
  by (subst loop.simps) simp

lemma loop_exit: "step s = Inr r \<Longrightarrow> loop step s = Some r"
  by (subst loop.simps) simp

lemma loop_rule:
  assumes "wf R" "I s"
    and "\<And>s s'. I s \<Longrightarrow> step s = Inl s' \<Longrightarrow> I s' \<and> (s', s) \<in> R"
    and "\<And>s r. I s \<Longrightarrow> step s = Inr r \<Longrightarrow> Q r"
  shows "\<exists>r. loop step s = Some r \<and> Q r"
  using assms(1,2)
proof (induction s rule: wf_induct_rule)
  case (less s)
  show ?case
  proof (cases "step s")
    case (Inl s')
    with assms(3) [OF less.prems] less.IH [of s'] show ?thesis by (simp add: loop_step)
  next
    case (Inr r)
    with assms(4) [OF less.prems] show ?thesis by (simp add: loop_exit)
  qed
qed

section \<open>Trimming\<close>

definition solid :: "byte \<Rightarrow> bool" where
  "solid b \<longleftrightarrow> 33 \<le> b \<and> b \<le> 126"

lemma byte_in_hd: "s \<noteq> [] \<Longrightarrow> byte_in lo hi 0 s \<longleftrightarrow> lo \<le> hd s \<and> hd s \<le> hi"
  by (simp add: byte_in_def hd_conv_nth)

lemma solid_ws_len: "s \<noteq> [] \<Longrightarrow> solid (hd s) \<Longrightarrow> ws_len s = 0"
  unfolding solid_def by (rule no_lead_ws_len) (meson byte_in_hd order_trans)

lemma byte_in_last: "byte_in lo hi i s \<Longrightarrow> Suc i = length s \<Longrightarrow> lo \<le> last s \<and> last s \<le> hi"
  unfolding byte_in_def by (metis diff_Suc_1 last_conv_nth list.size(3) nat.distinct(1))

lemma ws_len_all:
  assumes "ws_len s = length s" "s \<noteq> []"
  shows "\<not> solid (last s)"
proof
  assume "solid (last s)"
  then have n: "\<not> byte_in lo hi i s" if "Suc i = length s" "hi < 33 \<or> 126 < lo" for lo hi i
    using byte_in_last [of lo hi i s] that unfolding solid_def by (meson linorder_not_le order_trans)
  then have l: "\<not> byte_in 9 13 0 s" "\<not> byte_in 32 32 0 s" if "length s = 1"
    using that by (simp_all add: n)
  have l2: "\<not> byte_in 0x85 0x85 (Suc 0) s" "\<not> byte_in 0xA0 0xA0 (Suc 0) s" if "length s = 2"
    using that by (simp_all add: n)
  have l3: "\<not> byte_in 0x80 0x80 2 s" "\<not> byte_in 0x80 0x8A 2 s" "\<not> byte_in 0xA8 0xA9 2 s" "\<not> byte_in 0xAF 0xAF 2 s"
      "\<not> byte_in 0x9F 0x9F 2 s" if "length s = 3"
    using that by (simp_all add: n)
  from assms show False
    unfolding ws_len_def by (simp only: split: if_split_asm) (simp_all add: l l2 l3)
qed

lemma solid_trim_end: "s \<noteq> [] \<Longrightarrow> solid (last s) \<Longrightarrow> trim_end s = s"
proof -
  assume s: "s \<noteq> []" "solid (last s)"
  have "\<not> ends_ws k s" for k
  proof
    assume k: "ends_ws k s"
    let ?d = "drop (length s - k) s"
    have "length ?d = k" "0 < k" "ws_len ?d = k" using k by (simp_all add: ends_ws_def)
    moreover from this have "?d \<noteq> []" by (metis list.size(3) less_not_refl)
    ultimately show False using ws_len_all [of ?d] s(2) by (simp add: last_drop)
  qed
  then show ?thesis by (simp add: trim_end.simps)
qed

lemma trim_solid: "s \<noteq> [] \<Longrightarrow> solid (hd s) \<Longrightarrow> solid (last s) \<Longrightarrow> trim s = s"
  by (simp add: trim_def trim_start.simps solid_ws_len solid_trim_end)

lemma trim_sp_left: "s \<noteq> [] \<Longrightarrow> solid (hd s) \<Longrightarrow> solid (last s) \<Longrightarrow> trim (SP # s) = s"
proof -
  assume s: "s \<noteq> []" "solid (hd s)" "solid (last s)"
  have "ws_len (SP # s) = 1" by (simp add: ws_len_def byte_in_def)
  then have "trim_start (SP # s) = trim_start s" by (subst trim_start.simps) simp
  with s show ?thesis by (simp add: trim_def trim_start.simps solid_ws_len solid_trim_end)
qed

lemma trim_sp_right: "s \<noteq> [] \<Longrightarrow> solid (hd s) \<Longrightarrow> solid (last s) \<Longrightarrow> trim (s @ [SP]) = s"
proof -
  assume s: "s \<noteq> []" "solid (hd s)" "solid (last s)"
  then have "ws_len (s @ [SP]) = 0" by (intro solid_ws_len) simp_all
  then have "trim (s @ [SP]) = trim_end (s @ [SP])" by (simp add: trim_def trim_start.simps)
  also have "\<dots> = s" using s by (simp add: trim_end_ws solid_trim_end ws_len_def byte_in_def)
  finally show ?thesis .
qed

section \<open>Characters\<close>

text \<open>\<open>str::chars\<close>: the characters of a string, each as its UTF-8 bytes.\<close>

function chars :: "bytes \<Rightarrow> bytes list" where
  "chars s = (if s = [] then [] else take (snd (utf8_step s)) s # chars (drop (snd (utf8_step s)) s))"
  by pat_completeness auto
termination by (relation "measure length") auto

declare chars.simps [simp del]

lemma chars_Nil [simp]: "chars [] = []"
  by (simp add: chars.simps)

lemma concat_chars: "concat (chars s) = s"
proof (induction s rule: chars.induct)
  case (1 s)
  then show ?case by (cases "s = []") (simp_all add: chars.simps [of s])
qed

lemma chars_low: "b < 0x80 \<Longrightarrow> chars (b # s) = [b] # chars s"
  by (subst chars.simps) (simp add: utf8_step_def utf8_width_def)

lemma byte_in_high: "byte_in lo hi i s \<Longrightarrow> 0x80 \<le> lo \<Longrightarrow> 0x80 \<le> s ! i"
  by (auto simp: byte_in_def)

lemma utf8_step_high:
  assumes "s \<noteq> []" "fst (utf8_step s)" "0x80 \<le> hd s" "i < snd (utf8_step s)"
  shows "0x80 \<le> s ! i"
proof -
  obtain w lo hi where w: "utf8_width (hd s) = (w, lo, hi)" by (metis prod_cases3)
  have "w \<noteq> 1" using w assms(3) by (auto simp: utf8_width_def split: if_splits)
  moreover have "w \<noteq> 0" using w assms(2) by (auto simp: utf8_step_def split: if_splits)
  moreover have "lo \<ge> 0x80" using utf8_width_second [OF w] calculation by simp
  moreover have "i = 0 \<or> i = 1 \<or> i = 2 \<or> i = 3"
    using assms(4) by (auto simp: utf8_step_def split: prod.splits if_splits)
  ultimately show ?thesis
    using assms w byte_in_high [of lo hi 1 s] byte_in_high [of "0x80" "0xBF" 2 s] byte_in_high [of "0x80" "0xBF" 3 s]
    by (auto simp: utf8_step_def hd_conv_nth split: if_splits)
qed

definition wide :: "bytes \<Rightarrow> bool" where
  "wide c \<longleftrightarrow> c \<noteq> [] \<and> (\<forall>b \<in> set c. 0x80 \<le> b) \<and> valid_utf8 c"

lemma byte_in_take: "byte_in lo hi i (take n s) \<longleftrightarrow> i < n \<and> byte_in lo hi i s"
  unfolding byte_in_def by (cases "i < n") simp_all

lemma utf8_step_take:
  assumes "s \<noteq> []" "fst (utf8_step s)"
  shows "utf8_step (take (snd (utf8_step s)) s) = utf8_step s"
proof -
  let ?n = "snd (utf8_step s)"
  obtain w lo hi where w: "utf8_width (hd s) = (w, lo, hi)" by (metis prod_cases3)
  from assms(2) w have "w \<noteq> 0" by (auto simp: utf8_step_def split: if_splits)
  then consider "w = 1" "?n = 1" | "w = 2" "?n = 2" "byte_in lo hi 1 s"
    | "w = 3" "?n = 3" "byte_in lo hi 1 s" "byte_in 0x80 0xBF 2 s"
    | "3 < w" "?n = 4" "byte_in lo hi 1 s" "byte_in 0x80 0xBF 2 s" "byte_in 0x80 0xBF 3 s"
    using assms(2) w unfolding utf8_step_def by (simp split: if_split_asm) linarith?
  then show ?thesis
    by cases (simp_all add: utf8_step_def w byte_in_take)
qed

lemma chars_cases:
  assumes "valid_utf8 s" "c \<in> set (chars s)"
  shows "(\<exists>b. c = [b] \<and> b < 0x80) \<or> wide c"
  using assms
proof (induction s rule: chars.induct)
  case (1 s)
  let ?n = "snd (utf8_step s)"
  show ?case
  proof (cases "s = []")
    case True
    with 1 show ?thesis by simp
  next
    case False
    then have ok: "fst (utf8_step s)" and v: "valid_utf8 (drop ?n s)"
      using "1.prems"(1) by (subst (asm) valid_utf8.simps, simp)+
    from "1.prems"(2) False have "c = take ?n s \<or> c \<in> set (chars (drop ?n s))"
      by (subst (asm) chars.simps) simp
    then show ?thesis
    proof
      assume "c \<in> set (chars (drop ?n s))"
      with "1.IH" [OF False v] show ?thesis by simp
    next
      assume c: "c = take ?n s"
      show ?thesis
      proof (cases "hd s < 0x80")
        case True
        with False have "?n = 1" by (simp add: utf8_step_def utf8_width_def)
        with c False True show ?thesis by (cases s) auto
      next
        case hi: False
        have "\<forall>b \<in> set c. 0x80 \<le> b"
          using utf8_step_high [OF False ok] hi c by (auto simp: in_set_conv_nth)
        moreover have "c \<noteq> []" using c False utf8_step_pos [of s] by (metis not_gr0 take_eq_Nil)
        moreover have "valid_utf8 c"
          using calculation(2) c ok utf8_step_take [OF False ok] by (subst valid_utf8.simps) simp
        ultimately show ?thesis by (simp add: wide_def)
      qed
    qed
  qed
qed

end
