(* ===== verification/Hash.thy ===== *)
theory Hash
  imports Prelude
begin

text \<open>
  \<open>src/hash.rs\<close>: object identifiers and their hexadecimal form.

  The 32-byte array of \<open>ObjectId\<close> is a byte list; \<open>wf_id\<close> is the length its Rust type guarantees.
  BLAKE3 is a parameter \<open>H\<close> of every definition that hashes; \<open>digest32 H\<close> is the documented length
  of its digest.
\<close>

datatype object_id = ObjectId (id_bytes: bytes)

definition HASH_LEN :: nat where "HASH_LEN = 32"
definition HEX_LEN :: nat where "HEX_LEN = HASH_LEN * 2"

definition wf_id :: "object_id \<Rightarrow> bool" where
  "wf_id i \<longleftrightarrow> length (id_bytes i) = HASH_LEN"

text \<open>The derived order compares the arrays lexicographically.\<close>

instantiation object_id :: linorder
begin

definition less_eq_object_id :: "object_id \<Rightarrow> object_id \<Rightarrow> bool" where
  "less_eq_object_id a b \<longleftrightarrow> id_bytes a \<le> id_bytes b"

definition less_object_id :: "object_id \<Rightarrow> object_id \<Rightarrow> bool" where
  "less_object_id a b \<longleftrightarrow> id_bytes a < id_bytes b"

instance
  by standard (auto simp: less_eq_object_id_def less_object_id_def object_id.expand)

end

definition from_bytes :: "bytes \<Rightarrow> object_id res" where
  "from_bytes bs =
     (if length bs \<noteq> HASH_LEN then Inl (EParse ''expected 32 bytes'') else Inr (ObjectId bs))"

definition hex_nibble :: "byte \<Rightarrow> byte res" where
  "hex_nibble b =
     (if 48 \<le> b \<and> b \<le> 57 then Inr (b - 48)
      else if 97 \<le> b \<and> b \<le> 102 then Inr (b - 97 + 10)
      else if 65 \<le> b \<and> b \<le> 70 then Inr (b - 65 + 10)
      else Inl (EParse ''non-hex byte''))"

definition hex_char :: "byte \<Rightarrow> byte" where
  "hex_char nibble = (let n = nibble AND 0x0f in if n < 10 then 48 + n else 97 + n - 10)"

fun hex_pairs :: "bytes \<Rightarrow> bytes res" where
  "hex_pairs (h # l # rest) =
     (case hex_nibble h of Inl e \<Rightarrow> Inl e
      | Inr hi \<Rightarrow> (case hex_nibble l of Inl e \<Rightarrow> Inl e
        | Inr lo \<Rightarrow> (case hex_pairs rest of Inl e \<Rightarrow> Inl e
          | Inr bs \<Rightarrow> Inr ((push_bit 4 hi OR lo) # bs))))"
| "hex_pairs _ = Inr []"

definition from_hex :: "bytes \<Rightarrow> object_id res" where
  "from_hex s =
     (if length s \<noteq> HEX_LEN then Inl (EParse ''expected 64 hex chars'')
      else (case hex_pairs s of Inl e \<Rightarrow> Inl e | Inr out \<Rightarrow> Inr (ObjectId out)))"

definition to_hex :: "object_id \<Rightarrow> bytes" where
  "to_hex i = concat (map (\<lambda>b. [hex_char (drop_bit 4 b), hex_char (b AND 0x0f)]) (id_bytes i))"

definition hash_bytes :: "(bytes \<Rightarrow> bytes) \<Rightarrow> bytes \<Rightarrow> object_id" where
  "hash_bytes H bs = ObjectId (H bs)"

definition digest32 :: "(bytes \<Rightarrow> bytes) \<Rightarrow> bool" where
  "digest32 H \<longleftrightarrow> (\<forall>x. length (H x) = HASH_LEN)"

definition is_hexdigit :: "byte \<Rightarrow> bool" where
  "is_hexdigit b \<longleftrightarrow> 48 \<le> b \<and> b \<le> 57 \<or> 97 \<le> b \<and> b \<le> 102 \<or> 65 \<le> b \<and> b \<le> 70"

section \<open>Nibbles\<close>

lemma small_word: "unat (b :: byte) < n \<Longrightarrow> b \<in> word_of_nat ` {0..<n}"
  by (rule image_eqI [of _ _ "unat b"]) simp_all

lemma nibble_cases:
  assumes "b < (16 :: byte)"
  shows "b \<in> set (map word_of_nat [0..<16])"
  using assms small_word [of b 16] by (simp add: word_less_nat_alt)

lemma nibble_char_all: "list_all (\<lambda>b. hex_nibble (hex_char b) = Inr b) (map word_of_nat [0..<16])"
  by code_simp

lemma nibble_and: "b AND 15 < (16 :: byte)"
  using word_and_le1 [of b 15] by (simp add: word_le_nat_alt word_less_nat_alt)

lemma hex_nibble_char [simp]: "hex_nibble (hex_char b) = Inr (b AND 15)"
proof -
  have "hex_char b = hex_char (b AND 15)"
    by (simp add: hex_char_def and.assoc)
  with nibble_char_all nibble_cases [OF nibble_and [of b]] show ?thesis
    by (simp only: list_all_iff)
qed

lemma hexdigit_cases:
  "is_hexdigit b \<Longrightarrow> b \<in> set (map word_of_nat ([48..<58] @ [97..<103] @ [65..<71]))"
proof -
  assume "is_hexdigit b"
  then have "unat b \<in> {48..<58} \<union> {97..<103} \<union> {65..<71}"
    by (auto simp: is_hexdigit_def word_le_nat_alt)
  then show ?thesis
    unfolding set_map set_append set_upt by (intro image_eqI [of _ _ "unat b"]) auto
qed

lemma hexdigit_all:
  "list_all (\<lambda>b. case hex_nibble b of Inl e \<Rightarrow> False | Inr n \<Rightarrow> n < 16 \<and> hex_char n = to_lower b)
     (map word_of_nat ([48..<58] @ [97..<103] @ [65..<71]))"
  by code_simp

lemma hex_nibble_ok: "is_hexdigit b \<Longrightarrow> \<exists>n. hex_nibble b = Inr n"
  by (auto simp: is_hexdigit_def hex_nibble_def)

lemma hex_nibble_Inr:
  assumes "hex_nibble b = Inr n"
  shows "is_hexdigit b \<and> n < 16 \<and> hex_char n = to_lower b"
proof -
  from assms have d: "is_hexdigit b"
    by (auto simp: is_hexdigit_def hex_nibble_def split: if_splits)
  from hexdigit_all hexdigit_cases [OF d] assms d show ?thesis
    by (force simp only: list_all_iff sum.case)
qed

lemma byte_join_all: "\<forall>b :: byte. push_bit 4 (drop_bit 4 b AND 15) OR (b AND 15) = b"
  by code_simp

lemma byte_join: "push_bit 4 (drop_bit 4 b AND 15) OR (b AND 15) = (b :: byte)"
  using byte_join_all by blast

lemma byte_join': "push_bit 4 (drop_bit 4 b) AND 240 OR b AND 15 = (b :: byte)"
  using byte_join [of b] by simp

lemma nibble_join_all:
  "list_all (\<lambda>h. list_all (\<lambda>l. drop_bit 4 (push_bit 4 h OR l) = h
     \<and> (push_bit 4 h OR l) AND 15 = (l :: byte)) (map word_of_nat [0..<16])) (map word_of_nat [0..<16])"
  by code_simp

lemma nibble_join:
  fixes h l :: byte
  assumes "h < 16" "l < 16"
  shows "drop_bit 4 (push_bit 4 h OR l) = h" "(push_bit 4 h OR l) AND 15 = l"
  using nibble_join_all nibble_cases [OF assms(1)] nibble_cases [OF assms(2)]
  by (simp_all only: list_all_iff)

section \<open>Hexadecimal round trips\<close>

lemma length_to_hex [simp, len_simps]: "length (to_hex i) = 2 * length (id_bytes i)"
proof -
  have "length (concat (map (\<lambda>b. [f b, g b]) xs)) = 2 * length xs" for f g :: "byte \<Rightarrow> byte" and xs
    by (induction xs) auto
  then show ?thesis by (simp add: to_hex_def)
qed

lemma length_to_hex_wf [simp]: "wf_id i \<Longrightarrow> length (to_hex i) = 64"
  by (simp add: wf_id_def HASH_LEN_def)

lemma to_hex_Cons:
  "to_hex (ObjectId (b # bs)) = hex_char (drop_bit 4 b) # hex_char (b AND 15) # to_hex (ObjectId bs)"
  by (simp add: to_hex_def)

lemma hex_pairs_to_hex: "hex_pairs (to_hex i) = Inr (id_bytes i)"
proof -
  have "hex_pairs (concat (map (\<lambda>b. [hex_char (drop_bit 4 b), hex_char (b AND 0x0f)]) bs)) = Inr bs"
    for bs
    by (induction bs) (simp_all add: and.assoc byte_join')
  then show ?thesis by (simp add: to_hex_def)
qed

lemma from_hex_to_hex [simp, codec_simps]: "wf_id i \<Longrightarrow> from_hex (to_hex i) = Inr i"
  by (simp add: from_hex_def HEX_LEN_def wf_id_def hex_pairs_to_hex)

lemma hex_pairs_Inr:
  assumes "hex_pairs s = Inr bs" and "even (length s)"
  shows "to_hex (ObjectId bs) = map to_lower s \<and> 2 * length bs = length s \<and> list_all is_hexdigit s"
  using assms
proof (induction s arbitrary: bs rule: hex_pairs.induct)
  case (1 h l rest)
  then obtain hi lo bs' where n: "hex_nibble h = Inr hi" "hex_nibble l = Inr lo"
    and r: "hex_pairs rest = Inr bs'" and bs: "bs = (push_bit 4 hi OR lo) # bs'"
    by (auto split: sum.splits)
  have "to_hex (ObjectId bs') = map to_lower rest \<and> 2 * length bs' = length rest
      \<and> list_all is_hexdigit rest"
    using "1.IH" [OF n r] "1.prems"(2) by simp
  moreover have "to_hex (ObjectId bs) = hex_char hi # hex_char lo # to_hex (ObjectId bs')"
    using hex_nibble_Inr [OF n(1)] hex_nibble_Inr [OF n(2)]
    by (simp only: bs to_hex_Cons nibble_join)
  ultimately show ?case
    using hex_nibble_Inr [OF n(1)] hex_nibble_Inr [OF n(2)] bs by simp
qed (simp_all add: to_hex_def)

lemma hex_pairs_total: "list_all is_hexdigit s \<Longrightarrow> \<exists>bs. hex_pairs s = Inr bs"
proof (induction s rule: hex_pairs.induct)
  case (1 h l rest)
  then have d: "is_hexdigit h" "is_hexdigit l" "list_all is_hexdigit rest" by auto
  obtain hi lo where n: "hex_nibble h = Inr hi" "hex_nibble l = Inr lo"
    using hex_nibble_ok [OF d(1)] hex_nibble_ok [OF d(2)] by blast
  with "1.IH" [OF n d(3)] show ?case by auto
qed auto

lemma from_hex_wf: "from_hex s = Inr i \<Longrightarrow> wf_id i"
  using hex_pairs_Inr [of s]
  by (auto simp: from_hex_def HEX_LEN_def HASH_LEN_def wf_id_def split: if_splits sum.splits)

lemma to_hex_inject: "to_hex a = to_hex b \<Longrightarrow> a = b"
  using hex_pairs_to_hex [of a] hex_pairs_to_hex [of b] by (simp add: object_id.expand)

lemma hex_char_range: "48 \<le> hex_char b \<and> hex_char b \<le> 102"
proof -
  have "list_all (\<lambda>b. 48 \<le> hex_char b \<and> hex_char b \<le> 102) (map word_of_nat [0..<16])"
    by code_simp
  with nibble_cases [OF nibble_and [of b]]
  have "48 \<le> hex_char (b AND 15) \<and> hex_char (b AND 15) \<le> 102"
    by (simp only: list_all_iff)
  then show ?thesis by (simp add: hex_char_def and.assoc)
qed

lemma to_hex_range: "c \<in> set (to_hex i) \<Longrightarrow> 48 \<le> c \<and> c \<le> 102"
  using hex_char_range by (auto simp: to_hex_def)

lemma graphic_to_hex [simp]: "graphic (to_hex i)"
proof -
  have "33 \<le> c \<and> c \<le> 126" if "48 \<le> c" "c \<le> 102" for c :: byte
    using that by (simp add: word_le_nat_alt)
  then show ?thesis using to_hex_range by (fastforce simp: graphic_def)
qed

lemma to_hex_no_sep [simp]:
  "NL \<notin> set (to_hex i)" "TAB \<notin> set (to_hex i)" "SP \<notin> set (to_hex i)" "CR \<notin> set (to_hex i)"
  using to_hex_range [of _ i] by fastforce+

lemma valid_utf8_to_hex [simp]: "valid_utf8 (to_hex i)"
proof (rule valid_utf8_ascii, rule ballI)
  fix c assume "c \<in> set (to_hex i)"
  then have "c \<le> 102" by (simp add: to_hex_range)
  then show "c < 0x80" by (simp add: word_le_nat_alt word_less_nat_alt)
qed

lemma field_ok_hex [simp]: "field_ok (to_hex i)"
  using to_hex_no_sep(4) [of i] last_in_set [of "to_hex i"] by (metis field_ok_def to_hex_no_sep(1) valid_utf8_to_hex)

lemma to_hex_nonempty: "wf_id i \<Longrightarrow> to_hex i \<noteq> []"
  by (metis length_0_conv length_to_hex_wf zero_neq_numeral)

lemma wf_hash_bytes: "digest32 H \<Longrightarrow> wf_id (hash_bytes H x)"
  by (simp add: digest32_def wf_id_def hash_bytes_def)

text \<open>C1: parsing a hexadecimal identifier succeeds exactly on 64 hexadecimal digits, of either
  case, and then yields the one well-formed identifier that prints as the lower-case text.\<close>

theorem from_hex_spec:
  "from_hex s = Inr i \<longleftrightarrow>
     length s = 64 \<and> list_all is_hexdigit s \<and> wf_id i \<and> to_hex i = map to_lower s"
proof
  assume a: "from_hex s = Inr i"
  then have s: "length s = 64" and h: "hex_pairs s = Inr (id_bytes i)"
    by (auto simp: from_hex_def HEX_LEN_def HASH_LEN_def split: if_splits sum.splits)
  from s have "even (length s)" by simp
  with hex_pairs_Inr [OF h] from_hex_wf [OF a] s
  show "length s = 64 \<and> list_all is_hexdigit s \<and> wf_id i \<and> to_hex i = map to_lower s" by simp
next
  assume a: "length s = 64 \<and> list_all is_hexdigit s \<and> wf_id i \<and> to_hex i = map to_lower s"
  then obtain bs where bs: "hex_pairs s = Inr bs" using hex_pairs_total by blast
  from a have "even (length s)" by simp
  with hex_pairs_Inr [OF bs] a have "to_hex (ObjectId bs) = to_hex i" by simp
  then have "ObjectId bs = i" by (rule to_hex_inject)
  with a bs show "from_hex s = Inr i" by (simp add: from_hex_def HEX_LEN_def HASH_LEN_def)
qed

end
