(* ===== verification/Objects.thy ===== *)
theory Objects
  imports Hash
begin

text \<open>
  \<open>src/object/mod.rs\<close> and the framing half of \<open>src/object/store.rs\<close>: object kinds, the
  \<open>"<kind> <size>\0<payload>"\<close> form that is hashed and stored, and \<open>Object::new\<close>. The locale
  \<open>payload_codec\<close> is the contract the four payload formats share.
\<close>

datatype object_kind = Blob | Tree | Commit | Tag

definition kind_as_str :: "object_kind \<Rightarrow> bytes" where
  "kind_as_str k =
     (case k of Blob \<Rightarrow> ascii ''blob'' | Tree \<Rightarrow> ascii ''tree''
      | Commit \<Rightarrow> ascii ''commit'' | Tag \<Rightarrow> ascii ''tag'')"

definition kind_parse :: "bytes \<Rightarrow> object_kind res" where
  "kind_parse s =
     (if s = ascii ''blob'' then Inr Blob
      else if s = ascii ''tree'' then Inr Tree
      else if s = ascii ''commit'' then Inr Commit
      else if s = ascii ''tag'' then Inr Tag
      else Inl (EObject ''unknown object kind''))"

record object =
  obj_id :: object_id
  obj_kind :: object_kind
  obj_payload :: bytes

definition build_raw :: "object_kind \<Rightarrow> bytes \<Rightarrow> bytes" where
  "build_raw kind payload =
     (let header = kind_as_str kind @ [SP] @ to_radix 10 (length payload) @ [0]
      in header @ payload)"

definition parse_raw :: "bytes \<Rightarrow> (object_kind \<times> bytes) res" where
  "parse_raw raw =
     (case position (\<lambda>b. b = 0) raw of
        None \<Rightarrow> Inl (EObject ''missing NUL after object header'')
      | Some nul \<Rightarrow>
        (let header = take nul raw in
         if \<not> valid_utf8 header then Inl (EObject ''non-utf8 object header'')
         else (case split_once [SP] header of
             None \<Rightarrow> Inl (EObject ''malformed header'')
           | Some (kind_s, size_s) \<Rightarrow>
             (case kind_parse kind_s of Inl e \<Rightarrow> Inl e
              | Inr kind \<Rightarrow>
                (case parse_uint 10 USIZE_LIMIT size_s of
                   None \<Rightarrow> Inl (EObject ''non-numeric size in header'')
                 | Some sz \<Rightarrow>
                   (let payload = drop (nul + 1) raw in
                    if length payload \<noteq> sz
                    then Inl (EObject ''header size differs from payload'')
                    else Inr (kind, payload)))))))"

definition Object_new :: "(bytes \<Rightarrow> bytes) \<Rightarrow> object_kind \<Rightarrow> bytes \<Rightarrow> object" where
  "Object_new H kind payload =
     \<lparr>obj_id = hash_bytes H (build_raw kind payload), obj_kind = kind, obj_payload = payload\<rparr>"

section \<open>Framing\<close>

lemma kind_parse_as_str [simp, codec_simps]: "kind_parse (kind_as_str k) = Inr k"
  by (cases k) (simp_all add: kind_as_str_def kind_parse_def)

lemma kind_parse_Inr: "kind_parse s = Inr k \<Longrightarrow> s = kind_as_str k"
  by (auto simp: kind_as_str_def kind_parse_def split: if_splits)

lemma kind_as_str_plain: "c \<in> set (kind_as_str k) \<Longrightarrow> 97 \<le> c \<and> c \<le> 122"
  by (cases k) (auto simp: kind_as_str_def)

lemma digits_plain: "c \<in> set (to_radix 10 n) \<Longrightarrow> 48 \<le> c \<and> c \<le> 57"
  using to_radix_digits [of 10 n] by simp

lemma kind_as_str_no_sp [simp]: "SP \<notin> set (kind_as_str k)" "0 \<notin> set (kind_as_str k)"
  "NL \<notin> set (kind_as_str k)"
  using kind_as_str_plain [of _ k] by fastforce+

lemma digits_no_nul [simp]: "0 \<notin> set (to_radix 10 n)"
  using digits_plain [of 0 n] by auto

lemma kind_as_str_ascii: "c \<in> set (kind_as_str k) \<Longrightarrow> c < 0x80"
  by (drule kind_as_str_plain) (simp add: word_le_nat_alt word_less_nat_alt)

lemma digits_ascii: "c \<in> set (to_radix 10 n) \<Longrightarrow> c < 0x80"
  by (drule digits_plain) (simp add: word_le_nat_alt word_less_nat_alt)

lemma position_build_raw:
  "position (\<lambda>b. b = 0) (build_raw k p)
     = Some (length (kind_as_str k @ SP # to_radix 10 (length p)))"
proof -
  have "build_raw k p = (kind_as_str k @ SP # to_radix 10 (length p)) @ 0 # p"
    by (simp add: build_raw_def Let_def)
  moreover have "\<forall>x \<in> set (kind_as_str k @ SP # to_radix 10 (length p)). x \<noteq> 0"
    using kind_as_str_no_sp(2) [of k] digits_no_nul [of "length p"] by auto
  ultimately show ?thesis by (simp only: position_append_hit)
qed

lemma parse_build_raw [codec_simps]:
  assumes "length p < USIZE_LIMIT"
  shows "parse_raw (build_raw k p) = Inr (k, p)"
proof -
  let ?h = "kind_as_str k @ SP # to_radix 10 (length p)"
  have raw: "build_raw k p = ?h @ 0 # p"
    by (simp add: build_raw_def Let_def)
  have "valid_utf8 ?h"
    using kind_as_str_ascii digits_ascii by (intro valid_utf8_ascii) auto
  moreover have "split_once [SP] ?h = Some (kind_as_str k, to_radix 10 (length p))"
    by (rule split_once_char) simp
  moreover have "parse_uint 10 USIZE_LIMIT (to_radix 10 (length p)) = Some (length p)"
    using assms by (intro parse_uint_to_radix) simp_all
  moreover have "take (length ?h) (build_raw k p) = ?h" "drop (length ?h + 1) (build_raw k p) = p"
    unfolding raw by simp_all
  ultimately show ?thesis
    unfolding parse_raw_def position_build_raw by simp
qed

lemma parse_raw_shape:
  assumes "parse_raw raw = Inr (k, p)"
  obtains size_s where "raw = kind_as_str k @ SP # size_s @ 0 # p"
    and "parse_uint 10 USIZE_LIMIT size_s = Some (length p)"
proof -
  from assms obtain nul kind_s size_s where n: "position (\<lambda>b. b = 0) raw = Some nul"
    and sp: "split_once [SP] (take nul raw) = Some (kind_s, size_s)"
    and k: "kind_parse kind_s = Inr k" and p: "p = drop (nul + 1) raw"
    and sz: "parse_uint 10 USIZE_LIMIT size_s = Some (length p)"
    by (auto simp: parse_raw_def Let_def split: option.splits prod.splits sum.splits if_splits)
  from n obtain y ys where raw: "raw = take nul raw @ y # ys" and "y = 0" and "drop (Suc nul) raw = ys"
    by (rule position_split)
  with split_once_SomeD [OF sp] kind_parse_Inr [OF k] p
  have "raw = kind_as_str k @ SP # size_s @ 0 # p" by simp
  with sz that show thesis by blast
qed

lemma parse_raw_length: "parse_raw raw = Inr (k, p) \<Longrightarrow> length p < USIZE_LIMIT"
  by (auto simp: parse_raw_def parse_uint_def Let_def split: option.splits prod.splits sum.splits if_splits)

section \<open>The contract of a payload format\<close>

text \<open>\<open>enc\<close> and \<open>dec\<close> are a format's encoder and decoder and \<open>wf\<close> the values the program builds. A
  \<open>codec\<close> can read back what it wrote, as the messages of the wire protocol can. The payload of an object
  obeys the second law as well: only the bytes the encoder writes are accepted, so that identifiers and
  signatures bind to one byte form.\<close>

locale codec =
  fixes enc :: "'a \<Rightarrow> bytes" and dec :: "bytes \<Rightarrow> 'a res" and wf :: "'a \<Rightarrow> bool"
  assumes dec_enc: "wf x \<Longrightarrow> dec (enc x) = Inr x"
begin

lemma enc_same_bytes: "wf x \<Longrightarrow> wf y \<Longrightarrow> enc x = enc y \<Longrightarrow> x = y"
  using dec_enc by (metis sum.inject(2))

end

locale payload_codec = codec +
  assumes enc_dec: "dec p = Inr x \<Longrightarrow> enc x = p"
begin

lemma dec_same_value: "dec p = Inr x \<Longrightarrow> dec q = Inr x \<Longrightarrow> p = q"
  using enc_dec by metis

lemma dec_accepts: "dec p = Inr x \<Longrightarrow> dec (enc x) = Inr x"
  using enc_dec by metis

end

end
