(* ===== verification/Tree_Object.thy ===== *)
theory Tree_Object
  imports Objects
begin

text \<open>
  \<open>src/object/tree.rs\<close>: the binary tree format. An entry is \<open>"<mode in octal> <name>\0<32-byte id>"\<close>;
  \<open>tree_encode\<close> sorts the entries by name, \<open>tree_decode\<close> accepts only known modes in canonical octal,
  valid names, strictly ascending, and full identifiers.
\<close>

definition MODE_FILE :: "32 word" where "MODE_FILE = 33188"
definition MODE_EXEC :: "32 word" where "MODE_EXEC = 33261"
definition MODE_SYMLINK :: "32 word" where "MODE_SYMLINK = 40960"
definition MODE_DIR :: "32 word" where "MODE_DIR = 16384"

definition MAX_TREE_ENTRIES :: nat where "MAX_TREE_ENTRIES = 1000000"
definition MAX_NAME_LEN :: nat where "MAX_NAME_LEN = 255"

record tree_entry =
  te_mode :: "32 word"
  te_name :: bytes
  te_hash :: object_id

definition is_known_mode :: "32 word \<Rightarrow> bool" where
  "is_known_mode m \<longleftrightarrow> m = MODE_FILE \<or> m = MODE_EXEC \<or> m = MODE_SYMLINK \<or> m = MODE_DIR"

fun check_name_bytes :: "bytes \<Rightarrow> unit res" where
  "check_name_bytes [] = Inr ()"
| "check_name_bytes (b # bs) =
     (if b = SLASH then Inl (EObject ''tree: entry name contains / (must be a single path component)'')
      else if b = BSLASH then Inl (EObject ''tree: entry name contains backslash'')
      else if b < 0x20 \<or> b = 0x7f then Inl (EObject ''tree: entry name contains control byte'')
      else check_name_bytes bs)"

definition validate_entry_name :: "bytes \<Rightarrow> unit res" where
  "validate_entry_name name =
     (if name = [] then Inl (EObject ''tree: empty entry name'')
      else if length name > MAX_NAME_LEN then Inl (EObject ''tree: entry name length exceeds 255'')
      else if name = ascii ''.'' \<or> name = ascii ''..'' then Inl (EObject ''tree: entry name is . or ..'')
      else if length name = 4 \<and> eq_ignore_case name (ascii ''.gyt'')
           then Inl (EObject ''tree: entry name is .gyt'')
      else check_name_bytes name)"

definition encode_entry :: "tree_entry \<Rightarrow> bytes" where
  "encode_entry e =
     to_radix 8 (unat (te_mode e)) @ [SP] @ te_name e @ [0] @ id_bytes (te_hash e)"

definition tree_encode :: "tree_entry list \<Rightarrow> bytes" where
  "tree_encode entries = concat (map encode_entry (sort_key te_name entries))"

function tree_decode_loop :: "bytes \<Rightarrow> nat \<Rightarrow> bytes option \<Rightarrow> tree_entry list res" where
  "tree_decode_loop rest n prev =
     (if rest = [] then Inr []
      else if n \<ge> MAX_TREE_ENTRIES then Inl (EObject ''tree: entry count exceeds 1000000'')
      else (case position (\<lambda>b. b = SP) rest of
          None \<Rightarrow> Inl (EObject ''tree: missing space after mode'')
        | Some sp \<Rightarrow>
          (let mode_s = take sp rest in
           if \<not> valid_utf8 mode_s then Inl (EObject ''tree: non-utf8 mode'')
           else (case parse_uint 8 U32_LIMIT mode_s of
               None \<Rightarrow> Inl (EObject ''tree: bad mode'')
             | Some mode \<Rightarrow>
               if mode_s \<noteq> to_radix 8 mode then Inl (EObject ''tree: non-canonical mode token'')
               else if \<not> is_known_mode (word_of_nat mode)
                    then Inl (EObject ''tree: mode is not in the gyt whitelist'')
               else (let after_mode = drop (sp + 1) rest in
                 (case position (\<lambda>b. b = 0) after_mode of
                    None \<Rightarrow> Inl (EObject ''tree: missing NUL after name'')
                  | Some nul \<Rightarrow>
                    (let name = take nul after_mode in
                     (case validate_entry_name name of
                        Inl e \<Rightarrow> Inl e
                      | Inr u \<Rightarrow>
                        if (case prev of None \<Rightarrow> False | Some p \<Rightarrow> name \<le> p)
                        then Inl (EObject ''tree: entries not strictly ascending by name (unsorted or duplicate)'')
                        else (let after_name = drop (nul + 1) after_mode in
                          if length after_name < HASH_LEN then Inl (EObject ''tree: truncated hash'')
                          else (case from_bytes (take HASH_LEN after_name) of
                              Inl e \<Rightarrow> Inl e
                            | Inr h \<Rightarrow>
                              (case tree_decode_loop (drop HASH_LEN after_name) (n + 1) (Some name) of
                                 Inl e \<Rightarrow> Inl e
                               | Inr es \<Rightarrow>
                                 Inr (\<lparr>te_mode = word_of_nat mode, te_name = name, te_hash = h\<rparr> # es))))))))))))"
  by pat_completeness auto
termination
  by (relation "measure (\<lambda>(rest, n, prev). length rest)") auto

declare tree_decode_loop.simps [simp del]

definition tree_decode :: "bytes \<Rightarrow> tree_entry list res" where
  "tree_decode payload = tree_decode_loop payload 0 None"

section \<open>Names and entries\<close>

definition wf_entry :: "tree_entry \<Rightarrow> bool" where
  "wf_entry e \<longleftrightarrow> is_known_mode (te_mode e) \<and> validate_entry_name (te_name e) = Inr () \<and> wf_id (te_hash e)"

definition ascending :: "bytes option \<Rightarrow> tree_entry list \<Rightarrow> bool" where
  "ascending prev es \<longleftrightarrow>
     sorted_wrt (<) (map te_name es)
     \<and> (case prev of None \<Rightarrow> True | Some p \<Rightarrow> \<forall>e \<in> set es. p < te_name e)"

definition wf_tree :: "tree_entry list \<Rightarrow> bool" where
  "wf_tree es \<longleftrightarrow> list_all wf_entry es \<and> ascending None es \<and> length es \<le> MAX_TREE_ENTRIES"

lemma check_name_bytes_Inr:
  "check_name_bytes bs = Inr () \<longleftrightarrow>
     (\<forall>b \<in> set bs. b \<noteq> SLASH \<and> b \<noteq> BSLASH \<and> 0x20 \<le> b \<and> b \<noteq> 0x7f)"
proof (induction bs)
  case (Cons b bs)
  then show ?case by (cases "b = SLASH"; cases "b = BSLASH"; cases "b < 0x20"; cases "b = 0x7f") (simp_all add: not_le leI)
qed simp

lemma validate_entry_name_Inr:
  "validate_entry_name name = Inr () \<longleftrightarrow>
     name \<noteq> [] \<and> length name \<le> 255 \<and> name \<noteq> ascii ''.'' \<and> name \<noteq> ascii ''..''
     \<and> \<not> eq_ignore_case name (ascii ''.gyt'')
     \<and> (\<forall>b \<in> set name. b \<noteq> SLASH \<and> b \<noteq> BSLASH \<and> 0x20 \<le> b \<and> b \<noteq> 0x7f)"
proof -
  have "eq_ignore_case name (ascii ''.gyt'') \<Longrightarrow> length name = 4"
    by (drule eq_ignore_case_def [THEN iffD1], drule map_eq_imp_length_eq) simp
  then show ?thesis
    by (auto simp: validate_entry_name_def MAX_NAME_LEN_def check_name_bytes_Inr)
qed

lemma octal_plain: "c \<in> set (to_radix 8 n) \<Longrightarrow> 48 \<le> c \<and> c \<le> 57"
  using to_radix_digits [of 8 n] by simp

lemma octal_no_sp: "SP \<notin> set (to_radix 8 n)"
  using octal_plain [of SP n] by auto

lemma octal_utf8: "valid_utf8 (to_radix 8 n)"
proof (rule valid_utf8_ascii, rule ballI)
  fix c assume "c \<in> set (to_radix 8 n)"
  then show "c < 0x80" by (drule_tac octal_plain) (simp add: word_le_nat_alt word_less_nat_alt)
qed

lemma name_no_nul: "validate_entry_name name = Inr () \<Longrightarrow> 0 \<notin> set name"
proof
  assume "validate_entry_name name = Inr ()" "0 \<in> set name"
  then have "0x20 \<le> (0 :: byte)" unfolding validate_entry_name_Inr by blast
  then show False by simp
qed

section \<open>Decoding what was encoded\<close>

lemma decode_one:
  assumes e: "wf_entry e" and n: "n < MAX_TREE_ENTRIES"
    and prev: "case prev of None \<Rightarrow> True | Some p \<Rightarrow> p < te_name e"
  shows "tree_decode_loop (encode_entry e @ rest) n prev =
     (case tree_decode_loop rest (n + 1) (Some (te_name e)) of Inl x \<Rightarrow> Inl x | Inr es \<Rightarrow> Inr (e # es))"
proof -
  let ?o = "to_radix 8 (unat (te_mode e))"
  let ?t = "te_name e @ 0 # id_bytes (te_hash e) @ rest"
  from e have m: "is_known_mode (te_mode e)" and v: "validate_entry_name (te_name e) = Inr ()"
    and h: "length (id_bytes (te_hash e)) = HASH_LEN"
    by (simp_all add: wf_entry_def wf_id_def)
  have enc: "encode_entry e @ rest = ?o @ SP # ?t"
    by (simp add: encode_entry_def)
  have p1: "position (\<lambda>b. b = SP) (?o @ SP # ?t) = Some (length ?o)"
    using octal_no_sp by (intro position_append_hit) auto
  have p2: "position (\<lambda>b. b = 0) ?t = Some (length (te_name e))"
    using name_no_nul [OF v] by (intro position_append_hit) auto
  have u: "parse_uint 8 U32_LIMIT ?o = Some (unat (te_mode e))"
    by (intro parse_uint_to_radix unat_u32) simp_all
  have "\<not> (case prev of None \<Rightarrow> False | Some p \<Rightarrow> te_name e \<le> p)"
    using prev by (auto split: option.splits)
  moreover have "from_bytes (id_bytes (te_hash e)) = Inr (te_hash e)"
    using h by (simp add: from_bytes_def)
  ultimately show ?thesis
    unfolding enc using n m v h
    by (subst tree_decode_loop.simps)
      (simp add: p1 p2 u octal_utf8 Let_def not_less split: sum.splits)
qed

lemma decode_sorted:
  assumes "list_all wf_entry es" "ascending prev es" "n + length es \<le> MAX_TREE_ENTRIES"
  shows "tree_decode_loop (concat (map encode_entry es)) n prev = Inr es"
  using assms
proof (induction es arbitrary: n prev)
  case Nil
  then show ?case by (simp add: tree_decode_loop.simps)
next
  case (Cons e es)
  have "tree_decode_loop (concat (map encode_entry es)) (n + 1) (Some (te_name e)) = Inr es"
    using Cons.prems by (intro Cons.IH) (auto simp: ascending_def)
  moreover have "case prev of None \<Rightarrow> True | Some p \<Rightarrow> p < te_name e"
    using Cons.prems(2) by (auto simp: ascending_def split: option.splits)
  ultimately show ?case
    using Cons.prems by (simp add: decode_one)
qed

lemma ascending_sort_id: "ascending None es \<Longrightarrow> sort_key te_name es = es"
  by (simp add: ascending_def sort_key_id_if_sorted strict_sorted_imp_sorted)

section \<open>Encoding what was decoded\<close>

lemma decode_shape:
  assumes "tree_decode_loop rest n prev = Inr es" and "rest \<noteq> []"
  obtains e es' rest' where "es = e # es'" "wf_entry e" "rest = encode_entry e @ rest'"
    "n < MAX_TREE_ENTRIES" "case prev of None \<Rightarrow> True | Some p \<Rightarrow> p < te_name e"
    "tree_decode_loop rest' (n + 1) (Some (te_name e)) = Inr es'"
proof -
  from assms obtain sp mode nul h es' where n: "n < MAX_TREE_ENTRIES"
    and sp: "position (\<lambda>b. b = SP) rest = Some sp"
    and md: "parse_uint 8 U32_LIMIT (take sp rest) = Some mode" "take sp rest = to_radix 8 mode"
      "is_known_mode (word_of_nat mode)"
    and nul: "position (\<lambda>b. b = 0) (drop (sp + 1) rest) = Some nul"
    and nm: "validate_entry_name (take nul (drop (sp + 1) rest)) = Inr ()"
      "case prev of None \<Rightarrow> True | Some p \<Rightarrow> p < take nul (drop (sp + 1) rest)"
    and hl: "HASH_LEN \<le> length (drop (nul + 1) (drop (sp + 1) rest))"
    and h: "from_bytes (take HASH_LEN (drop (nul + 1) (drop (sp + 1) rest))) = Inr h"
    and rec: "tree_decode_loop (drop HASH_LEN (drop (nul + 1) (drop (sp + 1) rest))) (n + 1)
        (Some (take nul (drop (sp + 1) rest))) = Inr es'"
    and es: "es = \<lparr>te_mode = word_of_nat mode, te_name = take nul (drop (sp + 1) rest), te_hash = h\<rparr> # es'"
    by (subst (asm) tree_decode_loop.simps)
      (auto simp: Let_def not_less not_le split: option.splits sum.splits if_splits)
  define r1 where "r1 = drop (sp + 1) rest"
  define name where "name = take nul r1"
  define r2 where "r2 = drop (nul + 1) r1"
  note folds = r1_def [symmetric] name_def [symmetric] r2_def [symmetric]
  have "mode < U32_LIMIT"
    using md(1) by (auto simp: parse_uint_def Let_def split: option.splits if_splits)
  then have m: "unat (word_of_nat mode :: 32 word) = mode"
    by (simp add: U32_LIMIT_def unat_of_nat take_bit_nat_eq_self)
  have 1: "rest = to_radix 8 mode @ SP # r1"
    using position_eq_split [OF sp] unfolding md(2) folds .
  have 2: "r1 = name @ 0 # r2"
    using position_eq_split [OF nul] unfolding folds .
  have hb: "h = ObjectId (take HASH_LEN r2)" "wf_id h"
    using h hl unfolding folds by (auto simp: from_bytes_def wf_id_def split: if_splits)
  let ?e = "\<lparr>te_mode = word_of_nat mode, te_name = name, te_hash = h\<rparr>"
  have "rest = encode_entry ?e @ drop HASH_LEN r2"
    by (simp add: 1 2 hb(1) m encode_entry_def)
  moreover have "wf_entry ?e"
    using md nm hb unfolding folds by (simp add: wf_entry_def)
  ultimately show thesis
    using that [of ?e es' "drop HASH_LEN r2"] es nm rec n unfolding folds
    by (cases prev) simp_all
qed

lemma decode_canonical:
  assumes "tree_decode_loop rest n prev = Inr es"
  shows "rest = concat (map encode_entry es) \<and> list_all wf_entry es \<and> ascending prev es
    \<and> n + length es \<le> max n MAX_TREE_ENTRIES"
  using assms
proof (induction es arbitrary: rest n prev)
  case Nil
  then have "rest = []" using decode_shape [of rest n prev "[]"] by blast
  then show ?case by (simp add: ascending_def split: option.splits)
next
  case (Cons e es)
  then have "rest \<noteq> []" by (auto simp: tree_decode_loop.simps)
  from decode_shape [OF Cons.prems this] obtain rest' where e: "wf_entry e"
    "rest = encode_entry e @ rest'" "n < MAX_TREE_ENTRIES"
    "case prev of None \<Rightarrow> True | Some p \<Rightarrow> p < te_name e"
    "tree_decode_loop rest' (n + 1) (Some (te_name e)) = Inr es"
    by (metis list.inject)
  with Cons.IH [OF e(5)] show ?case
    by (auto simp: ascending_def split: option.splits intro: order_less_trans)
qed

lemma wf_tree_encode: "wf_tree es \<Longrightarrow> tree_encode es = concat (map encode_entry es)"
  by (simp add: wf_tree_def tree_encode_def ascending_sort_id)

interpretation tree: payload_codec tree_encode tree_decode wf_tree
proof unfold_locales
  fix es assume "wf_tree es"
  then show "tree_decode (tree_encode es) = Inr es"
    by (simp add: wf_tree_encode tree_decode_def wf_tree_def decode_sorted)
next
  fix p es assume "tree_decode p = Inr es"
  then have "p = concat (map encode_entry es)" "ascending None es"
    using decode_canonical [of p 0 None es] by (simp_all add: tree_decode_def)
  then show "tree_encode es = p" by (simp add: tree_encode_def ascending_sort_id)
qed

lemma tree_decode_wf: "tree_decode p = Inr es \<Longrightarrow> wf_tree es"
  using decode_canonical [of p 0 None es] by (simp add: tree_decode_def wf_tree_def)

section \<open>Properties\<close>

definition sample_entry :: "string \<Rightarrow> tree_entry" where
  "sample_entry nm = \<lparr>te_mode = MODE_FILE, te_name = ascii nm, te_hash = ObjectId (replicate 32 7)\<rparr>"

lemma wf_sample_entry:
  "validate_entry_name (ascii nm) = Inr () \<Longrightarrow> wf_entry (sample_entry nm)"
  by (simp add: sample_entry_def wf_entry_def is_known_mode_def wf_id_def HASH_LEN_def)

text \<open>C2: the tree decoder accepts a payload exactly when it is the encoding of a well-formed tree
  (known modes, valid names in strictly ascending order, full identifiers, at most a million
  entries), and returns that tree. So a tree has one byte form and one identifier.\<close>

theorem tree_decode_iff: "tree_decode p = Inr es \<longleftrightarrow> wf_tree es \<and> p = tree_encode es"
  using tree.dec_enc tree.enc_dec tree_decode_wf by metis

text \<open>Encoding sorts. Whatever the order in which the entries of a directory are collected, and
  provided their names are distinct and valid, decoding the encoded tree returns the same entries
  sorted by name.\<close>

theorem tree_round_trip_unsorted:
  assumes "list_all wf_entry es" and "distinct (map te_name es)" and "length es \<le> MAX_TREE_ENTRIES"
  shows "tree_decode (tree_encode es) = Inr (sort_key te_name es)"
proof -
  let ?s = "sort_key te_name es"
  have "sorted_wrt (<) (map te_name ?s)"
    using assms(2) by (simp add: strict_sorted_iff distinct_map inj_on_def)
  then have "wf_tree ?s"
    using assms by (simp add: wf_tree_def ascending_def list_all_iff)
  moreover have "tree_encode es = tree_encode ?s"
    using \<open>wf_tree ?s\<close> by (simp add: tree_encode_def wf_tree_def ascending_sort_id)
  ultimately show ?thesis by (simp add: tree.dec_enc)
qed

theorem tree_round_trip_unsorted_witness:
  "tree_decode (tree_encode [sample_entry ''b'', sample_entry ''a'']) =
     Inr [sample_entry ''a'', sample_entry ''b'']"
proof -
  let ?es = "[sample_entry ''b'', sample_entry ''a'']"
  have "list_all wf_entry ?es"
    by (auto intro!: wf_sample_entry simp: validate_entry_name_Inr eq_ignore_case_def)
  moreover have "distinct (map te_name ?es)" "length ?es \<le> MAX_TREE_ENTRIES"
    by (simp_all add: sample_entry_def MAX_TREE_ENTRIES_def)
  ultimately have "tree_decode (tree_encode ?es) = Inr (sort_key te_name ?es)"
    by (rule tree_round_trip_unsorted)
  then show ?thesis by (simp add: sample_entry_def)
qed

text \<open>C3: no decoded tree can name a path outside its directory or the repository's metadata: every
  entry name is one component, neither \<open>.\<close> nor \<open>..\<close> nor \<open>.gyt\<close> in any letter case, with no
  separator and no control byte.\<close>

theorem tree_names_confined:
  assumes "tree_decode p = Inr es" and "e \<in> set es"
  shows "te_name e \<noteq> [] \<and> te_name e \<noteq> ascii ''.'' \<and> te_name e \<noteq> ascii ''..''
    \<and> \<not> eq_ignore_case (te_name e) (ascii ''.gyt'')
    \<and> path_components (te_name e) = [Normal (te_name e)]
    \<and> (\<forall>b \<in> set (te_name e). b \<noteq> SLASH \<and> b \<noteq> BSLASH \<and> 0x20 \<le> b \<and> b \<noteq> 0x7f)"
proof -
  have v: "validate_entry_name (te_name e) = Inr ()"
    using tree_decode_wf [OF assms(1)] assms(2) by (auto simp: wf_tree_def list_all_iff wf_entry_def)
  then have "SLASH \<notin> set (te_name e)" and "plain_piece (te_name e)"
    by (auto simp: validate_entry_name_Inr plain_piece_def)
  then have "path_components (te_name e) = [Normal (te_name e)]"
    by (simp add: path_components_plain split_char_piece)
  with v show ?thesis by (simp add: validate_entry_name_Inr)
qed

theorem tree_names_confined_witness:
  "tree_decode (tree_encode [sample_entry ''a'']) = Inr [sample_entry ''a'']
   \<and> path_components (ascii ''a'') = [Normal (ascii ''a'')]"
proof -
  have "wf_tree [sample_entry ''a'']"
    by (auto intro!: wf_sample_entry
        simp: validate_entry_name_Inr eq_ignore_case_def wf_tree_def ascending_def MAX_TREE_ENTRIES_def)
  then have d: "tree_decode (tree_encode [sample_entry ''a'']) = Inr [sample_entry ''a'']"
    by (rule tree.dec_enc)
  have "sample_entry ''a'' \<in> set [sample_entry ''a'']" by simp
  from d tree_names_confined [OF d this] show ?thesis by (simp add: sample_entry_def)
qed

end
