(* ===== verification/Commit_Object.thy ===== *)
theory Commit_Object
  imports Objects
begin

text \<open>
  \<open>src/object/commit.rs\<close>: the textual commit format. \<open>commit_line\<close> is one turn of the decoder's
  loop over the header lines, with the mutable locals of the function as the record
  \<open>commit_parse\<close>; \<open>commit_decode\<close> ends with the source's re-encoding check.
\<close>

record commit =
  c_tree :: object_id
  c_parents :: "object_id list"
  c_authors :: "bytes list"
  c_committer :: bytes
  c_ai_assists :: "bytes list"
  c_reviewers :: "bytes list"
  c_signature :: "bytes option"
  c_message :: bytes

definition primary_author :: "commit \<Rightarrow> bytes" where
  "primary_author c = (case c_authors c of [] \<Rightarrow> [] | a # _ \<Rightarrow> a)"

definition commit_encode :: "commit \<Rightarrow> bytes" where
  "commit_encode c =
     ascii ''tree '' @ to_hex (c_tree c) @ [NL]
     @ concat (map (\<lambda>p. ascii ''parent '' @ to_hex p @ [NL]) (c_parents c))
     @ concat (map (\<lambda>a. ascii ''author '' @ a @ [NL]) (c_authors c))
     @ ascii ''committer '' @ c_committer c @ [NL]
     @ concat (map (\<lambda>ai. ascii ''ai '' @ ai @ [NL]) (c_ai_assists c))
     @ concat (map (\<lambda>r. ascii ''reviewer '' @ r @ [NL]) (c_reviewers c))
     @ (case c_signature c of None \<Rightarrow> [] | Some sig \<Rightarrow> ascii ''signature '' @ sig @ [NL])
     @ [NL] @ c_message c"

datatype commit_section =
  SecTree | SecParent | SecAuthor | SecCommitter | SecAi | SecReviewer | SecSignature

definition section_rank :: "commit_section \<Rightarrow> nat" where
  "section_rank s =
     (case s of SecTree \<Rightarrow> 0 | SecParent \<Rightarrow> 1 | SecAuthor \<Rightarrow> 2 | SecCommitter \<Rightarrow> 3
      | SecAi \<Rightarrow> 4 | SecReviewer \<Rightarrow> 5 | SecSignature \<Rightarrow> 6)"

definition advance_section :: "commit_section \<Rightarrow> commit_section \<Rightarrow> commit_section res" where
  "advance_section cur nxt =
     (if section_rank nxt < section_rank cur
      then Inl (EObject ''commit: header out of canonical order'') else Inr nxt)"

record commit_parse =
  cp_section :: commit_section
  cp_tree :: "object_id option"
  cp_parents :: "object_id list"
  cp_authors :: "bytes list"
  cp_committer :: "bytes option"
  cp_ai :: "bytes list"
  cp_reviewers :: "bytes list"
  cp_signature :: "bytes option"

definition commit_parse_init :: commit_parse where
  "commit_parse_init =
     \<lparr>cp_section = SecTree, cp_tree = None, cp_parents = [], cp_authors = [], cp_committer = None,
      cp_ai = [], cp_reviewers = [], cp_signature = None\<rparr>"

definition commit_line :: "commit_parse \<Rightarrow> bytes \<Rightarrow> commit_parse res" where
  "commit_line st line =
     (case strip_prefix (ascii ''tree '') line of
        Some rest \<Rightarrow>
          if cp_tree st \<noteq> None then Inl (EObject ''commit: multiple tree lines'')
          else (case advance_section (cp_section st) SecTree of Inl e \<Rightarrow> Inl e
            | Inr s \<Rightarrow>
              if length rest \<noteq> HEX_LEN then Inl (EObject ''commit: bad tree hash length'')
              else (case from_hex rest of Inl e \<Rightarrow> Inl e
                | Inr t \<Rightarrow> Inr (st\<lparr>cp_section := s, cp_tree := Some t\<rparr>)))
      | None \<Rightarrow>
     (case strip_prefix (ascii ''parent '') line of
        Some rest \<Rightarrow>
          (case advance_section (cp_section st) SecParent of Inl e \<Rightarrow> Inl e
           | Inr s \<Rightarrow> (case from_hex rest of Inl e \<Rightarrow> Inl e
             | Inr p \<Rightarrow> Inr (st\<lparr>cp_section := s, cp_parents := cp_parents st @ [p]\<rparr>)))
      | None \<Rightarrow>
     (case strip_prefix (ascii ''author '') line of
        Some rest \<Rightarrow>
          (case advance_section (cp_section st) SecAuthor of Inl e \<Rightarrow> Inl e
           | Inr s \<Rightarrow> Inr (st\<lparr>cp_section := s, cp_authors := cp_authors st @ [rest]\<rparr>))
      | None \<Rightarrow>
     (case strip_prefix (ascii ''committer '') line of
        Some rest \<Rightarrow>
          if cp_committer st \<noteq> None then Inl (EObject ''commit: multiple committer lines'')
          else (case advance_section (cp_section st) SecCommitter of Inl e \<Rightarrow> Inl e
            | Inr s \<Rightarrow> Inr (st\<lparr>cp_section := s, cp_committer := Some rest\<rparr>))
      | None \<Rightarrow>
     (case strip_prefix (ascii ''ai '') line of
        Some rest \<Rightarrow>
          (case advance_section (cp_section st) SecAi of Inl e \<Rightarrow> Inl e
           | Inr s \<Rightarrow> Inr (st\<lparr>cp_section := s, cp_ai := cp_ai st @ [rest]\<rparr>))
      | None \<Rightarrow>
     (case strip_prefix (ascii ''reviewer '') line of
        Some rest \<Rightarrow>
          (case advance_section (cp_section st) SecReviewer of Inl e \<Rightarrow> Inl e
           | Inr s \<Rightarrow> Inr (st\<lparr>cp_section := s, cp_reviewers := cp_reviewers st @ [rest]\<rparr>))
      | None \<Rightarrow>
     (case strip_prefix (ascii ''signature '') line of
        Some rest \<Rightarrow>
          if cp_signature st \<noteq> None then Inl (EObject ''commit: multiple signature lines'')
          else (case advance_section (cp_section st) SecSignature of Inl e \<Rightarrow> Inl e
            | Inr s \<Rightarrow> Inr (st\<lparr>cp_section := s, cp_signature := Some rest\<rparr>))
      | None \<Rightarrow> Inl (EObject ''commit: unknown line''))))))))"

fun commit_lines :: "commit_parse \<Rightarrow> bytes list \<Rightarrow> commit_parse res" where
  "commit_lines st [] = Inr st"
| "commit_lines st (l # ls) =
     (case commit_line st l of Inl e \<Rightarrow> Inl e | Inr st' \<Rightarrow> commit_lines st' ls)"

definition commit_finish :: "commit_parse \<Rightarrow> bytes \<Rightarrow> commit res" where
  "commit_finish st message =
     (if cp_authors st = [] then Inl (EObject ''commit: missing author'')
      else (case cp_tree st of None \<Rightarrow> Inl (EObject ''commit: missing tree'')
        | Some t \<Rightarrow> (case cp_committer st of None \<Rightarrow> Inl (EObject ''commit: missing committer'')
          | Some cm \<Rightarrow> Inr \<lparr>c_tree = t, c_parents = cp_parents st, c_authors = cp_authors st,
              c_committer = cm, c_ai_assists = cp_ai st, c_reviewers = cp_reviewers st,
              c_signature = cp_signature st, c_message = message\<rparr>)))"

definition commit_decode :: "bytes \<Rightarrow> commit res" where
  "commit_decode payload =
     (if \<not> valid_utf8 payload then Inl (EObject ''commit: non-utf8'')
      else (case split_once [NL, NL] payload of
          None \<Rightarrow> Inl (EObject ''commit: missing blank line before message'')
        | Some (header, message) \<Rightarrow>
          (case commit_lines commit_parse_init (str_lines header) of Inl e \<Rightarrow> Inl e
           | Inr st \<Rightarrow> (case commit_finish st message of Inl e \<Rightarrow> Inl e
             | Inr c \<Rightarrow>
               if commit_encode c \<noteq> payload
               then Inl (EObject ''commit: non-canonical encoding (re-encode differs from input)'')
               else Inr c))))"

section \<open>The header lines of an encoded commit\<close>

definition commit_header :: "commit \<Rightarrow> bytes list" where
  "commit_header c =
     (ascii ''tree '' @ to_hex (c_tree c))
     # map (\<lambda>p. ascii ''parent '' @ to_hex p) (c_parents c)
     @ map (\<lambda>a. ascii ''author '' @ a) (c_authors c)
     @ (ascii ''committer '' @ c_committer c)
     # map (\<lambda>ai. ascii ''ai '' @ ai) (c_ai_assists c)
     @ map (\<lambda>r. ascii ''reviewer '' @ r) (c_reviewers c)
     @ (case c_signature c of None \<Rightarrow> [] | Some sig \<Rightarrow> [ascii ''signature '' @ sig])"

lemma commit_encode_header: "commit_encode c = header_text (commit_header c) (c_message c)"
  by (simp add: commit_encode_def commit_header_def header_text_def comp_def split: option.split)

text \<open>The commits the program builds: full identifiers, at least one author, and header values that
  are single lines of text (the message is any text).\<close>

definition wf_commit :: "commit \<Rightarrow> bool" where
  "wf_commit c \<longleftrightarrow>
     wf_id (c_tree c) \<and> list_all wf_id (c_parents c)
     \<and> c_authors c \<noteq> [] \<and> list_all field_ok (c_authors c) \<and> field_ok (c_committer c)
     \<and> list_all field_ok (c_ai_assists c) \<and> list_all field_ok (c_reviewers c)
     \<and> (case c_signature c of None \<Rightarrow> True | Some s \<Rightarrow> field_ok s) \<and> valid_utf8 (c_message c)"

lemma commit_keys_ok:
  "key_ok (ascii ''tree '')" "key_ok (ascii ''parent '')" "key_ok (ascii ''author '')"
  "key_ok (ascii ''committer '')" "key_ok (ascii ''ai '')" "key_ok (ascii ''reviewer '')"
  "key_ok (ascii ''signature '')"
  by (simp_all add: key_ok_def)

lemma commit_header_ok:
  assumes "wf_commit c"
  shows "\<forall>l \<in> set (commit_header c). line_ok l \<and> valid_utf8 l"
  using assms
  by (auto simp: commit_header_def wf_commit_def list_all_iff key_ok_line commit_keys_ok
      simp del: ascii_Cons split: option.splits)

section \<open>Running the decoder over them\<close>

lemma commit_line_simps:
  "commit_line st (ascii ''tree '' @ v) =
     (if cp_tree st \<noteq> None then Inl (EObject ''commit: multiple tree lines'')
      else (case advance_section (cp_section st) SecTree of Inl e \<Rightarrow> Inl e
        | Inr s \<Rightarrow> if length v \<noteq> HEX_LEN then Inl (EObject ''commit: bad tree hash length'')
          else (case from_hex v of Inl e \<Rightarrow> Inl e
            | Inr t \<Rightarrow> Inr (st\<lparr>cp_section := s, cp_tree := Some t\<rparr>))))"
  "commit_line st (ascii ''parent '' @ v) =
     (case advance_section (cp_section st) SecParent of Inl e \<Rightarrow> Inl e
      | Inr s \<Rightarrow> (case from_hex v of Inl e \<Rightarrow> Inl e
        | Inr p \<Rightarrow> Inr (st\<lparr>cp_section := s, cp_parents := cp_parents st @ [p]\<rparr>)))"
  "commit_line st (ascii ''author '' @ v) =
     (case advance_section (cp_section st) SecAuthor of Inl e \<Rightarrow> Inl e
      | Inr s \<Rightarrow> Inr (st\<lparr>cp_section := s, cp_authors := cp_authors st @ [v]\<rparr>))"
  "commit_line st (ascii ''committer '' @ v) =
     (if cp_committer st \<noteq> None then Inl (EObject ''commit: multiple committer lines'')
      else (case advance_section (cp_section st) SecCommitter of Inl e \<Rightarrow> Inl e
        | Inr s \<Rightarrow> Inr (st\<lparr>cp_section := s, cp_committer := Some v\<rparr>)))"
  "commit_line st (ascii ''ai '' @ v) =
     (case advance_section (cp_section st) SecAi of Inl e \<Rightarrow> Inl e
      | Inr s \<Rightarrow> Inr (st\<lparr>cp_section := s, cp_ai := cp_ai st @ [v]\<rparr>))"
  "commit_line st (ascii ''reviewer '' @ v) =
     (case advance_section (cp_section st) SecReviewer of Inl e \<Rightarrow> Inl e
      | Inr s \<Rightarrow> Inr (st\<lparr>cp_section := s, cp_reviewers := cp_reviewers st @ [v]\<rparr>))"
  "commit_line st (ascii ''signature '' @ v) =
     (if cp_signature st \<noteq> None then Inl (EObject ''commit: multiple signature lines'')
      else (case advance_section (cp_section st) SecSignature of Inl e \<Rightarrow> Inl e
        | Inr s \<Rightarrow> Inr (st\<lparr>cp_section := s, cp_signature := Some v\<rparr>)))"
  unfolding commit_line_def by (simp_all add: strip_prefix_def)

text \<open>A run of lines of one repeatable kind appends its values and leaves the decoder in that
  section, unless the run is empty.\<close>

lemma run_parents:
  assumes "section_rank (cp_section st) \<le> 1" "list_all wf_id ps"
  shows "commit_lines st (map (\<lambda>p. ascii ''parent '' @ to_hex p) ps @ ls) =
    commit_lines (st\<lparr>cp_section := if ps = [] then cp_section st else SecParent,
      cp_parents := cp_parents st @ ps\<rparr>) ls"
  using assms
  by (induction ps arbitrary: st)
    (simp_all add: commit_line_simps advance_section_def section_rank_def del: ascii_Cons)

lemma run_authors:
  assumes "section_rank (cp_section st) \<le> 2"
  shows "commit_lines st (map (\<lambda>a. ascii ''author '' @ a) vs @ ls) =
    commit_lines (st\<lparr>cp_section := if vs = [] then cp_section st else SecAuthor,
      cp_authors := cp_authors st @ vs\<rparr>) ls"
  using assms
  by (induction vs arbitrary: st)
    (simp_all add: commit_line_simps advance_section_def section_rank_def del: ascii_Cons)

lemma run_ai:
  assumes "section_rank (cp_section st) \<le> 4"
  shows "commit_lines st (map (\<lambda>a. ascii ''ai '' @ a) vs @ ls) =
    commit_lines (st\<lparr>cp_section := if vs = [] then cp_section st else SecAi,
      cp_ai := cp_ai st @ vs\<rparr>) ls"
  using assms
  by (induction vs arbitrary: st)
    (simp_all add: commit_line_simps advance_section_def section_rank_def del: ascii_Cons)

lemma run_reviewers:
  assumes "section_rank (cp_section st) \<le> 5"
  shows "commit_lines st (map (\<lambda>a. ascii ''reviewer '' @ a) vs @ ls) =
    commit_lines (st\<lparr>cp_section := if vs = [] then cp_section st else SecReviewer,
      cp_reviewers := cp_reviewers st @ vs\<rparr>) ls"
  using assms
  by (induction vs arbitrary: st)
    (simp_all add: commit_line_simps advance_section_def section_rank_def del: ascii_Cons)

lemmas run_reviewers_end = run_reviewers [where ls = "[]", unfolded append_Nil2 commit_lines.simps]

lemma commit_lines_header:
  assumes "wf_commit c"
  shows "(case commit_lines commit_parse_init (commit_header c) of Inl e \<Rightarrow> Inl e
    | Inr st \<Rightarrow> commit_finish st (c_message c)) = Inr c"
proof -
  from assms have "length (to_hex (c_tree c)) = HEX_LEN"
    by (simp add: wf_commit_def wf_id_def HEX_LEN_def)
  with assms show ?thesis
    by (cases "c_signature c")
      (simp_all add: commit_header_def commit_parse_init_def wf_commit_def commit_line_simps
        run_parents run_authors run_ai run_reviewers run_reviewers_end advance_section_def section_rank_def
        commit_finish_def del: ascii_Cons length_to_hex)
qed

interpretation commit: payload_codec commit_encode commit_decode wf_commit
proof unfold_locales
  fix c assume wf: "wf_commit c"
  note hdr = commit_header_ok [OF wf]
  have "valid_utf8 (commit_encode c)"
    using wf hdr unfolding commit_encode_header
    by (intro valid_header_text) (simp_all add: wf_commit_def)
  moreover have "split_once [NL, NL] (commit_encode c) = Some (join_char NL (commit_header c), c_message c)"
    using hdr unfolding commit_encode_header
    by (intro split_header_text) (auto simp: line_ok_def commit_header_def)
  moreover have "str_lines (join_char NL (commit_header c)) = commit_header c"
    using hdr by (intro str_lines_join) simp
  ultimately show "commit_decode (commit_encode c) = Inr c"
    using commit_lines_header [OF wf] by (auto simp: commit_decode_def split: sum.splits)
next
  fix p c assume "commit_decode p = Inr c"
  then show "commit_encode c = p"
    by (auto simp: commit_decode_def split: if_splits option.splits prod.splits sum.splits)
qed

definition commit_ids :: "commit_parse \<Rightarrow> bool" where
  "commit_ids st \<longleftrightarrow>
     (case cp_tree st of None \<Rightarrow> True | Some t \<Rightarrow> wf_id t) \<and> list_all wf_id (cp_parents st)"

lemma commit_line_ids: "commit_ids st \<Longrightarrow> commit_line st l = Inr st' \<Longrightarrow> commit_ids st'"
  by (auto simp: commit_line_def commit_ids_def dest: from_hex_wf
      split: option.splits sum.splits if_splits simp del: ascii_Cons)

lemma commit_lines_ids: "commit_ids st \<Longrightarrow> commit_lines st ls = Inr st' \<Longrightarrow> commit_ids st'"
  by (induction ls arbitrary: st) (auto split: sum.splits dest: commit_line_ids)

section \<open>Properties\<close>

text \<open>C4: a commit is read back as it was written. For every commit the program builds (full
  identifiers, at least one author, single-line header values), decoding its encoding gives the
  commit itself, with any number of parents, authors, assistants and reviewers, with or without a
  signature, and with any message, blank lines included.\<close>

theorem commit_round_trip:
  assumes "wf_commit c"
  shows "commit_decode (commit_encode c) = Inr c"
  using assms by (rule commit.dec_enc)

definition sample_commit :: commit where
  "sample_commit =
     \<lparr>c_tree = ObjectId (replicate 32 1), c_parents = [ObjectId (replicate 32 2)],
      c_authors = [ascii ''A <a@x> 1 +0000''], c_committer = ascii ''A <a@x> 1 +0000'',
      c_ai_assists = [], c_reviewers = [ascii ''C <c@x>''], c_signature = Some (ascii ''c2ln''),
      c_message = ascii ''init'' @ [NL, NL] @ ascii ''body'' @ [NL]\<rparr>"

lemma wf_sample_commit: "wf_commit sample_commit"
  by (simp add: wf_commit_def sample_commit_def field_ok_def wf_id_def HASH_LEN_def valid_utf8_text)

theorem commit_round_trip_witness: "commit_decode (commit_encode sample_commit) = Inr sample_commit"
  using commit_round_trip [OF wf_sample_commit] .

text \<open>C5: the commit decoder accepts one byte form per commit, the one the encoder writes, so that a
  commit identifier or a signature binds to a single byte string; and what it accepts is text with
  full tree and parent identifiers and at least one author.\<close>

theorem commit_canonical:
  assumes "commit_decode p = Inr c"
  shows "p = commit_encode c \<and> valid_utf8 p \<and> wf_id (c_tree c) \<and> list_all wf_id (c_parents c)
    \<and> c_authors c \<noteq> []"
proof -
  from assms obtain header message st where u: "valid_utf8 p"
    and l: "commit_lines commit_parse_init (str_lines header) = Inr st"
    and f: "commit_finish st message = Inr c"
    by (auto simp: commit_decode_def split: if_splits option.splits prod.splits sum.splits)
  have "commit_ids commit_parse_init" by (simp add: commit_ids_def commit_parse_init_def)
  then have "commit_ids st" using l by (rule commit_lines_ids)
  with f u commit.enc_dec [OF assms] show ?thesis
    by (auto simp: commit_finish_def commit_ids_def split: if_splits option.splits)
qed

theorem commit_canonical_witness:
  "commit_decode (commit_encode sample_commit) = Inr sample_commit
   \<and> valid_utf8 (commit_encode sample_commit) \<and> c_authors sample_commit \<noteq> []"
  using commit_canonical [OF commit.dec_enc [OF wf_sample_commit]] commit.dec_enc [OF wf_sample_commit]
  by simp

end
