(* ===== verification/Tag_Object.thy ===== *)
theory Tag_Object
  imports Objects
begin

text \<open>
  \<open>src/object/tag.rs\<close>: the annotated tag format, structured as the commit format is.
\<close>

record tag =
  t_target :: object_id
  t_kind :: object_kind
  t_name :: bytes
  t_tagger :: bytes
  t_message :: bytes

definition tag_encode :: "tag \<Rightarrow> bytes" where
  "tag_encode t =
     ascii ''object '' @ to_hex (t_target t) @ [NL]
     @ ascii ''type '' @ kind_as_str (t_kind t) @ [NL]
     @ ascii ''tag '' @ t_name t @ [NL]
     @ ascii ''tagger '' @ t_tagger t @ [NL]
     @ [NL] @ t_message t"

datatype tag_section = TagSecObject | TagSecType | TagSecTag | TagSecTagger

definition tag_section_rank :: "tag_section \<Rightarrow> nat" where
  "tag_section_rank s =
     (case s of TagSecObject \<Rightarrow> 0 | TagSecType \<Rightarrow> 1 | TagSecTag \<Rightarrow> 2 | TagSecTagger \<Rightarrow> 3)"

definition advance_tag_section :: "tag_section \<Rightarrow> tag_section \<Rightarrow> tag_section res" where
  "advance_tag_section state nxt =
     (if tag_section_rank nxt < tag_section_rank state
      then Inl (EObject ''tag: header out of canonical order'') else Inr nxt)"

record tag_parse =
  tp_section :: tag_section
  tp_target :: "object_id option"
  tp_kind :: "object_kind option"
  tp_name :: "bytes option"
  tp_tagger :: "bytes option"

definition tag_parse_init :: tag_parse where
  "tag_parse_init =
     \<lparr>tp_section = TagSecObject, tp_target = None, tp_kind = None, tp_name = None, tp_tagger = None\<rparr>"

definition tag_line :: "tag_parse \<Rightarrow> bytes \<Rightarrow> tag_parse res" where
  "tag_line st line =
     (case strip_prefix (ascii ''object '') line of
        Some rest \<Rightarrow>
          if tp_target st \<noteq> None then Inl (EObject ''tag: multiple object lines'')
          else (case advance_tag_section (tp_section st) TagSecObject of Inl e \<Rightarrow> Inl e
            | Inr s \<Rightarrow> (case from_hex rest of Inl e \<Rightarrow> Inl e
              | Inr i \<Rightarrow> Inr (st\<lparr>tp_section := s, tp_target := Some i\<rparr>)))
      | None \<Rightarrow>
     (case strip_prefix (ascii ''type '') line of
        Some rest \<Rightarrow>
          if tp_kind st \<noteq> None then Inl (EObject ''tag: multiple type lines'')
          else (case advance_tag_section (tp_section st) TagSecType of Inl e \<Rightarrow> Inl e
            | Inr s \<Rightarrow> (case kind_parse rest of Inl e \<Rightarrow> Inl e
              | Inr k \<Rightarrow> Inr (st\<lparr>tp_section := s, tp_kind := Some k\<rparr>)))
      | None \<Rightarrow>
     (case strip_prefix (ascii ''tag '') line of
        Some rest \<Rightarrow>
          if tp_name st \<noteq> None then Inl (EObject ''tag: multiple tag lines'')
          else (case advance_tag_section (tp_section st) TagSecTag of Inl e \<Rightarrow> Inl e
            | Inr s \<Rightarrow> Inr (st\<lparr>tp_section := s, tp_name := Some rest\<rparr>))
      | None \<Rightarrow>
     (case strip_prefix (ascii ''tagger '') line of
        Some rest \<Rightarrow>
          if tp_tagger st \<noteq> None then Inl (EObject ''tag: multiple tagger lines'')
          else (case advance_tag_section (tp_section st) TagSecTagger of Inl e \<Rightarrow> Inl e
            | Inr s \<Rightarrow> Inr (st\<lparr>tp_section := s, tp_tagger := Some rest\<rparr>))
      | None \<Rightarrow> Inl (EObject ''tag: unknown line'')))))"

fun tag_lines :: "tag_parse \<Rightarrow> bytes list \<Rightarrow> tag_parse res" where
  "tag_lines st [] = Inr st"
| "tag_lines st (l # ls) =
     (case tag_line st l of Inl e \<Rightarrow> Inl e | Inr st' \<Rightarrow> tag_lines st' ls)"

definition tag_finish :: "tag_parse \<Rightarrow> bytes \<Rightarrow> tag res" where
  "tag_finish st message =
     (case tp_target st of None \<Rightarrow> Inl (EObject ''tag: missing object'')
      | Some i \<Rightarrow> (case tp_kind st of None \<Rightarrow> Inl (EObject ''tag: missing type'')
        | Some k \<Rightarrow> (case tp_name st of None \<Rightarrow> Inl (EObject ''tag: missing tag name'')
          | Some n \<Rightarrow> (case tp_tagger st of None \<Rightarrow> Inl (EObject ''tag: missing tagger'')
            | Some g \<Rightarrow> Inr \<lparr>t_target = i, t_kind = k, t_name = n, t_tagger = g, t_message = message\<rparr>))))"

definition tag_decode :: "bytes \<Rightarrow> tag res" where
  "tag_decode payload =
     (if \<not> valid_utf8 payload then Inl (EObject ''tag: non-utf8'')
      else (case split_once [NL, NL] payload of
          None \<Rightarrow> Inl (EObject ''tag: missing blank line'')
        | Some (header, message) \<Rightarrow>
          (case tag_lines tag_parse_init (str_lines header) of Inl e \<Rightarrow> Inl e
           | Inr st \<Rightarrow> (case tag_finish st message of Inl e \<Rightarrow> Inl e
             | Inr t \<Rightarrow>
               if tag_encode t \<noteq> payload
               then Inl (EObject ''tag: non-canonical encoding (re-encode differs from input)'')
               else Inr t))))"

section \<open>Round trips\<close>

definition tag_header :: "tag \<Rightarrow> bytes list" where
  "tag_header t =
     [ascii ''object '' @ to_hex (t_target t), ascii ''type '' @ kind_as_str (t_kind t),
      ascii ''tag '' @ t_name t, ascii ''tagger '' @ t_tagger t]"

lemma tag_encode_header: "tag_encode t = header_text (tag_header t) (t_message t)"
  by (simp add: tag_encode_def tag_header_def header_text_def)

definition wf_tag :: "tag \<Rightarrow> bool" where
  "wf_tag t \<longleftrightarrow>
     wf_id (t_target t) \<and> field_ok (t_name t) \<and> field_ok (t_tagger t) \<and> valid_utf8 (t_message t)"

lemma field_ok_kind: "field_ok (kind_as_str k)"
  by (cases k) (simp_all add: field_ok_def kind_as_str_def valid_utf8_text)

lemma tag_keys_ok:
  "key_ok (ascii ''object '')" "key_ok (ascii ''type '')" "key_ok (ascii ''tag '')"
  "key_ok (ascii ''tagger '')"
  by (simp_all add: key_ok_def)

lemma tag_header_ok: "wf_tag t \<Longrightarrow> \<forall>l \<in> set (tag_header t). line_ok l \<and> valid_utf8 l"
  by (simp add: tag_header_def wf_tag_def key_ok_line tag_keys_ok field_ok_kind del: ascii_Cons)

lemma tag_line_simps:
  "tag_line st (ascii ''object '' @ v) =
     (if tp_target st \<noteq> None then Inl (EObject ''tag: multiple object lines'')
      else (case advance_tag_section (tp_section st) TagSecObject of Inl e \<Rightarrow> Inl e
        | Inr s \<Rightarrow> (case from_hex v of Inl e \<Rightarrow> Inl e
          | Inr i \<Rightarrow> Inr (st\<lparr>tp_section := s, tp_target := Some i\<rparr>))))"
  "tag_line st (ascii ''type '' @ v) =
     (if tp_kind st \<noteq> None then Inl (EObject ''tag: multiple type lines'')
      else (case advance_tag_section (tp_section st) TagSecType of Inl e \<Rightarrow> Inl e
        | Inr s \<Rightarrow> (case kind_parse v of Inl e \<Rightarrow> Inl e
          | Inr k \<Rightarrow> Inr (st\<lparr>tp_section := s, tp_kind := Some k\<rparr>))))"
  "tag_line st (ascii ''tag '' @ v) =
     (if tp_name st \<noteq> None then Inl (EObject ''tag: multiple tag lines'')
      else (case advance_tag_section (tp_section st) TagSecTag of Inl e \<Rightarrow> Inl e
        | Inr s \<Rightarrow> Inr (st\<lparr>tp_section := s, tp_name := Some v\<rparr>)))"
  "tag_line st (ascii ''tagger '' @ v) =
     (if tp_tagger st \<noteq> None then Inl (EObject ''tag: multiple tagger lines'')
      else (case advance_tag_section (tp_section st) TagSecTagger of Inl e \<Rightarrow> Inl e
        | Inr s \<Rightarrow> Inr (st\<lparr>tp_section := s, tp_tagger := Some v\<rparr>)))"
  unfolding tag_line_def by (simp_all add: strip_prefix_def)

lemma tag_lines_header:
  assumes "wf_tag t"
  shows "(case tag_lines tag_parse_init (tag_header t) of Inl e \<Rightarrow> Inl e
    | Inr st \<Rightarrow> tag_finish st (t_message t)) = Inr t"
  using assms
  by (simp add: tag_header_def tag_parse_init_def wf_tag_def tag_line_simps advance_tag_section_def
      tag_section_rank_def tag_finish_def del: ascii_Cons)

interpretation tag: payload_codec tag_encode tag_decode wf_tag
proof unfold_locales
  fix t assume wf: "wf_tag t"
  note hdr = tag_header_ok [OF wf]
  have "valid_utf8 (tag_encode t)"
    using wf hdr unfolding tag_encode_header
    by (intro valid_header_text) (simp_all add: wf_tag_def)
  moreover have "split_once [NL, NL] (tag_encode t) = Some (join_char NL (tag_header t), t_message t)"
    using hdr unfolding tag_encode_header
    by (intro split_header_text) (auto simp: line_ok_def tag_header_def)
  moreover have "str_lines (join_char NL (tag_header t)) = tag_header t"
    using hdr by (intro str_lines_join) simp
  ultimately show "tag_decode (tag_encode t) = Inr t"
    using tag_lines_header [OF wf] by (auto simp: tag_decode_def split: sum.splits)
next
  fix p t assume "tag_decode p = Inr t"
  then show "tag_encode t = p"
    by (auto simp: tag_decode_def split: if_splits option.splits prod.splits sum.splits)
qed

text \<open>A tag is read back as it was written, and two tags the program builds are written as the
  same bytes only if they are the same tag.\<close>

theorem tag_round_trip:
  assumes "wf_tag t"
  shows "tag_decode (tag_encode t) = Inr t \<and> (\<forall>u. wf_tag u \<and> tag_encode u = tag_encode t \<longrightarrow> u = t)"
  using assms tag.dec_enc tag.enc_same_bytes by blast

definition sample_tag :: tag where
  "sample_tag =
     \<lparr>t_target = ObjectId (replicate 32 1), t_kind = Commit, t_name = ascii ''v0.1.0'',
      t_tagger = ascii ''B <b@x> 1 +0000'', t_message = ascii ''notes'' @ [NL]\<rparr>"

theorem tag_round_trip_witness: "tag_decode (tag_encode sample_tag) = Inr sample_tag"
proof -
  have "wf_tag sample_tag"
    by (simp add: wf_tag_def sample_tag_def field_ok_def wf_id_def HASH_LEN_def valid_utf8_text)
  from tag_round_trip [OF this] show ?thesis by simp
qed

end
