(* ===== verification/Diff.thy ===== *)
theory Diff
  imports Prelude
begin

text \<open>
  \<open>src/diff.rs\<close>: line splitting and Myers' diff.

  The loops of \<open>myers\<close> are recursive functions over the same variables: \<open>snake\<close> the inner
  \<open>while\<close>, \<open>myers_row\<close> the loop over the diagonals \<open>k\<close> of one \<open>d\<close>, \<open>myers_rows\<close> the loop over
  \<open>d\<close> that builds \<open>trace\<close>, \<open>walk_diagonal\<close> and \<open>backtrack\<close> the way back. Every slice index of the
  source is a checked read or write (\<open>aget\<close>, \<open>aset\<close>); \<open>None\<close> is the panic of an index out of range.
  The \<open>i32\<close> variables are integers: \<open>MAX_DIFF_LINES\<close> keeps every value far below the range of
  \<open>i32\<close>. The list \<open>ops\<close> of the way back has the op pushed last at its head, which is the order after
  the final \<open>reverse\<close>.
\<close>

type_synonym line = bytes

datatype diff_op = Equal line | Delete line | Insert line

fun split_loop :: "bytes \<Rightarrow> bytes \<Rightarrow> line list" where
  "split_loop cur [] = (if cur = [] then [] else [cur])"
| "split_loop cur (b # bs) =
     (if b = NL then cur # split_loop [] bs else split_loop (cur @ [b]) bs)"

definition split_lines :: "bytes \<Rightarrow> line list" where
  "split_lines buf = (if buf = [] then [] else split_loop [] buf)"

definition MAX_DIFF_LINES :: nat where "MAX_DIFF_LINES = 50000"

definition aget :: "'a list \<Rightarrow> int \<Rightarrow> 'a option" where
  "aget v i = (if 0 \<le> i \<and> i < int (length v) then Some (v ! nat i) else None)"

definition aset :: "'a list \<Rightarrow> int \<Rightarrow> 'a \<Rightarrow> 'a list option" where
  "aset v i x = (if 0 \<le> i \<and> i < int (length v) then Some (v[nat i := x]) else None)"

function snake :: "line list \<Rightarrow> line list \<Rightarrow> int \<Rightarrow> int \<Rightarrow> (int \<times> int) option" where
  "snake a b x y =
     (if x < int (length a) \<and> y < int (length b)
      then (case aget a x of None \<Rightarrow> None
        | Some l \<Rightarrow> (case aget b y of None \<Rightarrow> None
          | Some r \<Rightarrow> if l = r then snake a b (x + 1) (y + 1) else Some (x, y)))
      else Some (x, y))"
  by pat_completeness auto
termination
  by (relation "measure (\<lambda>(a, b, x, y). nat (int (length a) - x))") auto

function myers_row ::
  "line list \<Rightarrow> line list \<Rightarrow> int \<Rightarrow> int \<Rightarrow> int \<Rightarrow> int list \<Rightarrow> (bool \<times> int list) option" where
  "myers_row a b offset d k v =
     (if k \<le> d then
        (case (if k = - d then Some True
               else if k = d then Some False
               else (case aget v (k - 1 + offset) of None \<Rightarrow> None
                 | Some p \<Rightarrow> (case aget v (k + 1 + offset) of None \<Rightarrow> None
                   | Some q \<Rightarrow> Some (p < q)))) of
           None \<Rightarrow> None
         | Some down \<Rightarrow>
        (case (if down then aget v (k + 1 + offset)
               else map_option (\<lambda>x. x + 1) (aget v (k - 1 + offset))) of
           None \<Rightarrow> None
         | Some x0 \<Rightarrow>
        (case snake a b x0 (x0 - k) of
           None \<Rightarrow> None
         | Some (x, y) \<Rightarrow>
        (case aset v (k + offset) x of
           None \<Rightarrow> None
         | Some v' \<Rightarrow>
           if x \<ge> int (length a) \<and> y \<ge> int (length b) then Some (True, v')
           else myers_row a b offset d (k + 2) v'))))
      else Some (False, v))"
  by pat_completeness auto
termination
  by (relation "measure (\<lambda>(a, b, offset, d, k, v). nat (d + 1 - k))") auto

function myers_rows ::
  "line list \<Rightarrow> line list \<Rightarrow> int \<Rightarrow> int \<Rightarrow> int list list \<Rightarrow> int list \<Rightarrow> int list list option" where
  "myers_rows a b mx d trace v =
     (if d \<le> mx then
        (case myers_row a b mx d (- d) v of
           None \<Rightarrow> None
         | Some (found, v') \<Rightarrow>
           if found then Some (trace @ [v']) else myers_rows a b mx (d + 1) (trace @ [v']) v')
      else Some trace)"
  by pat_completeness auto
termination
  by (relation "measure (\<lambda>(a, b, mx, d, trace, v). nat (mx + 1 - d))") auto

function walk_diagonal ::
  "line list \<Rightarrow> int \<Rightarrow> int \<Rightarrow> int \<Rightarrow> int \<Rightarrow> diff_op list \<Rightarrow> (int \<times> int \<times> diff_op list) option" where
  "walk_diagonal a x y prev_x prev_y ops =
     (if x > prev_x \<and> y > prev_y
      then (case aget a (x - 1) of None \<Rightarrow> None
        | Some l \<Rightarrow> walk_diagonal a (x - 1) (y - 1) prev_x prev_y (Equal l # ops))
      else Some (x, y, ops))"
  by pat_completeness auto
termination
  by (relation "measure (\<lambda>(a, x, y, prev_x, prev_y, ops). nat (x - prev_x))") auto

fun backtrack ::
  "line list \<Rightarrow> line list \<Rightarrow> int \<Rightarrow> int list list \<Rightarrow> nat \<Rightarrow> int \<Rightarrow> int \<Rightarrow> diff_op list \<Rightarrow> diff_op list option" where
  "backtrack a b offset trace 0 x y ops = Some ops"
| "backtrack a b offset trace (Suc dn) x y ops =
     (case aget trace (int dn) of
        None \<Rightarrow> None
      | Some v_d \<Rightarrow>
     (let d = int dn; k = x - y in
      (case (if k = - d then Some (k + 1)
             else if k = d then Some (k - 1)
             else (case aget v_d (k - 1 + offset) of None \<Rightarrow> None
               | Some p \<Rightarrow> (case aget v_d (k + 1 + offset) of None \<Rightarrow> None
                 | Some q \<Rightarrow> Some (if p < q then k + 1 else k - 1)))) of
         None \<Rightarrow> None
       | Some prev_k \<Rightarrow>
      (case aget v_d (prev_k + offset) of
         None \<Rightarrow> None
       | Some prev_x \<Rightarrow>
      (let prev_y = prev_x - prev_k in
       (case walk_diagonal a x y prev_x prev_y ops of
          None \<Rightarrow> None
        | Some (x', y', ops') \<Rightarrow>
          if d > 0 then
            (if x' = prev_x
             then (case aget b prev_y of None \<Rightarrow> None
               | Some l \<Rightarrow> backtrack a b offset trace dn prev_x prev_y (Insert l # ops'))
             else (case aget a prev_x of None \<Rightarrow> None
               | Some l \<Rightarrow> backtrack a b offset trace dn prev_x prev_y (Delete l # ops')))
          else backtrack a b offset trace dn x' y' ops'))))))"

definition myers :: "line list \<Rightarrow> line list \<Rightarrow> diff_op list option" where
  "myers a b =
     (let n = length a; m = length b in
      if n = 0 \<and> m = 0 then Some []
      else if n = 0 then Some (map Insert b)
      else if m = 0 then Some (map Delete a)
      else if n + m > MAX_DIFF_LINES then Some (map Delete a @ map Insert b)
      else (let mx = n + m in
        (case myers_rows a b (int mx) 0 [] (replicate (2 * mx + 1) 0) of
           None \<Rightarrow> None
         | Some trace \<Rightarrow> backtrack a b (int mx) trace (length trace) (int n) (int m) [])))"

definition diff_lines :: "bytes \<Rightarrow> bytes \<Rightarrow> diff_op list option" where
  "diff_lines a b = myers (split_lines a) (split_lines b)"

declare snake.simps [simp del] myers_row.simps [simp del] myers_rows.simps [simp del]
  walk_diagonal.simps [simp del]

section \<open>What an edit script means\<close>

fun old_lines :: "diff_op list \<Rightarrow> line list" where
  "old_lines [] = []"
| "old_lines (Equal l # ops) = l # old_lines ops"
| "old_lines (Delete l # ops) = l # old_lines ops"
| "old_lines (Insert l # ops) = old_lines ops"

fun new_lines :: "diff_op list \<Rightarrow> line list" where
  "new_lines [] = []"
| "new_lines (Equal l # ops) = l # new_lines ops"
| "new_lines (Delete l # ops) = new_lines ops"
| "new_lines (Insert l # ops) = l # new_lines ops"

fun edit_count :: "diff_op list \<Rightarrow> nat" where
  "edit_count [] = 0"
| "edit_count (Equal l # ops) = edit_count ops"
| "edit_count (Delete l # ops) = Suc (edit_count ops)"
| "edit_count (Insert l # ops) = Suc (edit_count ops)"

lemma old_lines_append [simp]: "old_lines (p @ q) = old_lines p @ old_lines q"
  by (induction p rule: old_lines.induct) auto

lemma new_lines_append [simp]: "new_lines (p @ q) = new_lines p @ new_lines q"
  by (induction p rule: new_lines.induct) auto

lemma edit_count_append [simp]: "edit_count (p @ q) = edit_count p + edit_count q"
  by (induction p rule: edit_count.induct) auto

lemma script_map_Delete [simp]:
  "old_lines (map Delete a) = a" "new_lines (map Delete a) = []" "edit_count (map Delete a) = length a"
  by (induction a) simp_all

lemma script_map_Insert [simp]:
  "old_lines (map Insert b) = []" "new_lines (map Insert b) = b" "edit_count (map Insert b) = length b"
  by (induction b) simp_all

section \<open>Furthest-reaching points\<close>

text \<open>\<open>slide\<close> follows equal lines along a diagonal; \<open>reach a b d k\<close> is the furthest \<open>x\<close> on diagonal
  \<open>k\<close> that \<open>d\<close> edits arrive at, by the recurrence the algorithm tabulates.\<close>

function slide :: "line list \<Rightarrow> line list \<Rightarrow> int \<Rightarrow> int \<Rightarrow> int" where
  "slide a b x k =
     (if 0 \<le> x \<and> k \<le> x \<and> x < int (length a) \<and> x - k < int (length b) \<and> a ! nat x = b ! nat (x - k)
      then slide a b (x + 1) k else x)"
  by pat_completeness auto
termination
  by (relation "measure (\<lambda>(a, b, x, k). nat (int (length a) - x))") auto

declare slide.simps [simp del]

definition move_start :: "(int \<Rightarrow> int) \<Rightarrow> int \<Rightarrow> int \<Rightarrow> int" where
  "move_start V d k =
     (if k = - d \<or> (k \<noteq> d \<and> V (k - 1) < V (k + 1)) then V (k + 1) else V (k - 1) + 1)"

fun reach :: "line list \<Rightarrow> line list \<Rightarrow> nat \<Rightarrow> int \<Rightarrow> int" where
  "reach a b 0 k = slide a b 0 k"
| "reach a b (Suc d) k = slide a b (move_start (reach a b d) (int (Suc d)) k) k"

definition valid_k :: "nat \<Rightarrow> int \<Rightarrow> bool" where
  "valid_k d k \<longleftrightarrow> \<bar>k\<bar> \<le> int d \<and> even (int d - k)"

definition can_slide :: "line list \<Rightarrow> line list \<Rightarrow> int \<Rightarrow> int \<Rightarrow> bool" where
  "can_slide a b x k \<longleftrightarrow>
     0 \<le> x \<and> k \<le> x \<and> x < int (length a) \<and> x - k < int (length b) \<and> a ! nat x = b ! nat (x - k)"

lemma slide_step: "can_slide a b x k \<Longrightarrow> slide a b x k = slide a b (x + 1) k"
  by (subst slide.simps) (simp add: can_slide_def)

lemma slide_stop: "\<not> can_slide a b x k \<Longrightarrow> slide a b x k = x"
  by (subst slide.simps) (auto simp: can_slide_def)

lemma slide_induct [case_names move stop]:
  assumes "\<And>x. can_slide a b x k \<Longrightarrow> P (x + 1) \<Longrightarrow> P x" and "\<And>x. \<not> can_slide a b x k \<Longrightarrow> P x"
  shows "P x"
proof (induction "nat (int (length a) - x)" arbitrary: x rule: less_induct)
  case less
  show ?case
  proof (cases "can_slide a b x k")
    case True
    then have "nat (int (length a) - (x + 1)) < nat (int (length a) - x)"
      by (simp add: can_slide_def)
    then have "P (x + 1)" by (rule less)
    with True show ?thesis by (rule assms(1))
  qed (rule assms(2))
qed

lemma slide_ge: "x \<le> slide a b x k"
  by (induction x rule: slide_induct [of a b k]) (simp_all add: slide_step slide_stop)

lemma slide_bounds:
  "x \<le> int (length a) \<Longrightarrow> x - k \<le> int (length b) \<Longrightarrow>
     slide a b x k \<le> int (length a) \<and> slide a b x k - k \<le> int (length b)"
  by (induction x rule: slide_induct [of a b k]) (simp_all add: slide_step slide_stop can_slide_def)

lemma slide_outside: "x \<ge> int (length a) \<or> x - k \<ge> int (length b) \<Longrightarrow> slide a b x k = x"
  by (rule slide_stop) (auto simp: can_slide_def)

lemma slide_equal: "x \<le> i \<Longrightarrow> i < slide a b x k \<Longrightarrow> can_slide a b i k"
proof (induction x rule: slide_induct [of a b k])
  case (move x)
  then show ?case by (cases "i = x") (simp_all add: slide_step)
next
  case (stop x)
  then show ?case by (simp add: slide_stop)
qed

lemma slide_maximal: "\<not> can_slide a b (slide a b x k) k"
  by (induction x rule: slide_induct [of a b k]) (simp_all add: slide_step slide_stop)

lemma snake_slide:
  assumes "0 \<le> x" "0 \<le> x - k"
  shows "snake a b x (x - k) = Some (slide a b x k, slide a b x k - k)"
  using assms
proof (induction x rule: slide_induct [of a b k])
  case (move x)
  then show ?case
    by (subst snake.simps) (simp add: slide_step can_slide_def aget_def algebra_simps)
next
  case (stop x)
  then show ?case
    by (subst snake.simps) (auto simp: slide_stop can_slide_def aget_def)
qed

section \<open>Laws of the recurrence\<close>

lemma valid_k_Suc:
  assumes "valid_k (Suc d) k"
  shows "k \<noteq> int (Suc d) \<Longrightarrow> valid_k d (k + 1)" and "k \<noteq> - int (Suc d) \<Longrightarrow> valid_k d (k - 1)"
  using assms unfolding valid_k_def by (auto simp: algebra_simps) presburger+

lemma valid_k_step: "valid_k d k \<Longrightarrow> valid_k (Suc d) (k + 1)" "valid_k d k \<Longrightarrow> valid_k (Suc d) (k - 1)"
  unfolding valid_k_def by (auto simp: algebra_simps)

lemma valid_k_0 [simp]: "valid_k 0 k \<longleftrightarrow> k = 0"
  by (auto simp: valid_k_def)

lemma valid_k_next: "valid_k d k \<Longrightarrow> valid_k d (k + 2) \<or> k + 2 = int d + 2"
proof -
  assume v: "valid_k d k"
  then have "k = int d \<or> k \<le> int d - 2" unfolding valid_k_def by presburger
  with v show ?thesis by (auto simp: valid_k_def)
qed

lemma move_start_ge:
  assumes "valid_k (Suc d) k"
  shows "k \<noteq> int (Suc d) \<Longrightarrow> V (k + 1) \<le> move_start V (int (Suc d)) k"
    and "k \<noteq> - int (Suc d) \<Longrightarrow> V (k - 1) + 1 \<le> move_start V (int (Suc d)) k"
  by (auto simp: move_start_def)

lemma move_start_cases:
  assumes "valid_k (Suc d) k"
  obtains (down) "k \<noteq> int (Suc d)" "valid_k d (k + 1)" "move_start V (int (Suc d)) k = V (k + 1)"
  | (right) "k \<noteq> - int (Suc d)" "valid_k d (k - 1)" "move_start V (int (Suc d)) k = V (k - 1) + 1"
proof (cases "k = - int (Suc d) \<or> (k \<noteq> int (Suc d) \<and> V (k - 1) < V (k + 1))")
  case True
  then have "k \<noteq> int (Suc d)" by auto
  with True down valid_k_Suc(1) [OF assms] show thesis by (simp add: move_start_def)
next
  case False
  then have "k \<noteq> - int (Suc d)" and "move_start V (int (Suc d)) k = V (k - 1) + 1"
    by (auto simp: move_start_def)
  with right valid_k_Suc(2) [OF assms] show thesis by blast
qed

lemma reach_down:
  assumes "valid_k d k"
  shows "reach a b d k \<le> reach a b (Suc d) (k - 1)"
proof -
  have "k - 1 \<noteq> int (Suc d)" using assms by (auto simp: valid_k_def)
  with move_start_ge(1) [OF valid_k_step(2) [OF assms], of "reach a b d"]
    slide_ge [of "move_start (reach a b d) (int (Suc d)) (k - 1)" a b "k - 1"]
  show ?thesis by simp
qed

lemma reach_right:
  assumes "valid_k d k"
  shows "reach a b d k + 1 \<le> reach a b (Suc d) (k + 1)"
proof -
  have "k + 1 \<noteq> - int (Suc d)" using assms by (auto simp: valid_k_def)
  with move_start_ge(2) [OF valid_k_step(1) [OF assms], of "reach a b d"]
    slide_ge [of "move_start (reach a b d) (int (Suc d)) (k + 1)" a b "k + 1"]
  show ?thesis by simp
qed

lemma reach_nonneg: "valid_k d k \<Longrightarrow> 0 \<le> reach a b d k \<and> k \<le> reach a b d k"
proof (induction d arbitrary: k)
  case 0
  then show ?case using slide_ge [of 0 a b 0] by simp
next
  case (Suc d)
  let ?s = "move_start (reach a b d) (int (Suc d)) k"
  have "0 \<le> ?s \<and> k \<le> ?s"
    using Suc.prems
  proof (cases rule: move_start_cases [where V = "reach a b d"])
    case down
    with Suc.IH [of "k + 1"] show ?thesis by simp
  next
    case right
    with Suc.IH [of "k - 1"] show ?thesis by simp
  qed
  with slide_ge [of ?s a b k] show ?case by simp
qed

lemma slide_leaves:
  assumes "int (length a) < slide a b x k \<or> int (length b) < slide a b x k - k"
  shows "slide a b x k = x"
  using assms slide_bounds [of x a k b] slide_outside [of a x b k] by linarith

lemma reach_past_a:
  "valid_k d k \<Longrightarrow> int (length a) < reach a b d k \<Longrightarrow>
     valid_k d (k - 2) \<and> reach a b d k - 1 \<le> reach a b d (k - 2)"
proof (induction d arbitrary: k)
  case 0
  then show ?case using slide_bounds [of 0 a 0 b] by simp
next
  case (Suc d)
  let ?s = "move_start (reach a b d) (int (Suc d)) k"
  have s: "reach a b (Suc d) k = ?s" using Suc.prems(2) slide_leaves [of a b ?s k] by simp
  from Suc.prems(1) show ?case
  proof (cases rule: move_start_cases [where V = "reach a b d"])
    case down
    with Suc.IH [of "k + 1"] s Suc.prems(2)
    have "valid_k d (k - 1)" "?s - 1 \<le> reach a b d (k - 1)" by simp_all
    with reach_down [of d "k - 1" a b] valid_k_step(2) [of d "k - 1"] s show ?thesis by simp
  next
    case right
    with reach_down [of d "k - 1" a b] valid_k_step(2) [of d "k - 1"] s show ?thesis by simp
  qed
qed

lemma reach_past_b:
  "valid_k d k \<Longrightarrow> int (length b) < reach a b d k - k \<Longrightarrow>
     valid_k d (k + 2) \<and> reach a b d k + 1 \<le> reach a b d (k + 2)"
proof (induction d arbitrary: k)
  case 0
  then show ?case using slide_bounds [of 0 a 0 b] by simp
next
  case (Suc d)
  let ?s = "move_start (reach a b d) (int (Suc d)) k"
  have s: "reach a b (Suc d) k = ?s" using Suc.prems(2) slide_leaves [of a b ?s k] by simp
  from Suc.prems(1) show ?case
  proof (cases rule: move_start_cases [where V = "reach a b d"])
    case down
    with reach_right [of d "k + 1" a b] valid_k_step(1) [of d "k + 1"] s show ?thesis
      by (simp add: add.commute)
  next
    case right
    with Suc.IH [of "k - 1"] s Suc.prems(2)
    have "valid_k d (k + 1)" "?s \<le> reach a b d (k + 1)" by (simp_all add: add.commute)
    with reach_right [of d "k + 1" a b] valid_k_step(1) [of d "k + 1"] s show ?thesis
      by (simp add: add.commute)
  qed
qed

definition finished :: "line list \<Rightarrow> line list \<Rightarrow> nat \<Rightarrow> int \<Rightarrow> bool" where
  "finished a b d k \<longleftrightarrow> int (length a) \<le> reach a b d k \<and> int (length b) \<le> reach a b d k - k"

definition first_finished :: "line list \<Rightarrow> line list \<Rightarrow> nat \<Rightarrow> int \<Rightarrow> bool" where
  "first_finished a b d k \<longleftrightarrow> valid_k d k \<and> finished a b d k
     \<and> (\<forall>e j. valid_k e j \<longrightarrow> e < d \<or> e = d \<and> j < k \<longrightarrow> \<not> finished a b e j)"

lemma first_finished_exact:
  assumes "first_finished a b d k"
  shows "reach a b d k = int (length a) \<and> k = int (length a) - int (length b)"
proof -
  let ?n = "int (length a)" and ?m = "int (length b)"
  have v: "valid_k d k" and f: "?n \<le> reach a b d k" "?m \<le> reach a b d k - k"
    and no: "\<And>e j. valid_k e j \<Longrightarrow> e < d \<or> e = d \<and> j < k \<Longrightarrow> \<not> finished a b e j"
    using assms by (auto simp: first_finished_def finished_def)
  have x: "reach a b d k = ?n"
  proof (rule ccontr)
    assume "reach a b d k \<noteq> ?n"
    with f have "?n < reach a b d k" by simp
    from reach_past_a [OF v this] no [of d "k - 2"] f \<open>?n < reach a b d k\<close> show False
      by (simp add: finished_def)
  qed
  have "\<not> ?m < reach a b d k - k"
  proof
    assume y: "?m < reach a b d k - k"
    show False
    proof (cases d)
      case 0
      with y v slide_bounds [of 0 a 0 b] show False by simp
    next
      case (Suc e)
      let ?s = "move_start (reach a b e) (int (Suc e)) k"
      have s: "?s = ?n" using x y Suc slide_leaves [of a b ?s k] by simp
      from v have "valid_k (Suc e) k" by (simp add: Suc)
      then show False
      proof (cases rule: move_start_cases [where V = "reach a b e"])
        case down
        with no [of e "k + 1"] s x y show False by (simp add: finished_def Suc)
      next
        case right
        with reach_past_b [of e "k - 1" b a] s x y
        have "valid_k e (k + 1)" "?n \<le> reach a b e (k + 1)" by (simp_all add: add.commute)
        with no [of e "k + 1"] x y show False by (simp add: finished_def Suc)
      qed
    qed
  qed
  with x f show ?thesis by simp
qed

lemma reach_border: "int i \<le> reach a b i (int i)"
proof (induction i)
  case 0
  then show ?case using slide_ge [of 0 a b 0] by simp
next
  case (Suc i)
  have "valid_k i (int i)" by (simp add: valid_k_def)
  from reach_right [OF this, of a b] Suc show ?case by (simp add: add.commute)
qed

lemma reach_corner: "int i \<le> reach a b (i + j) (int i - int j)"
proof (induction j)
  case 0
  then show ?case using reach_border [of i a b] by simp
next
  case (Suc j)
  have "valid_k (i + j) (int i - int j)" by (auto simp: valid_k_def)
  from reach_down [OF this, of a b] Suc show ?case by (simp add: algebra_simps)
qed

lemma finished_exists:
  "\<exists>k. valid_k (length a + length b) k \<and> finished a b (length a + length b) k"
  using reach_corner [of "length a" a b "length b"]
  by (intro exI [of _ "int (length a) - int (length b)"]) (auto simp: finished_def valid_k_def)

section \<open>The tabulation computes the recurrence\<close>

definition prev_reach :: "line list \<Rightarrow> line list \<Rightarrow> nat \<Rightarrow> int \<Rightarrow> int" where
  "prev_reach a b d k = (case d of 0 \<Rightarrow> 0 | Suc e \<Rightarrow> reach a b e k)"

definition prev_k :: "nat \<Rightarrow> int \<Rightarrow> bool" where
  "prev_k d k \<longleftrightarrow> (case d of 0 \<Rightarrow> k = 1 | Suc e \<Rightarrow> valid_k e k)"

definition prev_row :: "line list \<Rightarrow> line list \<Rightarrow> nat \<Rightarrow> nat \<Rightarrow> int list \<Rightarrow> bool" where
  "prev_row a b mx d v \<longleftrightarrow> length v = 2 * mx + 1
     \<and> (\<forall>j. prev_k d j \<longrightarrow> v ! nat (j + int mx) = prev_reach a b d j)"

definition row_inv :: "line list \<Rightarrow> line list \<Rightarrow> nat \<Rightarrow> nat \<Rightarrow> int \<Rightarrow> int list \<Rightarrow> bool" where
  "row_inv a b mx d k v \<longleftrightarrow> prev_row a b mx d v
     \<and> (\<forall>j. valid_k d j \<longrightarrow> j < k \<longrightarrow> v ! nat (j + int mx) = reach a b d j \<and> \<not> finished a b d j)"

lemma prev_k_neighbours:
  assumes "valid_k d k"
  shows "k = - int d \<or> k \<noteq> int d \<Longrightarrow> prev_k d (k + 1)" and "k \<noteq> - int d \<Longrightarrow> prev_k d (k - 1)"
  using assms valid_k_Suc [of "d - 1" k] by (cases d; force simp: prev_k_def)+

lemma prev_reach_Suc [simp]: "prev_reach a b (Suc e) = reach a b e"
  by (simp add: prev_reach_def fun_eq_iff)

lemma prev_k_Suc [simp]: "prev_k (Suc e) = valid_k e"
  by (simp add: prev_k_def fun_eq_iff)

lemma prev_k_bound: "prev_k d k \<Longrightarrow> d \<le> mx \<Longrightarrow> 1 \<le> mx \<Longrightarrow> \<bar>k\<bar> \<le> int mx"
  by (auto simp: prev_k_def valid_k_def split: nat.splits)

lemma reach_prev: "valid_k d k \<Longrightarrow> reach a b d k = slide a b (move_start (prev_reach a b d) (int d) k) k"
  by (cases d) (simp_all add: prev_reach_def move_start_def)

lemma prev_row_get:
  assumes "prev_row a b mx d v" "prev_k d k" "d \<le> mx" "1 \<le> mx"
  shows "aget v (k + int mx) = Some (prev_reach a b d k)"
  using assms prev_k_bound [OF assms(2-4)] by (auto simp: aget_def prev_row_def)

lemma prev_reach_nonneg:
  assumes "valid_k d k"
  shows "0 \<le> move_start (prev_reach a b d) (int d) k" "k \<le> move_start (prev_reach a b d) (int d) k"
proof -
  have "0 \<le> move_start (prev_reach a b d) (int d) k \<and> k \<le> move_start (prev_reach a b d) (int d) k"
  proof (cases d)
    case 0
    with assms show ?thesis by (simp add: move_start_def prev_reach_def)
  next
    case (Suc e)
    with assms have "valid_k (Suc e) k" by simp
    then show ?thesis
    proof (cases rule: move_start_cases [where V = "reach a b e"])
      case down
      with reach_nonneg [of e "k + 1" a b] show ?thesis by (simp add: Suc)
    next
      case right
      with reach_nonneg [of e "k - 1" a b] show ?thesis by (simp add: Suc)
    qed
  qed
  then show "0 \<le> move_start (prev_reach a b d) (int d) k" "k \<le> move_start (prev_reach a b d) (int d) k"
    by simp_all
qed

lemma myers_row_unfold:
  assumes "prev_row a b mx d v" "valid_k d k" "d \<le> mx" "1 \<le> mx"
  shows "myers_row a b (int mx) (int d) k v =
    (if finished a b d k then Some (True, v[nat (k + int mx) := reach a b d k])
     else myers_row a b (int mx) (int d) (k + 2) (v[nat (k + int mx) := reach a b d k]))"
proof -
  let ?V = "prev_reach a b d"
  let ?s = "move_start ?V (int d) k"
  have kb: "k \<le> int d" "0 \<le> k + int mx" "k + int mx < int (length v)"
    using assms by (auto simp: valid_k_def prev_row_def)
  have up: "k = - int d \<or> k \<noteq> int d \<Longrightarrow> aget v (k + 1 + int mx) = Some (?V (k + 1))"
    using prev_row_get [OF assms(1) prev_k_neighbours(1) [OF assms(2)] assms(3,4)] .
  have left: "k \<noteq> - int d \<Longrightarrow> aget v (k - 1 + int mx) = Some (?V (k - 1))"
    using prev_row_get [OF assms(1) prev_k_neighbours(2) [OF assms(2)] assms(3,4)] .
  have sn: "snake a b ?s (?s - k) = Some (reach a b d k, reach a b d k - k)"
    using snake_slide [of ?s k a b] prev_reach_nonneg [OF assms(2), of a b]
    by (simp add: reach_prev [OF assms(2)])
  have st: "aset v (k + int mx) x = Some (v[nat (k + int mx) := x])" for x
    using kb by (simp add: aset_def)
  note unfold = trans [OF myers_row.simps [of a b "int mx" "int d" k v]]
  consider "k = - int d" | "k \<noteq> - int d" "k = int d" | "k \<noteq> - int d" "k \<noteq> int d" by blast
  then show ?thesis
  proof cases
    case 1
    then have "?s = ?V (k + 1)" by (simp add: move_start_def)
    with 1 sn st up kb(1) show ?thesis by (intro unfold) (simp del: reach.simps add: finished_def)
  next
    case 2
    then have "?s = ?V (k - 1) + 1" by (simp add: move_start_def)
    with 2 sn st left kb(1) show ?thesis by (intro unfold) (simp del: reach.simps add: finished_def)
  next
    case 3
    then have "?s = (if ?V (k - 1) < ?V (k + 1) then ?V (k + 1) else ?V (k - 1) + 1)"
      by (simp add: move_start_def)
    with 3 sn st up left kb(1) show ?thesis
      by (intro unfold, cases "?V (k - 1) < ?V (k + 1)") (simp_all del: reach.simps add: finished_def)
  qed
qed

lemma prev_row_update:
  assumes "prev_row a b mx d v" "valid_k d k" "d \<le> mx" "1 \<le> mx"
  shows "prev_row a b mx d (v[nat (k + int mx) := x])"
proof -
  have "nat (k + int mx) \<noteq> nat (j + int mx)" if j: "prev_k d j" for j
  proof -
    have "j \<noteq> k" using j assms(2) by (cases d) (auto simp: prev_k_def valid_k_def)
    moreover have "0 \<le> j + int mx" "0 \<le> k + int mx"
      using prev_k_bound [OF j assms(3,4)] assms(2,3) by (auto simp: valid_k_def)
    ultimately show ?thesis by (simp add: eq_nat_nat_iff)
  qed
  with assms(1) show ?thesis by (simp add: prev_row_def)
qed

lemma row_inv_step:
  assumes "row_inv a b mx d k v" "valid_k d k" "\<not> finished a b d k" "d \<le> mx" "1 \<le> mx"
  shows "row_inv a b mx d (k + 2) (v[nat (k + int mx) := reach a b d k])"
    (is "row_inv _ _ _ _ _ ?v")
proof -
  have p: "prev_row a b mx d v" using assms(1) by (simp add: row_inv_def)
  have len: "nat (k + int mx) < length v"
    using p assms(2,4) by (auto simp: valid_k_def prev_row_def)
  have "?v ! nat (j + int mx) = reach a b d j \<and> \<not> finished a b d j" if j: "valid_k d j" "j < k + 2" for j
  proof (cases "j = k")
    case True
    with len assms(3) show ?thesis by simp
  next
    case False
    have "j < k" using j False assms(2) unfolding valid_k_def by presburger
    moreover have "nat (k + int mx) \<noteq> nat (j + int mx)"
      using False j(1) assms(2,4) by (auto simp: valid_k_def eq_nat_nat_iff)
    ultimately show ?thesis using assms(1) j(1) by (simp add: row_inv_def)
  qed
  with prev_row_update [OF p assms(2,4,5)] show ?thesis by (simp add: row_inv_def)
qed

lemma myers_row_spec:
  assumes "row_inv a b mx d k v" "valid_k d k \<or> k = int d + 2" "d \<le> mx" "1 \<le> mx"
  shows "\<exists>found v'. myers_row a b (int mx) (int d) k v = Some (found, v') \<and> prev_row a b mx d v'
    \<and> (if found then \<exists>j. valid_k d j \<and> finished a b d j \<and> (\<forall>i. valid_k d i \<longrightarrow> i < j \<longrightarrow> \<not> finished a b d i)
       else row_inv a b mx d (int d + 2) v')"
  using assms(1,2)
proof (induction "nat (int d + 2 - k)" arbitrary: k v rule: less_induct)
  case less
  let ?v = "v[nat (k + int mx) := reach a b d k]"
  have p: "prev_row a b mx d v" using less.prems(1) by (simp add: row_inv_def)
  show ?case
  proof (cases "valid_k d k")
    case False
    with less.prems have "k = int d + 2" by simp
    then have "myers_row a b (int mx) (int d) k v = Some (False, v)" by (subst myers_row.simps) simp
    with \<open>k = int d + 2\<close> p less.prems(1) show ?thesis
      by (intro exI [of _ False] exI [of _ v]) simp
  next
    case True
    note u = myers_row_unfold [OF p True assms(3,4)] prev_row_update [OF p True assms(3,4)]
    show ?thesis
    proof (cases "finished a b d k")
      case fin: True
      have "\<forall>i. valid_k d i \<longrightarrow> i < k \<longrightarrow> \<not> finished a b d i"
        using less.prems(1) by (simp add: row_inv_def)
      with True fin have "\<exists>j. valid_k d j \<and> finished a b d j \<and> (\<forall>i. valid_k d i \<longrightarrow> i < j \<longrightarrow> \<not> finished a b d i)"
        by blast
      with u(2) show ?thesis
        by (intro exI [of _ True] exI [of _ ?v]) (simp only: u(1) fin if_True simp_thms)
    next
      case fin: False
      have "nat (int d + 2 - (k + 2)) < nat (int d + 2 - k)" using True by (auto simp: valid_k_def)
      moreover have "valid_k d (k + 2) \<or> k + 2 = int d + 2"
        using True by (rule valid_k_next)
      ultimately show ?thesis
        using less.hyps [of "k + 2" ?v] row_inv_step [OF less.prems(1) True fin assms(3,4)]
        by (simp only: u(1) fin if_False)
    qed
  qed
qed

definition trace_ok :: "line list \<Rightarrow> line list \<Rightarrow> nat \<Rightarrow> int list list \<Rightarrow> bool" where
  "trace_ok a b mx trace \<longleftrightarrow> (\<forall>e < length trace. prev_row a b mx e (trace ! e))"

lemma trace_ok_snoc: "trace_ok a b mx trace \<Longrightarrow> prev_row a b mx (length trace) v \<Longrightarrow> trace_ok a b mx (trace @ [v])"
  by (auto simp: trace_ok_def nth_append less_Suc_eq)

lemma row_inv_Suc:
  assumes "row_inv a b mx d (int d + 2) v"
  shows "row_inv a b mx (Suc d) (- int (Suc d)) v" and "valid_k d j \<Longrightarrow> \<not> finished a b d j"
proof -
  have "j < int d + 2" if "valid_k d j" for j using that by (auto simp: valid_k_def)
  with assms show "valid_k d j \<Longrightarrow> \<not> finished a b d j" by (simp add: row_inv_def)
  have "\<not> j < - int (Suc d)" if "valid_k (Suc d) j" for j using that by (auto simp: valid_k_def)
  with assms \<open>\<And>j. valid_k d j \<Longrightarrow> j < int d + 2\<close> show "row_inv a b mx (Suc d) (- int (Suc d)) v"
    by (simp add: row_inv_def prev_row_def)
qed

lemma myers_rows_spec:
  assumes "trace_ok a b mx trace" "row_inv a b mx (length trace) (- int (length trace)) v"
    "\<forall>e j. e < length trace \<longrightarrow> valid_k e j \<longrightarrow> \<not> finished a b e j"
    "length trace \<le> mx" "1 \<le> mx" "\<exists>j. valid_k mx j \<and> finished a b mx j"
  shows "\<exists>trace' d k. myers_rows a b (int mx) (int (length trace)) trace v = Some trace'
    \<and> length trace' = Suc d \<and> trace_ok a b mx trace' \<and> first_finished a b d k"
  using assms(1-4)
proof (induction "mx - length trace" arbitrary: trace v rule: less_induct)
  case less
  let ?d = "length trace"
  have "valid_k ?d (- int ?d)" by (simp add: valid_k_def)
  then obtain found v' where row: "myers_row a b (int mx) (int ?d) (- int ?d) v = Some (found, v')"
    and p: "prev_row a b mx ?d v'"
    and out: "if found then \<exists>j. valid_k ?d j \<and> finished a b ?d j \<and> (\<forall>i. valid_k ?d i \<longrightarrow> i < j \<longrightarrow> \<not> finished a b ?d i)
       else row_inv a b mx ?d (int ?d + 2) v'"
    using myers_row_spec [OF less.prems(2) _ less.prems(4) assms(5)] by blast
  have ok: "trace_ok a b mx (trace @ [v'])" by (rule trace_ok_snoc [OF less.prems(1) p])
  have u: "myers_rows a b (int mx) (int ?d) trace v =
    (if found then Some (trace @ [v']) else myers_rows a b (int mx) (int ?d + 1) (trace @ [v']) v')"
    using less.prems(4) by (subst myers_rows.simps) (simp add: row)
  show ?case
  proof (cases found)
    case True
    with out less.prems(3) obtain j where "first_finished a b ?d j"
      by (auto simp: first_finished_def)
    with True ok show ?thesis by (intro exI [of _ "trace @ [v']"] exI [of _ ?d] exI [of _ j]) (simp add: u)
  next
    case False
    with out have inv: "row_inv a b mx ?d (int ?d + 2) v'" by simp
    have none: "\<not> finished a b ?d j" if "valid_k ?d j" for j by (rule row_inv_Suc(2) [OF inv that])
    with assms(6) less.prems(4) have lt: "?d < mx" by (metis le_neq_implies_less)
    show ?thesis
      using less.hyps [of "trace @ [v']" v'] row_inv_Suc(1) [OF inv] none less.prems(3) lt ok False
      by (simp add: u less_Suc_eq algebra_simps)
  qed
qed

section \<open>The way back\<close>

definition segment :: "'a list \<Rightarrow> int \<Rightarrow> int \<Rightarrow> 'a list" where
  "segment a s x = drop (nat s) (take (nat x) a)"

lemma segment_same [simp]: "segment a x x = []"
  by (simp add: segment_def)

lemma segment_snoc:
  assumes "0 \<le> s" "s < x" "x \<le> int (length a)"
  shows "segment a s x = segment a s (x - 1) @ [a ! nat (x - 1)]"
proof -
  have "nat x = Suc (nat (x - 1))" "nat (x - 1) < length a" using assms by auto
  then have "take (nat x) a = take (nat (x - 1)) a @ [a ! nat (x - 1)]"
    by (simp add: take_Suc_conv_app_nth)
  moreover have "nat s \<le> length (take (nat (x - 1)) a)" using assms by auto
  ultimately show ?thesis by (simp add: segment_def)
qed

lemma take_segment: "0 \<le> s \<Longrightarrow> s \<le> x \<Longrightarrow> take (nat s) a @ segment a s x = take (nat x) a"
  by (metis append_take_drop_id min.absorb1 nat_mono segment_def take_take)

lemma walk_diagonal_spec:
  assumes "s \<le> x" "0 \<le> s" "x \<le> int (length a)"
    "px \<le> s" "py \<le> s - k" "s = px \<or> s - k = py"
  shows "walk_diagonal a x (x - k) px py ops = Some (s, s - k, map Equal (segment a s x) @ ops)"
  using assms(1,3)
proof (induction "nat (x - s)" arbitrary: x ops)
  case 0
  then have "x = s" by simp
  then show ?case using assms by (subst walk_diagonal.simps) auto
next
  case (Suc n)
  then have x: "s < x" "n = nat (x - 1 - s)" by simp_all
  have "walk_diagonal a x (x - k) px py ops
    = walk_diagonal a (x - 1) (x - 1 - k) px py (Equal (a ! nat (x - 1)) # ops)"
    using x Suc.prems assms by (subst walk_diagonal.simps) (simp add: aget_def algebra_simps)
  also have "\<dots> = Some (s, s - k, map Equal (segment a s (x - 1)) @ Equal (a ! nat (x - 1)) # ops)"
    using x Suc.prems by (intro Suc.hyps) simp_all
  finally show ?case using segment_snoc [of s x a] x Suc.prems assms by simp
qed

lemma segment_slide:
  assumes "0 \<le> s" "k \<le> s" "s \<le> x" "x \<le> slide a b s k" "x \<le> int (length a)" "x - k \<le> int (length b)"
  shows "segment b (s - k) (x - k) = segment a s x"
  using assms(3-)
proof (induction "nat (x - s)" arbitrary: x)
  case 0
  then show ?case by simp
next
  case (Suc n)
  then have x: "s < x" "n = nat (x - 1 - s)" by simp_all
  have "segment b (s - k) (x - 1 - k) = segment a s (x - 1)"
    using x Suc.prems by (intro Suc.hyps) simp_all
  moreover have "a ! nat (x - 1) = b ! nat (x - 1 - k)"
    using slide_equal [of s "x - 1" a b k] x Suc.prems by (simp add: can_slide_def)
  ultimately show ?case
    using segment_snoc [of s x a] segment_snoc [of "s - k" "x - k" b] x Suc.prems assms(1,2)
    by (simp add: algebra_simps)
qed

lemma script_map_Equal [simp]:
  "old_lines (map Equal a) = a" "new_lines (map Equal a) = a" "edit_count (map Equal a) = 0"
  by (induction a) simp_all

definition script_for :: "line list \<Rightarrow> line list \<Rightarrow> nat \<Rightarrow> diff_op list \<Rightarrow> bool" where
  "script_for a b d ops \<longleftrightarrow> old_lines ops = a \<and> new_lines ops = b \<and> edit_count ops = d"

lemma script_extend_equal:
  assumes "script_for (take (nat s) a) (take (nat (s - k)) b) d p"
    "0 \<le> s" "k \<le> s" "s \<le> x" "x \<le> slide a b s k" "x \<le> int (length a)" "x - k \<le> int (length b)"
  shows "script_for (take (nat x) a) (take (nat (x - k)) b) d (p @ map Equal (segment a s x))"
  using assms take_segment [of s x a] take_segment [of "s - k" "x - k" b] segment_slide [OF assms(2-)]
  by (simp add: script_for_def)

lemma script_extend_insert:
  assumes "script_for a' (take (nat y) b) d p" "0 \<le> y" "y < int (length b)"
  shows "script_for a' (take (nat (y + 1)) b) (Suc d) (p @ [Insert (b ! nat y)])"
  using assms by (simp add: script_for_def nat_add_distrib take_Suc_conv_app_nth)

lemma script_extend_delete:
  assumes "script_for (take (nat x) a) b' d p" "0 \<le> x" "x < int (length a)"
  shows "script_for (take (nat (x + 1)) a) b' (Suc d) (p @ [Delete (a ! nat x)])"
  using assms by (simp add: script_for_def nat_add_distrib take_Suc_conv_app_nth)

lemma backtrack_choice:
  assumes "prev_row a b mx d v" "valid_k d k" "d \<le> mx" "1 \<le> mx"
  defines "V \<equiv> prev_reach a b d"
  defines "pk \<equiv> (if k = - int d \<or> (k \<noteq> int d \<and> V (k - 1) < V (k + 1)) then k + 1 else k - 1)"
  shows "(if k = - int d then Some (k + 1) else if k = int d then Some (k - 1)
      else (case aget v (k - 1 + int mx) of None \<Rightarrow> None
        | Some p \<Rightarrow> (case aget v (k + 1 + int mx) of None \<Rightarrow> None
          | Some q \<Rightarrow> Some (if p < q then k + 1 else k - 1)))) = Some pk" (is ?A)
    and "aget v (pk + int mx) = Some (V pk)" (is ?B)
proof -
  have up: "k = - int d \<or> k \<noteq> int d \<Longrightarrow> aget v (k + 1 + int mx) = Some (V (k + 1))"
    unfolding V_def using prev_row_get [OF assms(1) prev_k_neighbours(1) [OF assms(2)] assms(3,4)] .
  have left: "k \<noteq> - int d \<Longrightarrow> aget v (k - 1 + int mx) = Some (V (k - 1))"
    unfolding V_def using prev_row_get [OF assms(1) prev_k_neighbours(2) [OF assms(2)] assms(3,4)] .
  from up left show ?A by (auto simp: pk_def)
  from up left show ?B by (auto simp: pk_def)
qed

lemma backtrack_0:
  assumes "prev_row a b mx 0 (trace ! 0)" "0 < length trace" "1 \<le> mx"
    "x = reach a b 0 0" "x \<le> int (length a)" "x \<le> int (length b)"
  shows "\<exists>p. backtrack a b (int mx) trace (Suc 0) x x ops = Some (p @ ops)
    \<and> script_for (take (nat x) a) (take (nat x) b) 0 p"
proof -
  have "aget (trace ! 0) (1 + int mx) = Some 0"
    using backtrack_choice(2) [OF assms(1), of 0] assms(3) by (simp add: prev_reach_def)
  moreover have "walk_diagonal a x x 0 (- 1) ops = Some (0, 0, map Equal (segment a 0 x) @ ops)"
    using walk_diagonal_spec [of 0 x a 0 "- 1" 0 ops] slide_ge [of 0 a b 0] assms by simp
  moreover have "script_for (take (nat x) a) (take (nat x) b) 0 (map Equal (segment a 0 x))"
    using script_extend_equal [of 0 a 0 b 0 "[]" x] slide_ge [of 0 a b 0] assms
    by (simp add: script_for_def [of "[]"])
  ultimately show ?thesis using assms(2) by (simp add: aget_def)
qed

lemma backtrack_Suc_down:
  assumes "prev_row a b mx (Suc e) (trace ! Suc e)" "Suc e < length trace" "Suc e \<le> mx"
    and k: "valid_k (Suc e) k" "k = - int (Suc e) \<or> (k \<noteq> int (Suc e) \<and> reach a b e (k - 1) < reach a b e (k + 1))"
    and x: "x = reach a b (Suc e) k" "x \<le> int (length a)" "x - k \<le> int (length b)"
  defines "s \<equiv> reach a b e (k + 1)"
  shows "backtrack a b (int mx) trace (Suc (Suc e)) x (x - k) ops
    = backtrack a b (int mx) trace (Suc e) s (s - (k + 1))
        (Insert (b ! nat (s - (k + 1))) # map Equal (segment a s x) @ ops)"
    and "x = slide a b s k" and "valid_k e (k + 1)" and "0 \<le> s" "k + 1 \<le> s" "s \<le> x"
proof -
  show v: "valid_k e (k + 1)" using valid_k_Suc(1) [OF k(1)] k(2) by auto
  show xs: "x = slide a b s k" using x(1) k(2) by (auto simp: s_def move_start_def)
  show s: "0 \<le> s" "k + 1 \<le> s" using reach_nonneg [OF v, of a b] by (simp_all add: s_def)
  show sx: "s \<le> x" using slide_ge [of s a b k] xs by simp
  have "aget trace (int (Suc e)) = Some (trace ! Suc e)"
    using assms(2) by (simp add: aget_def del: of_nat_Suc)
  moreover have "aget b (s - (k + 1)) = Some (b ! nat (s - (k + 1)))"
    using s sx x(3) by (simp add: aget_def)
  moreover have "walk_diagonal a x (x - k) s (s - (k + 1)) ops = Some (s, s - k, map Equal (segment a s x) @ ops)"
    using walk_diagonal_spec [of s x a s "s - (k + 1)" k ops] sx s x(2) by simp
  ultimately show "backtrack a b (int mx) trace (Suc (Suc e)) x (x - k) ops
    = backtrack a b (int mx) trace (Suc e) s (s - (k + 1))
        (Insert (b ! nat (s - (k + 1))) # map Equal (segment a s x) @ ops)"
    using backtrack_choice [OF assms(1) k(1) assms(3)] k(2) assms(3)
    by (subst backtrack.simps) (simp del: backtrack.simps of_nat_Suc add: Let_def s_def)
qed

lemma backtrack_Suc_right:
  assumes "prev_row a b mx (Suc e) (trace ! Suc e)" "Suc e < length trace" "Suc e \<le> mx"
    and k: "valid_k (Suc e) k"
      "\<not> (k = - int (Suc e) \<or> (k \<noteq> int (Suc e) \<and> reach a b e (k - 1) < reach a b e (k + 1)))"
    and x: "x = reach a b (Suc e) k" "x \<le> int (length a)" "x - k \<le> int (length b)"
  defines "r \<equiv> reach a b e (k - 1)"
  shows "backtrack a b (int mx) trace (Suc (Suc e)) x (x - k) ops
    = backtrack a b (int mx) trace (Suc e) r (r - (k - 1))
        (Delete (a ! nat r) # map Equal (segment a (r + 1) x) @ ops)"
    and "x = slide a b (r + 1) k" and "valid_k e (k - 1)" and "0 \<le> r" "k \<le> r + 1" "r + 1 \<le> x"
proof -
  show v: "valid_k e (k - 1)" using valid_k_Suc(2) [OF k(1)] k(2) by auto
  show xs: "x = slide a b (r + 1) k" using x(1) k(2) by (auto simp: r_def move_start_def)
  show r: "0 \<le> r" "k \<le> r + 1" using reach_nonneg [OF v, of a b] by (simp_all add: r_def)
  show rx: "r + 1 \<le> x" using slide_ge [of "r + 1" a b k] xs by simp
  have "aget trace (int (Suc e)) = Some (trace ! Suc e)"
    using assms(2) by (simp add: aget_def del: of_nat_Suc)
  moreover have "aget a r = Some (a ! nat r)"
    using r rx x(2) by (simp add: aget_def)
  moreover have "walk_diagonal a x (x - k) r (r - (k - 1)) ops
      = Some (r + 1, r + 1 - k, map Equal (segment a (r + 1) x) @ ops)"
    using walk_diagonal_spec [of "r + 1" x a r "r - (k - 1)" k ops] rx r x(2) by simp
  ultimately show "backtrack a b (int mx) trace (Suc (Suc e)) x (x - k) ops
    = backtrack a b (int mx) trace (Suc e) r (r - (k - 1))
        (Delete (a ! nat r) # map Equal (segment a (r + 1) x) @ ops)"
    using backtrack_choice [OF assms(1) k(1) assms(3)] k(2) assms(3)
    by (subst backtrack.simps) (simp del: backtrack.simps of_nat_Suc add: Let_def r_def)
qed

lemma backtrack_spec:
  assumes "trace_ok a b mx trace" "d < length trace" "d \<le> mx" "1 \<le> mx" "valid_k d k"
    "x = reach a b d k" "x \<le> int (length a)" "x - k \<le> int (length b)"
  shows "\<exists>p. backtrack a b (int mx) trace (Suc d) x (x - k) ops = Some (p @ ops)
    \<and> script_for (take (nat x) a) (take (nat (x - k)) b) d p"
  using assms(2-)
proof (induction d arbitrary: x k ops)
  case 0
  then show ?case using backtrack_0 [of a b mx trace x ops] assms(1) by (simp add: trace_ok_def)
next
  case (Suc e)
  have p: "prev_row a b mx (Suc e) (trace ! Suc e)" using assms(1) Suc.prems(1) by (simp add: trace_ok_def)
  show ?case
  proof (cases "k = - int (Suc e) \<or> (k \<noteq> int (Suc e) \<and> reach a b e (k - 1) < reach a b e (k + 1))")
    case True
    let ?s = "reach a b e (k + 1)"
    let ?ops = "Insert (b ! nat (?s - (k + 1))) # map Equal (segment a ?s x) @ ops"
    note dn = backtrack_Suc_down [OF p Suc.prems(1,2,4) True Suc.prems(5-7)]
    obtain q where q: "backtrack a b (int mx) trace (Suc e) ?s (?s - (k + 1)) ?ops = Some (q @ ?ops)"
        "script_for (take (nat ?s) a) (take (nat (?s - (k + 1))) b) e q"
      using Suc.IH [of "k + 1" ?s ?ops] Suc.prems dn(3-) by auto
    have "script_for (take (nat ?s) a) (take (nat (?s - k)) b) (Suc e) (q @ [Insert (b ! nat (?s - (k + 1)))])"
      using script_extend_insert [OF q(2)] dn(4-) Suc.prems(7) by simp
    from script_extend_equal [OF this, of x] dn(2,4-) Suc.prems(6,7) q(1) show ?thesis
      unfolding dn(1) by auto
  next
    case False
    let ?r = "reach a b e (k - 1)"
    let ?ops = "Delete (a ! nat ?r) # map Equal (segment a (?r + 1) x) @ ops"
    note rt = backtrack_Suc_right [OF p Suc.prems(1,2,4) False Suc.prems(5-7)]
    obtain q where q: "backtrack a b (int mx) trace (Suc e) ?r (?r - (k - 1)) ?ops = Some (q @ ?ops)"
        "script_for (take (nat ?r) a) (take (nat (?r - (k - 1))) b) e q"
      using Suc.IH [of "k - 1" ?r ?ops] Suc.prems rt(3-) by auto
    have "script_for (take (nat (?r + 1)) a) (take (nat (?r + 1 - k)) b) (Suc e) (q @ [Delete (a ! nat ?r)])"
      using script_extend_delete [OF q(2)] rt(4-) Suc.prems(6) by (simp add: algebra_simps)
    from script_extend_equal [OF this, of x] rt(2,4-) Suc.prems(6,7) q(1) show ?thesis
      unfolding rt(1) by auto
  qed
qed

section \<open>Every script is a path of the recurrence\<close>

lemma reach_maximal: "\<not> can_slide a b (reach a b d k) k"
  by (cases d) (simp_all add: slide_maximal)

lemma script_reach:
  "prefix (old_lines ops) a \<Longrightarrow> prefix (new_lines ops) b \<Longrightarrow>
     valid_k (edit_count ops) (int (length (old_lines ops)) - int (length (new_lines ops)))
     \<and> int (length (old_lines ops))
         \<le> reach a b (edit_count ops) (int (length (old_lines ops)) - int (length (new_lines ops)))"
proof (induction ops rule: rev_induct)
  case Nil
  then show ?case using slide_ge [of 0 a b 0] by simp
next
  case (snoc u p)
  let ?x = "int (length (old_lines p))" and ?y = "int (length (new_lines p))" and ?e = "edit_count p"
  have IH: "valid_k ?e (?x - ?y)" "?x \<le> reach a b ?e (?x - ?y)"
    using snoc.IH snoc.prems by (auto dest: append_prefixD)
  show ?case
  proof (cases u)
    case (Equal l)
    obtain a' b' where "a = old_lines p @ l # a'" "b = new_lines p @ l # b'"
      using snoc.prems Equal by (auto elim!: prefixE)
    then have "can_slide a b ?x (?x - ?y)" by (simp add: can_slide_def nth_append)
    with reach_maximal [of a b ?e "?x - ?y"] have "reach a b ?e (?x - ?y) \<noteq> ?x" by metis
    with IH Equal show ?thesis by simp
  next
    case (Delete l)
    with IH reach_right [OF IH(1), of a b] valid_k_step(1) [OF IH(1)] show ?thesis
      by (simp add: algebra_simps)
  next
    case (Insert l)
    with IH reach_down [OF IH(1), of a b] valid_k_step(2) [OF IH(1)] show ?thesis
      by (simp add: algebra_simps)
  qed
qed

lemma first_finished_least:
  assumes "first_finished a b d k" "old_lines ops = a" "new_lines ops = b"
  shows "d \<le> edit_count ops"
proof (rule ccontr)
  assume "\<not> d \<le> edit_count ops"
  moreover have "valid_k (edit_count ops) (int (length a) - int (length b))"
      "finished a b (edit_count ops) (int (length a) - int (length b))"
    using script_reach [of ops a b] assms(2,3) by (simp_all add: finished_def)
  ultimately show False using assms(1) by (auto simp: first_finished_def)
qed

lemma edit_count_lower:
  "length (old_lines ops) \<le> length (new_lines ops) + edit_count ops
   \<and> length (new_lines ops) \<le> length (old_lines ops) + edit_count ops"
  by (induction ops rule: edit_count.induct) auto

lemma row_inv_init:
  assumes "1 \<le> mx"
  shows "row_inv a b mx 0 0 (replicate (2 * mx + 1) 0)"
proof -
  have "replicate (2 * mx + 1) (0::int) ! nat (1 + int mx) = 0"
    by (rule nth_replicate) (use assms in simp)
  then show ?thesis
    by (simp del: replicate_Suc replicate.simps add: row_inv_def prev_row_def prev_k_def prev_reach_def)
qed

lemma myers_rows_from_start:
  assumes "1 \<le> length a + length b"
  shows "\<exists>trace d k. myers_rows a b (int (length a + length b)) 0 [] (replicate (2 * (length a + length b) + 1) 0)
      = Some trace
    \<and> length trace = Suc d \<and> trace_ok a b (length a + length b) trace \<and> first_finished a b d k"
proof -
  have "row_inv a b (length a + length b) (length ([] :: int list list)) (- int (length ([] :: int list list)))
      (replicate (2 * (length a + length b) + 1) 0)"
    using row_inv_init [OF assms, of a b] by (simp only: list.size semiring_1_class.of_nat_0 minus_zero)
  from myers_rows_spec [OF _ this _ _ assms finished_exists] show ?thesis
    by (simp only: list.size semiring_1_class.of_nat_0 trace_ok_def not_less0 simp_thms le0)
qed

lemma myers_main:
  assumes "a \<noteq> []" "b \<noteq> []" "length a + length b \<le> MAX_DIFF_LINES"
  shows "\<exists>ops. myers a b = Some ops \<and> old_lines ops = a \<and> new_lines ops = b
    \<and> (\<forall>ops'. old_lines ops' = a \<longrightarrow> new_lines ops' = b \<longrightarrow> edit_count ops \<le> edit_count ops')"
proof -
  let ?mx = "length a + length b"
  have mx: "1 \<le> ?mx" using assms(1) by (cases a) auto
  then obtain trace d k where t: "myers_rows a b (int ?mx) 0 [] (replicate (2 * ?mx + 1) 0) = Some trace"
      "length trace = Suc d" "trace_ok a b ?mx trace" "first_finished a b d k"
    using myers_rows_from_start [of a b] by blast
  have v: "valid_k d k" using t(4) by (simp add: first_finished_def)
  have x: "int (length a) = reach a b d k" and k: "int (length a) - k = int (length b)"
    using first_finished_exact [OF t(4)] by auto
  have "d \<le> ?mx"
    using first_finished_least [OF t(4), of "map Delete a @ map Insert b"] by simp
  from backtrack_spec [OF t(3) _ this mx v x, of "[]"] t(2)
  obtain p where p: "backtrack a b (int ?mx) trace (Suc d) (int (length a)) (int (length b)) [] = Some p"
      "script_for a b d p"
    unfolding k by (auto simp del: backtrack.simps)
  have "myers a b = Some p"
    using assms t(1,2) p(1)
    by (simp add: myers_def Let_def del: backtrack.simps replicate_Suc replicate.simps Suc_eq_plus1 add_2_eq_Suc' One_nat_def)
  with p(2) first_finished_least [OF t(4)] show ?thesis by (auto simp: script_for_def)
qed

section \<open>Correctness of the diff\<close>

lemma myers_script: "\<exists>ops. myers a b = Some ops \<and> old_lines ops = a \<and> new_lines ops = b"
proof (cases "a = [] \<or> b = [] \<or> length a + length b > MAX_DIFF_LINES")
  case True
  then show ?thesis by (auto simp: myers_def Let_def)
next
  case False
  then show ?thesis using myers_main [of a b] by auto
qed

text \<open>C6: \<open>myers\<close> returns for every pair of line lists, without an index out of range, and the script
  it returns is an edit script from \<open>a\<close> to \<open>b\<close>: its equal and deleted lines are \<open>a\<close> and its equal and
  inserted lines are \<open>b\<close>, in order. This covers the three trivial cases and the coarse fallback above
  \<open>MAX_DIFF_LINES\<close>.\<close>
theorem myers_correct: "\<exists>ops. myers a b = Some ops \<and> old_lines ops = a \<and> new_lines ops = b"
  by (rule myers_script)



definition unlines :: "line list \<Rightarrow> bytes" where
  "unlines ls = concat (map (\<lambda>l. l @ [NL]) ls)"

lemma unlines_simps [simp]: "unlines [] = []" "unlines (l # ls) = l @ NL # unlines ls"
    "unlines (ls @ ms) = unlines ls @ unlines ms"
  by (simp_all add: unlines_def)

lemma unlines_split_loop:
  "cur @ buf \<noteq> [] \<Longrightarrow>
     unlines (split_loop cur buf) = cur @ buf @ (if last (cur @ buf) = NL \<and> buf \<noteq> [] then [] else [NL])"
  by (induction cur buf rule: split_loop.induct) (auto split: if_splits)

lemma split_loop_no_NL: "NL \<notin> set cur \<Longrightarrow> l \<in> set (split_loop cur buf) \<Longrightarrow> NL \<notin> set l"
  by (induction cur buf arbitrary: l rule: split_loop.induct) (auto split: if_splits)

lemma unlines_split_lines:
  "unlines (split_lines buf) = (if buf = [] \<or> last buf = NL then buf else buf @ [NL])"
  by (simp add: split_lines_def unlines_split_loop)

text \<open>The diff of two buffers reproduces both of them: the lines of the script on the old side,
  each closed by a newline, are the old buffer, and those on the new side the new buffer, each up to a
  missing final newline, which line splitting does not record.\<close>
theorem diff_lines_rebuild:
  "\<exists>ops. diff_lines a b = Some ops
     \<and> unlines (old_lines ops) = (if a = [] \<or> last a = NL then a else a @ [NL])
     \<and> unlines (new_lines ops) = (if b = [] \<or> last b = NL then b else b @ [NL])"
proof -
  obtain ops where "myers (split_lines a) (split_lines b) = Some ops"
      "old_lines ops = split_lines a" "new_lines ops = split_lines b"
    using myers_script by blast
  then show ?thesis by (simp add: diff_lines_def unlines_split_lines)
qed

end
