(* ===== verification/Hunks.thy ===== *)
theory Hunks
  imports Diff
begin

text \<open>
  \<open>src/diff.rs\<close>: grouping an edit script into the hunks of a unified diff.

  The \<open>while\<close> loops of \<open>group_hunks\<close> that only count equal operations are \<open>takeWhile\<close>; the loop that
  absorbs short equal runs is \<open>absorb\<close>, the outer loop \<open>group_hunks_loop\<close>, over the same indices.
  \<open>apply_hunks\<close> is what a consumer of the hunks does with them: it checks every line number, length and
  context line against the old file and builds the new one.
\<close>

record hunk =
  h_a_start :: nat
  h_a_len :: nat
  h_b_start :: nat
  h_b_len :: nat
  h_ops :: "diff_op list"

definition is_equal :: "diff_op \<Rightarrow> bool" where
  "is_equal op = (case op of Equal _ \<Rightarrow> True | _ \<Rightarrow> False)"

definition eq_run :: "diff_op list \<Rightarrow> nat \<Rightarrow> nat" where
  "eq_run ops j = length (takeWhile is_equal (drop j ops))"

lemma eq_run_pos: "j < length ops \<Longrightarrow> is_equal (ops ! j) \<Longrightarrow> 0 < eq_run ops j"
  by (auto simp: eq_run_def takeWhile_eq_Nil_iff hd_drop_conv_nth)

function absorb :: "nat \<Rightarrow> diff_op list \<Rightarrow> nat \<Rightarrow> nat \<Rightarrow> nat" where
  "absorb ctx ops j last_change =
     (if j < length ops then
        (if is_equal (ops ! j) then
           (if j + eq_run ops j < length ops \<and> eq_run ops j \<le> 2 * ctx
            then absorb ctx ops (j + eq_run ops j) last_change
            else last_change)
         else absorb ctx ops (j + 1) j)
      else last_change)"
  by pat_completeness auto
termination
proof (relation "measure (\<lambda>(ctx, ops, j, last_change). length ops - j)", goal_cases)
  case (2 ctx ops j last_change)
  then show ?case using eq_run_pos [of j ops] by auto
qed simp_all

declare absorb.simps [simp del]

fun side_lens :: "diff_op list \<Rightarrow> nat \<times> nat \<Rightarrow> nat \<times> nat" where
  "side_lens [] (a, b) = (a, b)"
| "side_lens (Equal _ # ops) (a, b) = side_lens ops (a + 1, b + 1)"
| "side_lens (Delete _ # ops) (a, b) = side_lens ops (a + 1, b)"
| "side_lens (Insert _ # ops) (a, b) = side_lens ops (a, b + 1)"

lemma absorb_ge: "last_change \<le> j \<Longrightarrow> last_change \<le> absorb ctx ops j last_change"
  by (induction ctx ops j last_change rule: absorb.induct) (subst absorb.simps, auto)

function group_hunks_loop :: "diff_op list \<Rightarrow> nat \<Rightarrow> nat \<Rightarrow> nat \<Rightarrow> nat \<Rightarrow> hunk list" where
  "group_hunks_loop ops ctx i0 a0 b0 =
     (if i0 < length ops then
        (let skip = eq_run ops i0; i = i0 + skip; a_pos = a0 + skip; b_pos = b0 + skip in
         if i \<ge> length ops then []
         else
           (let lead = length (takeWhile is_equal (take ctx (rev (take i ops))));
                last_change = absorb ctx ops i i;
                trail = length (takeWhile is_equal (take ctx (drop (last_change + 1) ops)));
                trail_end = last_change + 1 + trail;
                hunk_ops = take (trail_end - (i - lead)) (drop (i - lead) ops);
                lens = side_lens hunk_ops (0, 0);
                pos = side_lens (take (trail_end - i) (drop i ops)) (a_pos, b_pos) in
            \<lparr>h_a_start = a_pos - lead + 1, h_a_len = fst lens,
             h_b_start = b_pos - lead + 1, h_b_len = snd lens, h_ops = hunk_ops\<rparr>
            # group_hunks_loop ops ctx trail_end (fst pos) (snd pos)))
      else [])"
  by pat_completeness auto
termination
proof (relation "measure (\<lambda>(ops, ctx, i0, a0, b0). length ops - i0)", goal_cases)
  case (2 ops ctx i0 a0 b0 skip i a_pos b_pos lead last_change trail trail_end)
  then have "i \<le> last_change" using absorb_ge [of i i ctx ops] by simp
  with 2 show ?case by auto
qed simp

declare group_hunks_loop.simps [simp del]

definition group_hunks :: "diff_op list \<Rightarrow> nat \<Rightarrow> hunk list" where
  "group_hunks ops ctx = group_hunks_loop ops ctx 0 0 0"

fun apply_hunks :: "line list \<Rightarrow> nat \<Rightarrow> nat \<Rightarrow> hunk list \<Rightarrow> line list option" where
  "apply_hunks a p q [] = Some (drop p a)"
| "apply_hunks a p q (h # hs) =
     (let s = h_a_start h - 1 in
      if 1 \<le> h_a_start h \<and> 1 \<le> h_b_start h \<and> p \<le> s \<and> h_b_start h - 1 = q + (s - p)
        \<and> s + h_a_len h \<le> length a
        \<and> old_lines (h_ops h) = take (h_a_len h) (drop s a) \<and> length (new_lines (h_ops h)) = h_b_len h
      then map_option (\<lambda>rest. take (s - p) (drop p a) @ new_lines (h_ops h) @ rest)
             (apply_hunks a (s + h_a_len h) (h_b_start h - 1 + h_b_len h) hs)
      else None)"

lemma side_lens_add:
  "side_lens ops (a, b) = (a + length (old_lines ops), b + length (new_lines ops))"
  by (induction ops "(a, b)" arbitrary: a b rule: side_lens.induct) auto

lemma all_equal_lines: "list_all is_equal ops \<Longrightarrow> old_lines ops = new_lines ops"
  by (induction ops rule: old_lines.induct) (auto simp: is_equal_def)

lemma all_equal_length: "list_all is_equal ops \<Longrightarrow> length (old_lines ops) = length ops"
  by (induction ops rule: old_lines.induct) (auto simp: is_equal_def)

definition eq_tail :: "nat \<Rightarrow> diff_op list \<Rightarrow> nat \<Rightarrow> bool" where
  "eq_tail bound ops j \<longleftrightarrow> length ops \<le> j + eq_run ops j \<or> bound \<le> eq_run ops j"

lemma eq_run_end: "j + eq_run ops j < length ops \<Longrightarrow> \<not> is_equal (ops ! (j + eq_run ops j))"
  using nth_length_takeWhile [of is_equal "drop j ops"] by (simp add: eq_run_def)

lemma absorb_spec:
  assumes "last_change < length ops" "j = last_change + 1 \<or> (j < length ops \<and> \<not> is_equal (ops ! j))"
  shows "absorb ctx ops j last_change < length ops \<and> eq_tail (2 * ctx + 1) ops (absorb ctx ops j last_change + 1)"
  using assms
proof (induction ctx ops j last_change rule: absorb.induct)
  case (1 ctx ops j last_change)
  consider (stop) "length ops \<le> j" | (change) "j < length ops" "\<not> is_equal (ops ! j)"
    | (short) "j < length ops" "is_equal (ops ! j)" "j + eq_run ops j < length ops \<and> eq_run ops j \<le> 2 * ctx"
    | (long) "j < length ops" "is_equal (ops ! j)" "\<not> (j + eq_run ops j < length ops \<and> eq_run ops j \<le> 2 * ctx)"
    by linarith
  then show ?case
  proof cases
    case stop
    then have "absorb ctx ops j last_change = last_change" by (subst absorb.simps) simp
    with stop 1(3,4) show ?thesis by (auto simp: eq_tail_def)
  next
    case change
    then have "absorb ctx ops j last_change = absorb ctx ops (j + 1) j" by (subst absorb.simps) simp
    with change 1(2) show ?thesis by simp
  next
    case short
    then have "absorb ctx ops j last_change = absorb ctx ops (j + eq_run ops j) last_change"
      by (subst absorb.simps) simp
    with short 1(1) [OF short] 1(3) eq_run_end [of j ops] show ?thesis by auto
  next
    case long
    then have "absorb ctx ops j last_change = last_change" by (subst absorb.simps) auto
    with long 1(3,4) show ?thesis by (auto simp: eq_tail_def)
  qed
qed

lemma length_takeWhile_take: "length (takeWhile P (take n xs)) = min n (length (takeWhile P xs))"
  by (induction xs arbitrary: n) (auto simp: take_Cons split: nat.splits)

lemma eq_run_shift: "t \<le> eq_run ops j \<Longrightarrow> eq_run ops (j + t) = eq_run ops j - t"
proof (induction t)
  case (Suc t)
  then have l: "j + t < length ops"
    using length_takeWhile_le [of is_equal "drop j ops"] by (simp add: eq_run_def)
  with Suc have "is_equal (ops ! (j + t))"
    by (metis Cons_nth_drop_Suc Suc_leD Suc_le_lessD diff_is_0_eq' eq_run_def length_0_conv linorder_not_less
        takeWhile.simps(2) zero_less_diff)
  moreover have "drop (j + t) ops = ops ! (j + t) # drop (j + Suc t) ops"
    using l by (simp add: Cons_nth_drop_Suc)
  ultimately have "eq_run ops (j + t) = Suc (eq_run ops (j + Suc t))" by (simp add: eq_run_def)
  with Suc show ?case by simp
qed simp

lemma eq_run_le: "j \<le> length ops \<Longrightarrow> j + eq_run ops j \<le> length ops"
  using length_takeWhile_le [of is_equal "drop j ops"] by (simp add: eq_run_def)

lemma take_eq_run: "t \<le> eq_run ops j \<Longrightarrow> list_all is_equal (take t (drop j ops))"
  by (metis eq_run_def list.pred_set min.absorb1 set_takeWhileD takeWhile_eq_take take_take in_set_takeD)

lemma apply_hunks_step:
  assumes "list_all is_equal G" "a = old_lines (A @ G @ K @ Z)"
    "h = \<lparr>h_a_start = length (old_lines A) + length G + 1, h_a_len = length (old_lines K),
          h_b_start = length (new_lines A) + length G + 1, h_b_len = length (new_lines K), h_ops = K\<rparr>"
    "apply_hunks a (length (old_lines (A @ G @ K))) (length (new_lines (A @ G @ K))) hs = Some (new_lines Z)"
  shows "apply_hunks a (length (old_lines A)) (length (new_lines A)) (h # hs) = Some (new_lines (G @ K @ Z))"
  using assms all_equal_lines [OF assms(1)] all_equal_length [OF assms(1)]
  by (simp add: Let_def add.assoc)

lemma apply_hunks_equal:
  assumes "list_all is_equal (drop i ops)"
  shows "apply_hunks (old_lines ops) (length (old_lines (take i ops))) q [] = Some (new_lines (drop i ops))"
proof -
  have "old_lines ops = old_lines (take i ops) @ old_lines (drop i ops)"
    by (metis append_take_drop_id old_lines_append)
  then show ?thesis using all_equal_lines [OF assms] by simp
qed

lemma slices:
  assumes "i \<le> s" "s \<le> e" "e \<le> length ops"
  shows "take i ops @ take (s - i) (drop i ops) @ take (e - s) (drop s ops) @ drop e ops = ops"
    and "take i ops @ take (s - i) (drop i ops) @ take (e - s) (drop s ops) = take e ops"
    and "take (s - i) (drop i ops) @ take (e - s) (drop s ops) @ drop e ops = drop i ops"
  using assms
  by (metis append.assoc append_take_drop_id drop_drop le_add_diff_inverse2 take_add le_add_diff_inverse)+

lemma hunk_bounds:
  assumes "i0 + eq_run ops i0 < length ops" "i0 = 0 \<or> eq_tail ctx ops i0"
  defines "i \<equiv> i0 + eq_run ops i0"
  defines "lead \<equiv> length (takeWhile is_equal (take ctx (rev (take i ops))))"
  defines "lc \<equiv> absorb ctx ops i i"
  defines "e \<equiv> lc + 1 + length (takeWhile is_equal (take ctx (drop (lc + 1) ops)))"
  shows "lead \<le> eq_run ops i0" "i < e" "e \<le> length ops" "eq_tail ctx ops e"
proof -
  have "lead \<le> ctx" "lead \<le> i"
    using length_takeWhile_le [of is_equal "take ctx (rev (take i ops))"] by (simp_all add: lead_def)
  with assms(1,2) show "lead \<le> eq_run ops i0" by (auto simp: i_def eq_tail_def)
  have "\<not> is_equal (ops ! i)" unfolding i_def by (rule eq_run_end [OF assms(1)])
  then have lc: "lc < length ops" "eq_tail (2 * ctx + 1) ops (lc + 1)"
    using absorb_spec [of i ops i ctx] assms(1) by (auto simp: lc_def i_def)
  have e: "e = lc + 1 + min ctx (eq_run ops (lc + 1))"
    by (simp add: e_def eq_run_def length_takeWhile_take)
  show "i < e" using absorb_ge [of i i ctx ops] by (simp add: e lc_def)
  show "e \<le> length ops" using eq_run_le [of "lc + 1" ops] lc(1) by (simp add: e)
  show "eq_tail ctx ops e"
    using lc(2) eq_run_shift [of "min ctx (eq_run ops (lc + 1))" ops "lc + 1"]
    by (auto simp: e eq_tail_def)
qed

lemma group_hunks_loop_unfold:
  assumes "i0 + eq_run ops i0 < length ops" "i0 = 0 \<or> eq_tail ctx ops i0"
    "a0 = length (old_lines (take i0 ops))" "b0 = length (new_lines (take i0 ops))"
  obtains s e where "i0 \<le> s" "s \<le> e" "i0 < e" "e \<le> length ops" "list_all is_equal (take (s - i0) (drop i0 ops))"
    "eq_tail ctx ops e"
    "group_hunks_loop ops ctx i0 a0 b0 =
      \<lparr>h_a_start = a0 + (s - i0) + 1, h_a_len = length (old_lines (take (e - s) (drop s ops))),
       h_b_start = b0 + (s - i0) + 1, h_b_len = length (new_lines (take (e - s) (drop s ops))),
       h_ops = take (e - s) (drop s ops)\<rparr>
      # group_hunks_loop ops ctx e (length (old_lines (take e ops))) (length (new_lines (take e ops)))"
proof -
  define i where "i = i0 + eq_run ops i0"
  define lead where "lead = length (takeWhile is_equal (take ctx (rev (take i ops))))"
  define lc where "lc = absorb ctx ops i i"
  define e where "e = lc + 1 + length (takeWhile is_equal (take ctx (drop (lc + 1) ops)))"
  note b = hunk_bounds [OF assms(1,2), folded i_def lead_def lc_def, folded lead_def lc_def, folded e_def]
  let ?G = "take (i - i0) (drop i0 ops)" and ?K = "take (e - i) (drop i ops)"
  have "list_all is_equal ?G" by (rule take_eq_run) (simp add: i_def)
  from all_equal_lines [OF this] all_equal_length [OF this]
  have gl: "length (old_lines ?G) = i - i0" "length (new_lines ?G) = i - i0"
    using assms(1) by (simp_all add: i_def)
  have te: "take e ops = take i0 ops @ ?G @ ?K"
    using slices(2) [of i0 i e ops] b by (simp add: i_def)
  have pos: "side_lens ?K (a0 + (i - i0), b0 + (i - i0))
      = (length (old_lines (take e ops)), length (new_lines (take e ops)))"
    unfolding side_lens_add te using assms(3,4) gl by simp
  have gap: "list_all is_equal (take (i - lead - i0) (drop i0 ops))"
    by (rule take_eq_run) (simp add: i_def)
  have r: "eq_run ops i0 = i - i0" "i0 \<le> i" "i0 < length ops" using assms(1) by (simp_all add: i_def)
  show thesis
  proof (rule that [of "i - lead" e])
    show "group_hunks_loop ops ctx i0 a0 b0 =
      \<lparr>h_a_start = a0 + (i - lead - i0) + 1, h_a_len = length (old_lines (take (e - (i - lead)) (drop (i - lead) ops))),
       h_b_start = b0 + (i - lead - i0) + 1, h_b_len = length (new_lines (take (e - (i - lead)) (drop (i - lead) ops))),
       h_ops = take (e - (i - lead)) (drop (i - lead) ops)\<rparr>
      # group_hunks_loop ops ctx e (length (old_lines (take e ops))) (length (new_lines (take e ops)))"
      using pos b(1) r assms(1)
      by (subst group_hunks_loop.simps)
        (simp add: Let_def side_lens_add lead_def [symmetric] lc_def [symmetric]
          e_def [symmetric] add.commute [of lead] del: One_nat_def add: One_nat_def [symmetric])
  qed (use b gap assms(1) in \<open>simp_all add: i_def\<close>)
qed

lemma group_hunks_loop_apply:
  assumes "i0 \<le> length ops" "i0 = 0 \<or> eq_tail ctx ops i0"
  shows "apply_hunks (old_lines ops) (length (old_lines (take i0 ops))) (length (new_lines (take i0 ops)))
      (group_hunks_loop ops ctx i0 (length (old_lines (take i0 ops))) (length (new_lines (take i0 ops))))
    = Some (new_lines (drop i0 ops))"
  using assms
proof (induction "length ops - i0" arbitrary: i0 rule: less_induct)
  case less
  show ?case
  proof (cases "i0 + eq_run ops i0 < length ops")
    case False
    then have "list_all is_equal (drop i0 ops)"
      using take_eq_run [of "eq_run ops i0" ops i0] eq_run_le [OF less.prems(1)] by simp
    moreover have "group_hunks_loop ops ctx i0 x y = []" for x y
      using False by (subst group_hunks_loop.simps) (simp add: Let_def)
    ultimately show ?thesis using apply_hunks_equal by simp
  next
    case True
    then obtain s e where se: "i0 \<le> s" "s \<le> e" "i0 < e" "e \<le> length ops" "eq_tail ctx ops e"
      and gap: "list_all is_equal (take (s - i0) (drop i0 ops))"
      and u: "group_hunks_loop ops ctx i0 (length (old_lines (take i0 ops))) (length (new_lines (take i0 ops))) =
      \<lparr>h_a_start = length (old_lines (take i0 ops)) + (s - i0) + 1, h_a_len = length (old_lines (take (e - s) (drop s ops))),
       h_b_start = length (new_lines (take i0 ops)) + (s - i0) + 1, h_b_len = length (new_lines (take (e - s) (drop s ops))),
       h_ops = take (e - s) (drop s ops)\<rparr>
      # group_hunks_loop ops ctx e (length (old_lines (take e ops))) (length (new_lines (take e ops)))"
      by (rule group_hunks_loop_unfold [OF _ less.prems(2) refl refl])
    have IH: "apply_hunks (old_lines ops) (length (old_lines (take e ops))) (length (new_lines (take e ops)))
        (group_hunks_loop ops ctx e (length (old_lines (take e ops))) (length (new_lines (take e ops))))
      = Some (new_lines (drop e ops))"
      using se by (intro less.hyps) auto
    have "length (take (s - i0) (drop i0 ops)) = s - i0" using se by simp
    with IH gap se show ?thesis
      unfolding u by (subst slices(3) [OF se(1,2,4), symmetric], intro apply_hunks_step)
        (simp_all only: slices [OF se(1,2,4)] append_take_drop_id)
  qed
qed


end
