(* ===== verification/Merge3.thy ===== *)
theory Merge3
  imports Diff Hash
begin

text \<open>
  \<open>src/merge3.rs\<close>: the three-way merge of lines and of trees.

  The main loop of \<open>merge_lines\<close> does not always advance, so it runs on fuel: \<open>Diverge\<close> is a loop still
  running when the fuel is used up, \<open>Panic\<close> an index out of range. An \<open>EditMap\<close> is only read by key and
  is a map. The trees of \<open>merge_trees\<close> are \<open>BTreeMap\<close>s: association lists read by \<open>map_of\<close>, whose keys
  are paths as lists of components, the order of \<open>PathBuf\<close>. The callback \<open>resolve_content\<close> is a
  parameter with a state of its own, since it writes objects.
\<close>

section \<open>Lines\<close>

datatype merge_chunk =
    Unchanged "line list"
  | Conflict (conflict_ours: "line list") (conflict_base: "line list") (conflict_theirs: "line list")

record line_merge =
  lm_chunks :: "merge_chunk list"
  lm_clean :: bool

type_synonym edit_map = "nat \<rightharpoonup> nat \<times> line list"

fun walk_run :: "diff_op list \<Rightarrow> nat \<Rightarrow> line list \<Rightarrow> (nat \<times> line list) \<times> diff_op list" where
  "walk_run (Delete _ # ops) del ins = walk_run ops (del + 1) ins"
| "walk_run (Insert l # ops) del ins = walk_run ops del (ins @ [l])"
| "walk_run (Equal l # ops) del ins = ((del, ins), Equal l # ops)"
| "walk_run [] del ins = ((del, ins), [])"

lemma walk_run_length: "length (snd (walk_run ops del ins)) \<le> length ops"
  by (induction ops del ins rule: walk_run.induct) auto

function walk_edits_loop :: "diff_op list \<Rightarrow> nat \<Rightarrow> edit_map \<Rightarrow> edit_map" where
  "walk_edits_loop [] base_pos out = out"
| "walk_edits_loop (Equal l # ops) base_pos out = walk_edits_loop ops (base_pos + 1) out"
| "walk_edits_loop (Delete l # ops) base_pos out =
     (let r = walk_run (Delete l # ops) 0 [] in
      walk_edits_loop (snd r) (base_pos + fst (fst r)) (out(base_pos \<mapsto> fst r)))"
| "walk_edits_loop (Insert l # ops) base_pos out =
     (let r = walk_run (Insert l # ops) 0 [] in
      walk_edits_loop (snd r) (base_pos + fst (fst r)) (out(base_pos \<mapsto> fst r)))"
  by pat_completeness auto
termination
  by (relation "measure (\<lambda>(ops, base_pos, out). length ops)")
    (auto simp: less_Suc_eq_le intro: order.trans [OF walk_run_length])

definition walk_edits :: "diff_op list \<Rightarrow> edit_map" where
  "walk_edits ops = walk_edits_loop ops 0 Map.empty"

definition edit_at :: "edit_map \<Rightarrow> nat \<Rightarrow> nat \<times> line list" where
  "edit_at edits i = (case edits i of Some e \<Rightarrow> e | None \<Rightarrow> (0, []))"

record merge_state =
  ms_i :: nat
  ms_chunks :: "merge_chunk list"
  ms_buf :: "line list"
  ms_clean :: bool

definition merge_step :: "line list \<Rightarrow> edit_map \<Rightarrow> edit_map \<Rightarrow> merge_state \<Rightarrow> merge_state option" where
  "merge_step base_lines ours_edits theirs_edits st =
     (let i = ms_i st;
          ours_del = fst (edit_at ours_edits i); ours_ins = snd (edit_at ours_edits i);
          theirs_del = fst (edit_at theirs_edits i); theirs_ins = snd (edit_at theirs_edits i) in
      if ours_del = 0 \<and> ours_ins = [] \<and> theirs_del = 0 \<and> theirs_ins = []
      then Some (st\<lparr>ms_i := i + 1, ms_buf := ms_buf st @ [base_lines ! i]\<rparr>)
      else
        (let chunks = (if ms_buf st \<noteq> [] then ms_chunks st @ [Unchanged (ms_buf st)] else ms_chunks st);
             only_ours = (theirs_del = 0 \<and> theirs_ins = []) \<and> \<not> (ours_del = 0 \<and> ours_ins = []);
             only_theirs = (ours_del = 0 \<and> ours_ins = []) \<and> \<not> (theirs_del = 0 \<and> theirs_ins = []);
             del = max ours_del theirs_del in
         if only_ours
         then Some (st\<lparr>ms_i := i + del, ms_chunks := chunks @ [Unchanged ours_ins], ms_buf := []\<rparr>)
         else if only_theirs
         then Some (st\<lparr>ms_i := i + del, ms_chunks := chunks @ [Unchanged theirs_ins], ms_buf := []\<rparr>)
         else if ours_ins = theirs_ins \<and> ours_del = theirs_del
         then Some (st\<lparr>ms_i := i + del, ms_chunks := chunks @ [Unchanged ours_ins], ms_buf := []\<rparr>)
         else if i + del > length base_lines then None
         else Some \<lparr>ms_i = i + del,
                    ms_chunks = chunks @ [Conflict ours_ins (take del (drop i base_lines)) theirs_ins],
                    ms_buf = [], ms_clean = False\<rparr>))"

fun merge_loop :: "nat \<Rightarrow> line list \<Rightarrow> edit_map \<Rightarrow> edit_map \<Rightarrow> merge_state \<Rightarrow> merge_state run" where
  "merge_loop 0 base_lines ours_edits theirs_edits st =
     (if ms_i st < length base_lines then Diverge else Return st)"
| "merge_loop (Suc fuel) base_lines ours_edits theirs_edits st =
     (if ms_i st < length base_lines then
        (case merge_step base_lines ours_edits theirs_edits st of
           None \<Rightarrow> Panic
         | Some st' \<Rightarrow> merge_loop fuel base_lines ours_edits theirs_edits st')
      else Return st)"

definition merge_start :: merge_state where
  "merge_start = \<lparr>ms_i = 0, ms_chunks = [], ms_buf = [], ms_clean = True\<rparr>"

definition merge_tail :: "line list \<Rightarrow> line list \<Rightarrow> merge_chunk list \<Rightarrow> bool \<Rightarrow> line_merge" where
  "merge_tail ours_tail theirs_tail chunks clean =
     (if ours_tail = [] \<and> theirs_tail = [] then \<lparr>lm_chunks = chunks, lm_clean = clean\<rparr>
      else if theirs_tail = [] then \<lparr>lm_chunks = chunks @ [Unchanged ours_tail], lm_clean = clean\<rparr>
      else if ours_tail = [] then \<lparr>lm_chunks = chunks @ [Unchanged theirs_tail], lm_clean = clean\<rparr>
      else if ours_tail = theirs_tail then \<lparr>lm_chunks = chunks @ [Unchanged ours_tail], lm_clean = clean\<rparr>
      else \<lparr>lm_chunks = chunks @ [Conflict ours_tail [] theirs_tail], lm_clean = False\<rparr>)"

definition merge_edits :: "nat \<Rightarrow> line list \<Rightarrow> edit_map \<Rightarrow> edit_map \<Rightarrow> line_merge run" where
  "merge_edits fuel base_lines ours_edits theirs_edits =
     (case merge_loop fuel base_lines ours_edits theirs_edits merge_start of
        Return st \<Rightarrow>
          Return (merge_tail (snd (edit_at ours_edits (length base_lines)))
                             (snd (edit_at theirs_edits (length base_lines)))
                             (if ms_buf st \<noteq> [] then ms_chunks st @ [Unchanged (ms_buf st)] else ms_chunks st)
                             (ms_clean st))
      | Panic \<Rightarrow> Panic
      | Diverge \<Rightarrow> Diverge)"

definition merge_lines :: "nat \<Rightarrow> bytes \<Rightarrow> bytes \<Rightarrow> bytes \<Rightarrow> line_merge run" where
  "merge_lines fuel base ours theirs =
     (if ours = theirs then Return \<lparr>lm_chunks = [Unchanged (split_lines ours)], lm_clean = True\<rparr>
      else if base = ours then Return \<lparr>lm_chunks = [Unchanged (split_lines theirs)], lm_clean = True\<rparr>
      else if base = theirs then Return \<lparr>lm_chunks = [Unchanged (split_lines ours)], lm_clean = True\<rparr>
      else
        (case (myers (split_lines base) (split_lines ours), myers (split_lines base) (split_lines theirs)) of
           (Some ops_ours, Some ops_theirs) \<Rightarrow>
             merge_edits fuel (split_lines base) (walk_edits ops_ours) (walk_edits ops_theirs)
         | _ \<Rightarrow> Panic))"

definition emit_line :: "bytes \<Rightarrow> line \<Rightarrow> bytes" where
  "emit_line out l = out @ l @ (if l \<noteq> [] \<and> last l = NL then [] else [NL])"

definition emit_lines :: "bytes \<Rightarrow> line list \<Rightarrow> bytes" where
  "emit_lines out ls = foldl emit_line out ls"

fun render_chunk :: "bytes \<Rightarrow> bytes \<Rightarrow> bytes \<Rightarrow> merge_chunk \<Rightarrow> bytes" where
  "render_chunk ours_label theirs_label out (Unchanged ls) = emit_lines out ls"
| "render_chunk ours_label theirs_label out (Conflict ours base_lines theirs) =
     emit_lines (emit_lines (out @ ascii ''<<<<<<< '' @ ours_label @ [NL]) ours @ ascii ''======='' @ [NL]) theirs
       @ ascii ''>>>>>>> '' @ theirs_label @ [NL]"

definition render_with_markers :: "line_merge \<Rightarrow> bytes \<Rightarrow> bytes \<Rightarrow> bytes" where
  "render_with_markers m ours_label theirs_label =
     foldl (render_chunk ours_label theirs_label) [] (lm_chunks m)"

section \<open>The edit map of a script\<close>

text \<open>What an edit map does to the lines it was computed for: at a position with an entry, the inserted
  lines are written and the deleted ones skipped.\<close>

function apply_edits :: "edit_map \<Rightarrow> nat \<Rightarrow> line list \<Rightarrow> line list" where
  "apply_edits e i [] = snd (edit_at e i)"
| "apply_edits e i (l # ls) =
     snd (edit_at e i) @
       (case fst (edit_at e i) of
          0 \<Rightarrow> l # apply_edits e (i + 1) ls
        | Suc d \<Rightarrow> apply_edits e (i + 1 + d) (drop d ls))"
  by pat_completeness auto
termination
  by (relation "measure (\<lambda>(e, i, ls). length ls)") auto

lemma walk_run_append: "walk_run ops del ins =
    ((del + fst (fst (walk_run ops 0 [])), ins @ snd (fst (walk_run ops 0 []))), snd (walk_run ops 0 []))"
proof (induction ops arbitrary: del ins)
  case (Cons u ops)
  show ?case
  proof (cases u)
    case (Delete l)
    then show ?thesis using Cons.IH [of "del + 1" ins] Cons.IH [of 1 "[]"] by simp
  next
    case (Insert l)
    then show ?thesis using Cons.IH [of del "ins @ [l]"] Cons.IH [of 0 "[l]"] by simp
  qed simp
qed simp

lemma walk_run_Cons [simp]:
  "walk_run (Delete l # ops) 0 [] =
     ((Suc (fst (fst (walk_run ops 0 []))), snd (fst (walk_run ops 0 []))), snd (walk_run ops 0 []))"
  "walk_run (Insert l # ops) 0 [] =
     ((fst (fst (walk_run ops 0 [])), l # snd (fst (walk_run ops 0 []))), snd (walk_run ops 0 []))"
  using walk_run_append [of ops 1 "[]"] walk_run_append [of ops 0 "[l]"] by simp_all

lemma walk_run_lines:
  "new_lines ops = snd (fst (walk_run ops 0 [])) @ new_lines (snd (walk_run ops 0 []))"
  "old_lines (snd (walk_run ops 0 [])) = drop (fst (fst (walk_run ops 0 []))) (old_lines ops)"
  "fst (fst (walk_run ops 0 [])) \<le> length (old_lines ops)"
  "snd (walk_run ops 0 []) = [] \<or> (\<exists>l r. snd (walk_run ops 0 []) = Equal l # r)"
proof (induction ops)
  case (Cons u ops)
  { case 1 show ?case using Cons.IH(1) by (cases u) (simp_all del: walk_run.simps(1,2)) }
  { case 2 show ?case using Cons.IH(2) by (cases u) (simp_all del: walk_run.simps(1,2)) }
  { case 3 show ?case using Cons.IH(3) by (cases u) (simp_all del: walk_run.simps(1,2)) }
  { case 4 show ?case using Cons.IH(4) by (cases u) (simp_all del: walk_run.simps(1,2)) }
qed simp_all

definition is_change :: "diff_op \<Rightarrow> bool" where
  "is_change u = (case u of Equal _ \<Rightarrow> False | _ \<Rightarrow> True)"

lemma walk_edits_loop_change:
  "is_change u \<Longrightarrow> walk_edits_loop (u # ops) p out =
     (let r = walk_run (u # ops) 0 [] in walk_edits_loop (snd r) (p + fst (fst r)) (out(p \<mapsto> fst r)))"
  by (cases u) (simp_all only: walk_edits_loop.simps, simp add: is_change_def)

lemma walk_edits_induct [case_names Nil Equal Last Run]:
  assumes "\<And>p out. P [] p out"
    and "\<And>l ops p out. P ops (p + 1) out \<Longrightarrow> P (Equal l # ops) p out"
    and "\<And>u ops p out d ins. is_change u \<Longrightarrow> walk_run (u # ops) 0 [] = ((d, ins), []) \<Longrightarrow>
      walk_edits_loop (u # ops) p out = out(p \<mapsto> (d, ins)) \<Longrightarrow> P (u # ops) p out"
    and "\<And>u ops p out d ins l r. is_change u \<Longrightarrow> walk_run (u # ops) 0 [] = ((d, ins), Equal l # r) \<Longrightarrow>
      walk_edits_loop (u # ops) p out = walk_edits_loop r (p + d + 1) (out(p \<mapsto> (d, ins))) \<Longrightarrow>
      P r (p + d + 1) (out(p \<mapsto> (d, ins))) \<Longrightarrow> P (u # ops) p out"
  shows "P ops p out"
proof (induction "length ops" arbitrary: ops p out rule: less_induct)
  case (less ops p out)
  show ?case
  proof (cases ops)
    case (Cons u us)
    show ?thesis
    proof (cases "is_change u")
      case False
      then obtain l where "u = Equal l" by (cases u) (auto simp: is_change_def)
      with less Cons assms(2) show ?thesis by simp
    next
      case True
      obtain d ins rest where r: "walk_run (u # us) 0 [] = ((d, ins), rest)" by (metis prod.collapse)
      note w = walk_edits_loop_change [OF True, of us p out] 
      show ?thesis
      proof (cases rest)
        case Nil
        with assms(3) [OF True] r w show ?thesis by (simp add: Cons)
      next
        case (Cons q r')
        with walk_run_lines(4) [of "u # us"] r obtain l where q: "q = Equal l" by auto
        have "length r' < length ops"
          using walk_run_length [of "u # us" 0 "[]"] r \<open>ops = u # us\<close> Cons by simp
        from less [OF this] assms(4) [OF True, of us d ins l r' p out] r w Cons q show ?thesis
          by (simp add: \<open>ops = u # us\<close>)
      qed
    qed
  qed (simp add: assms(1))
qed

lemma walk_edits_loop_below: "j < p \<Longrightarrow> walk_edits_loop ops p out j = out j"
  by (induction ops p out rule: walk_edits_induct) simp_all

lemma walk_edits_loop_apply:
  "\<forall>j \<ge> p. out j = None \<Longrightarrow> apply_edits (walk_edits_loop ops p out) p (old_lines ops) = new_lines ops"
proof (induction ops p out rule: walk_edits_induct)
  case (Nil p out)
  then show ?case by (simp add: edit_at_def)
next
  case (Equal l ops p out)
  then show ?case by (simp add: edit_at_def walk_edits_loop_below)
next
  case (Last u ops p out d ins)
  then have "old_lines (u # ops) = [] \<and> d = 0 \<or> (\<exists>l ls. old_lines (u # ops) = l # ls \<and> d = Suc (length ls))"
    using walk_run_lines(2,3) [of "u # ops"] by (cases "old_lines (u # ops)") auto
  moreover have "new_lines (u # ops) = ins" using walk_run_lines(1) [of "u # ops"] Last by simp
  ultimately show ?case using Last by (auto simp: edit_at_def)
next
  case (Run u ops p out d ins l r)
  let ?E = "walk_edits_loop r (p + d + 1) (out(p \<mapsto> (d, ins)))"
  have e: "edit_at ?E p = (d, ins)" "0 < d \<Longrightarrow> edit_at ?E (p + d) = (0, [])"
    using Run.prems by (simp_all add: edit_at_def walk_edits_loop_below)
  have nw: "new_lines (u # ops) = ins @ l # new_lines r"
    and od: "drop d (old_lines (u # ops)) = l # old_lines r"
    using walk_run_lines(1,2) [of "u # ops"] Run.hyps(2) by simp_all
  have IH: "apply_edits ?E (p + d + 1) (old_lines r) = new_lines r"
    by (rule Run.IH) (use Run.prems in auto)
  show ?case
  proof (cases d)
    case 0
    then show ?thesis using e nw od IH by (simp add: Run.hyps(3))
  next
    case (Suc d')
    with od obtain l0 ls where o: "old_lines (u # ops) = l0 # ls" "drop d' ls = l # old_lines r"
      by (cases "old_lines (u # ops)") auto
    then show ?thesis using e nw IH Suc by (simp add: Run.hyps(3))
  qed
qed

lemma walk_edits_apply: "apply_edits (walk_edits ops) 0 (old_lines ops) = new_lines ops"
  unfolding walk_edits_def by (rule walk_edits_loop_apply) simp

definition edits_within :: "nat \<Rightarrow> edit_map \<Rightarrow> bool" where
  "edits_within n e \<longleftrightarrow> (\<forall>j d ins. e j = Some (d, ins) \<longrightarrow> j + d \<le> n)"

lemma walk_edits_loop_within:
  "edits_within n out \<Longrightarrow> p + length (old_lines ops) \<le> n \<Longrightarrow> edits_within n (walk_edits_loop ops p out)"
proof (induction ops p out rule: walk_edits_induct)
  case (Last u ops p out d ins)
  have "d \<le> length (old_lines (u # ops))" using walk_run_lines(3) [of "u # ops"] Last.hyps(2) by simp
  with Last.prems show ?case unfolding Last.hyps(3) by (auto simp: edits_within_def)
next
  case (Run u ops p out d ins l r)
  have "drop d (old_lines (u # ops)) = l # old_lines r"
    using walk_run_lines(2) [of "u # ops"] Run.hyps(2) by simp
  from arg_cong [OF this, of length] walk_run_lines(3) [of "u # ops"] Run.hyps(2)
  have "length (old_lines r) + d + 1 = length (old_lines (u # ops))" by simp
  with Run.prems have "edits_within n (out(p \<mapsto> (d, ins)))" "p + d + 1 + length (old_lines r) \<le> n"
    by (auto simp: edits_within_def)
  from Run.IH [OF this] show ?case unfolding Run.hyps(3) .
qed simp_all

lemma walk_edits_within: "edits_within (length (old_lines ops)) (walk_edits ops)"
  unfolding walk_edits_def by (rule walk_edits_loop_within) (simp_all add: edits_within_def)

section \<open>The merge loop\<close>

lemma edits_within_at: "edits_within n e \<Longrightarrow> i \<le> n \<Longrightarrow> i + fst (edit_at e i) \<le> n"
  by (cases "e i") (auto simp: edits_within_def edit_at_def)

lemma merge_step_within:
  assumes "edits_within (length base) oe" "edits_within (length base) te" "ms_i st < length base"
  shows "\<exists>st'. merge_step base oe te st = Some st' \<and> ms_i st' \<le> length base"
  using edits_within_at [OF assms(1), of "ms_i st"] edits_within_at [OF assms(2), of "ms_i st"] assms(3)
  by (auto simp: merge_step_def Let_def)

lemma merge_loop_no_panic:
  assumes "edits_within (length base) oe" "edits_within (length base) te"
  shows "merge_loop fuel base oe te st \<noteq> Panic"
proof (induction fuel arbitrary: st)
  case (Suc fuel)
  show ?case
  proof (cases "ms_i st < length base")
    case True
    with merge_step_within [OF assms, of st] Suc show ?thesis by auto
  qed simp
qed simp

lemma merge_loop_stuck:
  assumes "merge_step base oe te st = Some st'" "ms_i st < length base" "ms_i st' = ms_i st"
    and again: "\<And>s. ms_i s = ms_i st \<Longrightarrow> \<exists>s'. merge_step base oe te s = Some s' \<and> ms_i s' = ms_i st"
  shows "merge_loop fuel base oe te st = Diverge"
proof -
  have "ms_i s = ms_i st \<Longrightarrow> merge_loop fuel base oe te s = Diverge" for s
  proof (induction fuel arbitrary: s)
    case (Suc fuel)
    then obtain s' where "merge_step base oe te s = Some s'" "ms_i s' = ms_i st" using again by blast
    with Suc assms(2) show ?case by simp
  qed (use assms(2) in simp)
  then show ?thesis by simp
qed

definition advancing :: "nat \<Rightarrow> edit_map \<Rightarrow> bool" where
  "advancing n e \<longleftrightarrow> (\<forall>j d ins. e j = Some (d, ins) \<longrightarrow> j < n \<longrightarrow> 0 < d)"

definition apart :: "edit_map \<Rightarrow> edit_map \<Rightarrow> bool" where
  "apart oe te \<longleftrightarrow> (\<forall>j d ins k d' ins'. oe j = Some (d, ins) \<longrightarrow> te k = Some (d', ins') \<longrightarrow>
     j \<noteq> k \<and> (j < k \<longrightarrow> j + d \<le> k) \<and> (k < j \<longrightarrow> k + d' \<le> j))"

fun chunk_lines :: "merge_chunk list \<Rightarrow> line list option" where
  "chunk_lines [] = Some []"
| "chunk_lines (Unchanged ls # cs) = map_option (\<lambda>r. ls @ r) (chunk_lines cs)"
| "chunk_lines (Conflict _ _ _ # cs) = None"

lemma chunk_lines_snoc [simp]:
  "chunk_lines (cs @ [Unchanged ls]) = map_option (\<lambda>r. r @ ls) (chunk_lines cs)"
  by (induction cs rule: chunk_lines.induct) (auto simp: option.map_comp o_def)

lemma edit_at_union:
  assumes "apart oe te"
  shows "oe i = None \<Longrightarrow> edit_at (oe ++ te) i = edit_at te i" "te i = None \<Longrightarrow> edit_at (oe ++ te) i = edit_at oe i"
    and "oe i \<noteq> None \<Longrightarrow> te i = None"
proof -
  show "oe i = None \<Longrightarrow> edit_at (oe ++ te) i = edit_at te i" "te i = None \<Longrightarrow> edit_at (oe ++ te) i = edit_at oe i"
    by (simp_all add: edit_at_def map_add_def split: option.splits)
  show "oe i \<noteq> None \<Longrightarrow> te i = None"
    using assms unfolding apart_def by (metis not_Some_eq surj_pair)
qed

definition merge_progress :: "line list \<Rightarrow> edit_map \<Rightarrow> merge_state \<Rightarrow> line list option" where
  "merge_progress base e st =
     map_option (\<lambda>r. r @ ms_buf st @ apply_edits e (ms_i st) (drop (ms_i st) base)) (chunk_lines (ms_chunks st))"

lemma apply_edits_skip:
  assumes "i < length base" "i + d \<le> length base" "edit_at e i = (d, ins)"
  shows "apply_edits e i (drop i base) = ins @ (if d = 0 then base ! i # apply_edits e (i + 1) (drop (i + 1) base)
    else apply_edits e (i + d) (drop (i + d) base))"
proof -
  have "drop i base = base ! i # drop (i + 1) base" using assms(1) by (simp add: Cons_nth_drop_Suc)
  then show ?thesis using assms(3) by (auto split: nat.splits simp: add.commute)
qed

lemma merge_step_apart:
  assumes "edits_within (length base) oe" "edits_within (length base) te"
    "advancing (length base) oe" "advancing (length base) te" "apart oe te" "ms_i st < length base"
  obtains st' where "merge_step base oe te st = Some st'" "ms_i st < ms_i st'" "ms_i st' \<le> length base"
    "ms_clean st' = ms_clean st" "merge_progress base (oe ++ te) st' = merge_progress base (oe ++ te) st"
proof -
  let ?i = "ms_i st"
  consider (none) "oe ?i = None" "te ?i = None"
    | (ours) d ins where "oe ?i = Some (d, ins)" "te ?i = None"
    | (theirs) d ins where "te ?i = Some (d, ins)" "oe ?i = None"
    using edit_at_union(3) [OF assms(5), of ?i] by (cases "oe ?i"; cases "te ?i") auto
  then show thesis
  proof cases
    case none
    then have "edit_at (oe ++ te) ?i = (0, [])" by (simp add: edit_at_def map_add_def)
    from apply_edits_skip [OF assms(6) _ this] none assms(6) show thesis
      by (intro that [of "st\<lparr>ms_i := ?i + 1, ms_buf := ms_buf st @ [base ! ?i]\<rparr>"])
        (simp_all add: merge_step_def Let_def edit_at_def merge_progress_def)
  next
    case ours
    then have d: "0 < d" "?i + d \<le> length base"
      using assms(1,3,6) unfolding advancing_def edits_within_def by blast+
    have "edit_at (oe ++ te) ?i = (d, ins)" using ours by (simp add: edit_at_def map_add_def)
    from apply_edits_skip [OF assms(6) d(2) this] d ours show thesis
      by (intro that [of "st\<lparr>ms_i := ?i + d, ms_chunks := (if ms_buf st \<noteq> [] then ms_chunks st @ [Unchanged (ms_buf st)]
          else ms_chunks st) @ [Unchanged ins], ms_buf := []\<rparr>"])
        (simp_all add: merge_step_def Let_def edit_at_def merge_progress_def option.map_comp o_def)
  next
    case theirs
    then have d: "0 < d" "?i + d \<le> length base"
      using assms(2,4,6) unfolding advancing_def edits_within_def by blast+
    have "edit_at (oe ++ te) ?i = (d, ins)" using theirs by (simp add: edit_at_def map_add_def)
    from apply_edits_skip [OF assms(6) d(2) this] d theirs show thesis
      by (intro that [of "st\<lparr>ms_i := ?i + d, ms_chunks := (if ms_buf st \<noteq> [] then ms_chunks st @ [Unchanged (ms_buf st)]
          else ms_chunks st) @ [Unchanged ins], ms_buf := []\<rparr>"])
        (simp_all add: merge_step_def Let_def edit_at_def merge_progress_def option.map_comp o_def)
  qed
qed

lemma merge_loop_apart:
  assumes "edits_within (length base) oe" "edits_within (length base) te"
    "advancing (length base) oe" "advancing (length base) te" "apart oe te"
    "ms_i st \<le> length base" "length base \<le> ms_i st + fuel"
  shows "\<exists>st'. merge_loop fuel base oe te st = Return st' \<and> ms_i st' = length base \<and> ms_clean st' = ms_clean st
    \<and> merge_progress base (oe ++ te) st' = merge_progress base (oe ++ te) st"
  using assms(6,7)
proof (induction fuel arbitrary: st)
  case (Suc fuel)
  show ?case
  proof (cases "ms_i st < length base")
    case True
    obtain st' where st': "merge_step base oe te st = Some st'" "ms_i st < ms_i st'" "ms_i st' \<le> length base"
      "ms_clean st' = ms_clean st" "merge_progress base (oe ++ te) st' = merge_progress base (oe ++ te) st"
      by (rule merge_step_apart [OF assms(1-5) True])
    with Suc.IH [of st'] Suc.prems True show ?thesis by simp
  qed (use Suc.prems in simp)
qed simp

lemma emit_lines_unlines: "\<forall>l \<in> set ls. NL \<notin> set l \<Longrightarrow> emit_lines out ls = out @ unlines ls"
proof (induction ls arbitrary: out)
  case (Cons l ls)
  then have "\<not> (l \<noteq> [] \<and> last l = NL)" by (metis last_in_set list.set_intros(1))
  then have "emit_line out l = out @ l @ [NL]" by (simp add: emit_line_def)
  with Cons show ?case by (simp add: emit_lines_def)
qed (simp add: emit_lines_def)

lemma render_chunks_clean:
  "chunk_lines cs = Some ls \<Longrightarrow> \<forall>l \<in> set ls. NL \<notin> set l \<Longrightarrow>
     foldl (render_chunk a b) out cs = out @ unlines ls"
  by (induction cs arbitrary: ls out rule: chunk_lines.induct) (auto simp: emit_lines_unlines)

lemma render_clean:
  "chunk_lines (lm_chunks m) = Some ls \<Longrightarrow> \<forall>l \<in> set ls. NL \<notin> set l \<Longrightarrow>
     render_with_markers m a b = unlines ls"
  by (simp add: render_with_markers_def render_chunks_clean)

lemma merge_edits_apart:
  assumes "edits_within (length base) oe" "edits_within (length base) te"
    "advancing (length base) oe" "advancing (length base) te" "apart oe te" "length base \<le> fuel"
  shows "\<exists>m. merge_edits fuel base oe te = Return m \<and> lm_clean m
    \<and> chunk_lines (lm_chunks m) = Some (apply_edits (oe ++ te) 0 base)"
proof -
  obtain st where st: "merge_loop fuel base oe te merge_start = Return st" "ms_i st = length base" "ms_clean st"
      "merge_progress base (oe ++ te) st = merge_progress base (oe ++ te) merge_start"
    using merge_loop_apart [OF assms(1-5), of merge_start fuel] assms(6) by (auto simp: merge_start_def)
  then obtain r where r: "chunk_lines (ms_chunks st) = Some r"
      "r @ ms_buf st @ snd (edit_at (oe ++ te) (length base)) = apply_edits (oe ++ te) 0 base"
    by (auto simp: merge_progress_def merge_start_def)
  have "oe (length base) = None \<or> te (length base) = None"
    using edit_at_union(3) [OF assms(5), of "length base"] by (cases "oe (length base)") auto
  then have tails: "snd (edit_at oe (length base)) = [] \<and> edit_at (oe ++ te) (length base) = edit_at te (length base)
    \<or> snd (edit_at te (length base)) = [] \<and> edit_at (oe ++ te) (length base) = edit_at oe (length base)"
    using edit_at_union(1,2) [OF assms(5)] by (auto simp: edit_at_def)
  have c: "chunk_lines (if ms_buf st \<noteq> [] then ms_chunks st @ [Unchanged (ms_buf st)] else ms_chunks st)
      = Some (r @ ms_buf st)" using r(1) by simp
  show ?thesis
    using tails st(1,3) c r(2) by (auto simp: merge_edits_def merge_tail_def)
qed

section \<open>Correctness of the line merge\<close>

text \<open>C10: edits of the two sides that touch different lines of the base are both applied. When every
  edit replaces at least one base line or appends at the end, and no edit of one side reaches into an
  edit of the other, \<open>merge_lines\<close> returns within as many iterations as the base has lines, reports a
  clean merge, and the lines of its chunks are the base with the edits of both sides applied.\<close>
theorem merge_lines_disjoint:
  assumes "ours \<noteq> theirs" "base \<noteq> ours" "base \<noteq> theirs"
    "myers (split_lines base) (split_lines ours) = Some ops_ours"
    "myers (split_lines base) (split_lines theirs) = Some ops_theirs"
    "advancing (length (split_lines base)) (walk_edits ops_ours)"
    "advancing (length (split_lines base)) (walk_edits ops_theirs)"
    "apart (walk_edits ops_ours) (walk_edits ops_theirs)"
    "length (split_lines base) \<le> fuel"
  shows "\<exists>m. merge_lines fuel base ours theirs = Return m \<and> lm_clean m
    \<and> chunk_lines (lm_chunks m) = Some (apply_edits (walk_edits ops_ours ++ walk_edits ops_theirs) 0 (split_lines base))"
proof -
  have "old_lines ops_ours = split_lines base" "old_lines ops_theirs = split_lines base"
    using myers_script assms(4,5) by (metis option.inject)+
  with walk_edits_within [of ops_ours] walk_edits_within [of ops_theirs]
  have "edits_within (length (split_lines base)) (walk_edits ops_ours)"
    "edits_within (length (split_lines base)) (walk_edits ops_theirs)" by simp_all
  from merge_edits_apart [OF this assms(6-9)] assms(1-5) show ?thesis
    by (simp add: merge_lines_def)
qed

lemmas myers_eval = myers_def Let_def MAX_DIFF_LINES_def myers_rows.simps myers_row.simps snake.simps
  walk_diagonal.simps aget_def aset_def

lemma merge_sample_scripts:
  "myers [[1], [2]] [[3], [2]] = Some [Delete [1], Insert [3], Equal [2]]"
  "myers [[1], [2]] [[1], [4]] = Some [Equal [1], Delete [2], Insert [4]]"
  by (simp_all add: myers_eval)

lemma merge_sample_edits:
  "walk_edits [Delete [1], Insert [3], Equal [2]] = [0 \<mapsto> (1, [[3]])]"
  "walk_edits [Equal [1], Delete [2], Insert [4]] = [1 \<mapsto> (1, [[4]])]"
  by (simp_all add: walk_edits_def Let_def)

theorem merge_lines_disjoint_witness:
  "\<exists>m. merge_lines 2 [1, 10, 2, 10] [3, 10, 2, 10] [1, 10, 4, 10] = Return m \<and> lm_clean m
    \<and> chunk_lines (lm_chunks m) = Some [[3], [4]]"
proof -
  have l: "split_lines [1, 10, 2, 10] = [[1], [2]]" "split_lines [3, 10, 2, 10] = [[3], [2]]"
    "split_lines [1, 10, 4, 10] = [[1], [4]]" by (simp_all add: split_lines_def)
  have "advancing 2 [0 \<mapsto> (1, [[3]])]" "advancing 2 [1 \<mapsto> (1, [[4]])]" "apart [0 \<mapsto> (1, [[3]])] [1 \<mapsto> (1, [[4]])]"
    by (auto simp: advancing_def apart_def split: if_splits)
  with merge_lines_disjoint [of "[3, 10, 2, 10]" "[1, 10, 4, 10]" "[1, 10, 2, 10]" _ _ 2,
      unfolded l merge_sample_scripts, OF _ _ _ refl refl, unfolded merge_sample_edits]
  show ?thesis by (simp add: edit_at_def numeral_2_eq_2)
qed

text \<open>C11: \<open>merge_lines\<close> never indexes out of range: whatever the inputs, and however long it runs, it
  does not panic.\<close>
theorem merge_lines_no_panic: "merge_lines fuel base ours theirs \<noteq> Panic"
proof -
  obtain o1 o2 where o: "myers (split_lines base) (split_lines ours) = Some o1" "old_lines o1 = split_lines base"
      "myers (split_lines base) (split_lines theirs) = Some o2" "old_lines o2 = split_lines base"
    using myers_script by metis
  have "edits_within (length (split_lines base)) (walk_edits o1)"
    "edits_within (length (split_lines base)) (walk_edits o2)"
    using walk_edits_within [of o1] walk_edits_within [of o2] o by simp_all
  from merge_loop_no_panic [OF this] have "merge_edits fuel (split_lines base) (walk_edits o1) (walk_edits o2) \<noteq> Panic"
    by (auto simp: merge_edits_def split: run.splits)
  with o show ?thesis by (simp add: merge_lines_def)
qed

text \<open>C12: a side that only inserts lines before line \<open>i\<close> of the base, where the other side has no edit,
  keeps the loop of \<open>merge_lines\<close> at \<open>i\<close> for ever: once it gets there it returns for no amount of fuel.
  The cursor advances by the number of deleted lines, which is zero.\<close>
theorem merge_loop_insert_diverges:
  assumes "ms_i st < length base_lines"
    and "ours_edits (ms_i st) = Some (0, ins)" "ins \<noteq> []" "theirs_edits (ms_i st) = None"
  shows "merge_loop fuel base_lines ours_edits theirs_edits st = Diverge"
proof -
  have step: "\<exists>s'. merge_step base_lines ours_edits theirs_edits s = Some s' \<and> ms_i s' = ms_i st"
    if "ms_i s = ms_i st" for s
    using that assms(2-4) by (simp add: merge_step_def Let_def edit_at_def)
  then obtain st' where "merge_step base_lines ours_edits theirs_edits st = Some st'" "ms_i st' = ms_i st" by blast
  then show ?thesis using merge_loop_stuck assms(1) step by blast
qed

lemma merge_insert_scripts:
  "myers [[1], [2]] [[3], [1], [2]] = Some [Insert [3], Equal [1], Equal [2]]"
  "walk_edits [Insert [3], Equal [1], Equal [2]] = [0 \<mapsto> (0, [[3]])]"
  by (simp_all add: myers_eval walk_edits_def)

theorem merge_loop_insert_diverges_witness:
  "\<forall>fuel. merge_lines fuel [1, 10, 2, 10] [3, 10, 1, 10, 2, 10] [1, 10, 4, 10] = Diverge"
proof
  fix fuel
  have l: "split_lines [1, 10, 2, 10] = [[1], [2]]" "split_lines [3, 10, 1, 10, 2, 10] = [[3], [1], [2]]"
    "split_lines [1, 10, 4, 10] = [[1], [4]]" by (simp_all add: split_lines_def)
  have "merge_loop fuel [[1], [2]] [0 \<mapsto> (0, [[3]])] [1 \<mapsto> (1, [[4]])] merge_start = Diverge"
    by (rule merge_loop_insert_diverges [where ins = "[[3]]"]) (simp_all add: merge_start_def)
  then show "merge_lines fuel [1, 10, 2, 10] [3, 10, 1, 10, 2, 10] [1, 10, 4, 10] = Diverge"
    by (simp add: merge_lines_def l merge_insert_scripts merge_sample_scripts merge_sample_edits merge_edits_def
        del: merge_loop.simps One_nat_def)
qed

text \<open>Overlapping edits can be dropped. The base has the lines 1, 2, 3; ours replaces all three by 9,
  theirs replaces 2 by 4. The merge is reported clean and its only line is 9: the edit of theirs is gone
  although both sides changed the same region differently.\<close>
theorem merge_lines_drops_overlap:
  "merge_lines 3 [1, 10, 2, 10, 3, 10] [9, 10] [1, 10, 4, 10, 3, 10]
     = Return \<lparr>lm_chunks = [Unchanged [[9]]], lm_clean = True\<rparr>"
proof -
  have "myers [[1], [2], [3]] [[9]] = Some [Delete [1], Delete [2], Delete [3], Insert [9]]"
    "myers [[1], [2], [3]] [[1], [4], [3]] = Some [Equal [1], Delete [2], Insert [4], Equal [3]]"
    by (simp_all add: myers_eval)
  then show ?thesis
    by (simp add: merge_lines_def split_lines_def walk_edits_def Let_def merge_edits_def merge_start_def
        numeral_3_eq_3 merge_step_def edit_at_def merge_tail_def)
qed

section \<open>Exchanging the two sides\<close>

fun swap_chunk :: "merge_chunk \<Rightarrow> merge_chunk" where
  "swap_chunk (Unchanged ls) = Unchanged ls"
| "swap_chunk (Conflict ours base theirs) = Conflict theirs base ours"

definition swap_state :: "merge_state \<Rightarrow> merge_state" where
  "swap_state st = st\<lparr>ms_chunks := map swap_chunk (ms_chunks st)\<rparr>"

definition swap_merge :: "line_merge \<Rightarrow> line_merge" where
  "swap_merge m = m\<lparr>lm_chunks := map swap_chunk (lm_chunks m)\<rparr>"

fun map_run :: "('a \<Rightarrow> 'b) \<Rightarrow> 'a run \<Rightarrow> 'b run" where
  "map_run f (Return x) = Return (f x)"
| "map_run f Panic = Panic"
| "map_run f Diverge = Diverge"

lemma swap_state_sel [simp]: "ms_i (swap_state st) = ms_i st" "ms_buf (swap_state st) = ms_buf st"
    "ms_clean (swap_state st) = ms_clean st" "ms_chunks (swap_state st) = map swap_chunk (ms_chunks st)"
  by (simp_all add: swap_state_def)

lemma merge_step_swap: "merge_step base te oe (swap_state st) = map_option swap_state (merge_step base oe te st)"
  by (cases "edit_at oe (ms_i st)"; cases "edit_at te (ms_i st)")
    (auto simp: merge_step_def Let_def swap_state_def max.commute)

lemma merge_loop_swap:
  "merge_loop fuel base te oe (swap_state st) = map_run swap_state (merge_loop fuel base oe te st)"
proof (induction fuel arbitrary: st)
  case (Suc fuel)
  then show ?case by (cases "merge_step base oe te st") (simp_all add: merge_step_swap)
qed simp

lemma merge_tail_swap: "merge_tail t o' (map swap_chunk cs) c = swap_merge (merge_tail o' t cs c)"
  by (auto simp: merge_tail_def swap_merge_def)

lemma merge_edits_swap: "merge_edits fuel base te oe = map_run swap_merge (merge_edits fuel base oe te)"
proof -
  have "swap_state merge_start = merge_start" by (simp add: merge_start_def swap_state_def)
  then have "merge_loop fuel base te oe merge_start = map_run swap_state (merge_loop fuel base oe te merge_start)"
    using merge_loop_swap [of fuel base te oe merge_start] by simp
  then show ?thesis
    by (cases "merge_loop fuel base oe te merge_start")
      (simp_all add: merge_edits_def flip: merge_tail_swap)
qed

text \<open>The line merge does not prefer a side: with \<open>ours\<close> and \<open>theirs\<close> exchanged it runs as long, is
  clean or not in the same way, and gives the same chunks with the two sides of each conflict exchanged.\<close>
theorem merge_lines_swap:
  "merge_lines fuel base theirs ours = map_run swap_merge (merge_lines fuel base ours theirs)"
proof -
  obtain o1 o2 where "myers (split_lines base) (split_lines ours) = Some o1"
      "myers (split_lines base) (split_lines theirs) = Some o2"
    using myers_script by metis
  then show ?thesis
    using merge_edits_swap [of fuel "split_lines base" "walk_edits o2" "walk_edits o1"]
    by (auto simp: merge_lines_def swap_merge_def)
qed

section \<open>Trees\<close>

type_synonym tree_path = "bytes list"
type_synonym blob_entry = "32 word \<times> object_id"
type_synonym flat_tree = "(tree_path \<times> blob_entry) list"

datatype conflict_kind = AddAdd | ModifyDelete | Content | Mode

record tree_conflict =
  tc_path :: tree_path
  tc_kind :: conflict_kind
  tc_base :: "blob_entry option"
  tc_ours :: "blob_entry option"
  tc_theirs :: "blob_entry option"

datatype content_result = Resolved object_id | ContentConflict object_id object_id

datatype entry_result = Keep blob_entry | Drop | Clash tree_conflict

type_synonym 's resolver =
  "'s \<Rightarrow> tree_path \<Rightarrow> blob_entry \<Rightarrow> blob_entry \<Rightarrow> blob_entry option \<Rightarrow> content_result \<times> 's"

fun merge_entry ::
  "'s resolver \<Rightarrow> 's \<Rightarrow> tree_path \<Rightarrow> blob_entry option \<Rightarrow> blob_entry option \<Rightarrow> blob_entry option
    \<Rightarrow> entry_result \<times> 's" where
  "merge_entry res s path b ours theirs =
     (case (b, ours, theirs) of
        (None, None, None) \<Rightarrow> (Drop, s)
      | (_, Some o', Some t) \<Rightarrow>
          (if o' = t then (Keep o', s)
           else (case b of
              Some b' \<Rightarrow>
                (if b' = o' then (Keep t, s)
                 else if b' = t then (Keep o', s)
                 else if fst o' \<noteq> fst t \<and> fst o' \<noteq> fst b' \<and> fst t \<noteq> fst b'
                 then (Clash \<lparr>tc_path = path, tc_kind = Mode, tc_base = Some b', tc_ours = Some o', tc_theirs = Some t\<rparr>, s)
                 else
                   (let mode = (if fst o' = fst b' then fst t else fst o') in
                    case res s path o' t (Some b') of
                      (Resolved h, s') \<Rightarrow> (Keep (mode, h), s')
                    | (ContentConflict ours_hash theirs_hash, s') \<Rightarrow>
                        (Clash \<lparr>tc_path = path, tc_kind = Content, tc_base = Some b',
                           tc_ours = Some (fst o', ours_hash), tc_theirs = Some (fst t, theirs_hash)\<rparr>, s')))
            | None \<Rightarrow>
                (Clash \<lparr>tc_path = path, tc_kind = AddAdd, tc_base = None, tc_ours = Some o', tc_theirs = Some t\<rparr>, s)))
      | (Some b', Some o', None) \<Rightarrow>
          (if b' = o' then (Drop, s)
           else (Clash \<lparr>tc_path = path, tc_kind = ModifyDelete, tc_base = Some b', tc_ours = Some o', tc_theirs = None\<rparr>, s))
      | (Some b', None, Some t) \<Rightarrow>
          (if b' = t then (Drop, s)
           else (Clash \<lparr>tc_path = path, tc_kind = ModifyDelete, tc_base = Some b', tc_ours = None, tc_theirs = Some t\<rparr>, s))
      | (None, Some o', None) \<Rightarrow> (Keep o', s)
      | (None, None, Some t) \<Rightarrow> (Keep t, s)
      | (Some _, None, None) \<Rightarrow> (Drop, s))"

record tree_merge =
  tm_merged :: flat_tree
  tm_conflicts :: "tree_conflict list"

fun merge_paths ::
  "'s resolver \<Rightarrow> flat_tree \<Rightarrow> flat_tree \<Rightarrow> flat_tree \<Rightarrow> tree_path list \<Rightarrow> tree_merge \<Rightarrow> 's \<Rightarrow> tree_merge \<times> 's" where
  "merge_paths res base ours theirs [] tm s = (tm, s)"
| "merge_paths res base ours theirs (path # paths) tm s =
     (case merge_entry res s path (map_of base path) (map_of ours path) (map_of theirs path) of
        (Keep e, s') \<Rightarrow> merge_paths res base ours theirs paths (tm\<lparr>tm_merged := tm_merged tm @ [(path, e)]\<rparr>) s'
      | (Drop, s') \<Rightarrow> merge_paths res base ours theirs paths tm s'
      | (Clash c, s') \<Rightarrow> merge_paths res base ours theirs paths (tm\<lparr>tm_conflicts := tm_conflicts tm @ [c]\<rparr>) s')"

definition all_paths :: "flat_tree \<Rightarrow> flat_tree \<Rightarrow> flat_tree \<Rightarrow> tree_path list" where
  "all_paths base ours theirs = sort (remdups (map fst base @ map fst ours @ map fst theirs))"

definition merge_trees :: "'s resolver \<Rightarrow> flat_tree \<Rightarrow> flat_tree \<Rightarrow> flat_tree \<Rightarrow> 's \<Rightarrow> tree_merge \<times> 's" where
  "merge_trees res base ours theirs s =
     merge_paths res base ours theirs (all_paths base ours theirs) \<lparr>tm_merged = [], tm_conflicts = []\<rparr> s"

definition conflicts_at :: "tree_merge \<Rightarrow> tree_path \<Rightarrow> tree_conflict list" where
  "conflicts_at tm p = filter (\<lambda>c. tc_path c = p) (tm_conflicts tm)"

lemma merge_entry_path: "merge_entry res s p b ours theirs = (Clash c, s') \<Longrightarrow> tc_path c = p"
  by (auto split: option.splits if_splits prod.splits content_result.splits simp: Let_def)

lemma merge_paths_other:
  "merge_paths res base ours theirs paths tm s = (tm', s') \<Longrightarrow> p \<notin> set paths \<Longrightarrow>
     map_of (tm_merged tm') p = map_of (tm_merged tm) p \<and> conflicts_at tm' p = conflicts_at tm p"
proof (induction paths arbitrary: tm s)
  case (Cons q paths)
  obtain r s1 where r: "merge_entry res s q (map_of base q) (map_of ours q) (map_of theirs q) = (r, s1)"
    by (rule prod.exhaust)
  show ?case
  proof (cases r)
    case (Keep e)
    with Cons.IH [of "tm\<lparr>tm_merged := tm_merged tm @ [(q, e)]\<rparr>" s1] Cons.prems r show ?thesis
      by (simp add: conflicts_at_def map_add_def split: option.splits)
  next
    case Drop
    with Cons.IH [of tm s1] Cons.prems r show ?thesis by simp
  next
    case (Clash c)
    with merge_entry_path [OF r [unfolded Clash]]
      Cons.IH [of "tm\<lparr>tm_conflicts := tm_conflicts tm @ [c]\<rparr>" s1] Cons.prems r show ?thesis
      by (auto simp: conflicts_at_def)
  qed
qed simp

fun entry_outcome :: "tree_merge \<Rightarrow> tree_path \<Rightarrow> entry_result \<Rightarrow> bool" where
  "entry_outcome tm p (Keep e) \<longleftrightarrow> map_of (tm_merged tm) p = Some e \<and> conflicts_at tm p = []"
| "entry_outcome tm p Drop \<longleftrightarrow> map_of (tm_merged tm) p = None \<and> conflicts_at tm p = []"
| "entry_outcome tm p (Clash c) \<longleftrightarrow> map_of (tm_merged tm) p = None \<and> conflicts_at tm p = [c]"

lemma merge_paths_at:
  "merge_paths res base ours theirs paths tm s = (tm', s') \<Longrightarrow> distinct paths \<Longrightarrow> p \<in> set paths \<Longrightarrow>
     map_of (tm_merged tm) p = None \<Longrightarrow> conflicts_at tm p = [] \<Longrightarrow>
     \<exists>s1. entry_outcome tm' p (fst (merge_entry res s1 p (map_of base p) (map_of ours p) (map_of theirs p)))"
proof (induction paths arbitrary: tm s)
  case (Cons q paths)
  obtain r s1 where r: "merge_entry res s q (map_of base q) (map_of ours q) (map_of theirs q) = (r, s1)"
    by (rule prod.exhaust)
  define tm1 where "tm1 = (case r of Keep e \<Rightarrow> tm\<lparr>tm_merged := tm_merged tm @ [(q, e)]\<rparr> | Drop \<Rightarrow> tm
    | Clash c \<Rightarrow> tm\<lparr>tm_conflicts := tm_conflicts tm @ [c]\<rparr>)"
  have rest: "merge_paths res base ours theirs paths tm1 s1 = (tm', s')"
    using Cons.prems(1) r by (auto simp: tm1_def split: entry_result.splits)
  have path: "r = Clash c \<Longrightarrow> tc_path c = q" for c using merge_entry_path r by metis
  show ?case
  proof (cases "p = q")
    case True
    have "entry_outcome tm1 p r"
      using Cons.prems(4,5) path True
      by (cases r) (auto simp: tm1_def conflicts_at_def map_add_def split: option.splits)
    with merge_paths_other [OF rest, of p] Cons.prems(2) True have "entry_outcome tm' p r"
      by (cases r) simp_all
    with r True show ?thesis by (metis fst_conv)
  next
    case False
    then have "map_of (tm_merged tm1) p = None" "conflicts_at tm1 p = []"
      using Cons.prems(4,5) path
      by (auto simp: tm1_def conflicts_at_def map_add_def split: option.splits entry_result.splits)
    with Cons.IH [OF rest] Cons.prems(2,3) False show ?thesis by simp
  qed
qed simp

lemma merge_trees_at:
  assumes "merge_trees res base ours theirs s = (tm, s')"
  shows "\<exists>s1. entry_outcome tm p (fst (merge_entry res s1 p (map_of base p) (map_of ours p) (map_of theirs p)))"
proof (cases "p \<in> set (all_paths base ours theirs)")
  case True
  then show ?thesis
    using merge_paths_at [OF assms [unfolded merge_trees_def], of p] by (simp add: all_paths_def conflicts_at_def)
next
  case False
  then have none: "map_of base p = None" "map_of ours p = None" "map_of theirs p = None"
    by (auto simp: all_paths_def map_of_eq_None_iff)
  have "map_of (tm_merged tm) p = None \<and> conflicts_at tm p = []"
    using merge_paths_other [OF assms [unfolded merge_trees_def] False] by (simp add: conflicts_at_def)
  with none show ?thesis by simp
qed



end
