(* ===== verification/Stores.thy ===== *)
theory Stores
  imports Prelude
begin

text \<open>
  The interface several components of gyt offer: a collection of values read, replaced and removed by a
  key that the value determines, where an update may be refused. The laws are those of a finite map; the
  lemmas lift them to any sequence of accepted operations, so that a component that satisfies the laws
  refines the map.
\<close>

datatype ('k, 'v) store_op = Put 'v | Del 'k

locale keyed_store =
  fixes inv :: "'s \<Rightarrow> bool"
    and key_of :: "'v \<Rightarrow> 'k"
    and lookup :: "'s \<Rightarrow> 'k \<Rightarrow> 'v option"
    and put :: "'v \<Rightarrow> 's \<Rightarrow> 's option"
    and del :: "'k \<Rightarrow> 's \<Rightarrow> 's option"
  assumes inv_put: "inv s \<Longrightarrow> put v s = Some s' \<Longrightarrow> inv s'"
    and inv_del: "inv s \<Longrightarrow> del k s = Some s' \<Longrightarrow> inv s'"
    and lookup_put: "inv s \<Longrightarrow> put v s = Some s' \<Longrightarrow> lookup s' = (lookup s)(key_of v \<mapsto> v)"
    and lookup_del: "inv s \<Longrightarrow> del k s = Some s' \<Longrightarrow> lookup s' = (lookup s)(k := None)"
begin

primrec step :: "('k, 'v) store_op \<Rightarrow> 's \<Rightarrow> 's option" where
  "step (Put v) s = put v s"
| "step (Del k) s = del k s"

primrec map_step :: "('k, 'v) store_op \<Rightarrow> ('k \<rightharpoonup> 'v) \<Rightarrow> ('k \<rightharpoonup> 'v)" where
  "map_step (Put v) m = m(key_of v \<mapsto> v)"
| "map_step (Del k) m = m(k := None)"

primrec run :: "('k, 'v) store_op list \<Rightarrow> 's \<Rightarrow> 's option" where
  "run [] s = Some s"
| "run (u # us) s = (case step u s of None \<Rightarrow> None | Some s' \<Rightarrow> run us s')"

lemma inv_step: "inv s \<Longrightarrow> step u s = Some s' \<Longrightarrow> inv s'"
  by (cases u) (auto intro: inv_put inv_del)

lemma lookup_step: "inv s \<Longrightarrow> step u s = Some s' \<Longrightarrow> lookup s' = map_step u (lookup s)"
  by (cases u) (simp_all add: lookup_put lookup_del)

lemma run_refines:
  "inv s \<Longrightarrow> run us s = Some s' \<Longrightarrow> inv s' \<and> lookup s' = fold map_step us (lookup s)"
proof (induction us arbitrary: s)
  case (Cons u us)
  then obtain t where t: "step u s = Some t" "run us t = Some s'" by (auto split: option.splits)
  with Cons.IH [OF inv_step [OF Cons.prems(1) t(1)] t(2)] lookup_step [OF Cons.prems(1) t(1)] show ?case by simp
qed simp

lemma put_put:
  assumes "inv s" "put w s = Some t" "put v t = Some t'" "put v s = Some s'" "key_of v = key_of w"
  shows "lookup t' = lookup s'"
  using lookup_put [OF assms(1,2)] lookup_put [OF inv_put [OF assms(1,2)] assms(3)] lookup_put [OF assms(1,4)] assms(5)
  by simp

lemma del_put:
  assumes "inv s" "lookup s (key_of v) = None" "put v s = Some t" "del (key_of v) t = Some t'"
  shows "lookup t' = lookup s"
  using lookup_put [OF assms(1,3)] lookup_del [OF inv_put [OF assms(1,3)] assms(4)] assms(2)
  by (simp add: fun_upd_idem)

end

end
