(* ===== verification/Index.thy ===== *)
theory Index
  imports Hash Stores
begin

text \<open>
  \<open>src/index.rs\<close>: the staging area and its \<open>GYTI\<close> file format.

  A path is its bytes. \<open>parse_entries\<close> is the loop over the entries of \<open>Index::parse\<close>; it runs on the
  bytes from the offset on. The two clock fields are 64-bit words, the size is one too. Writing is split
  into the encoding and the atomic file write of \<open>Fs\<close>.
\<close>

definition MAGIC :: bytes where "MAGIC = ascii ''GYTI''"
definition VERSION :: "32 word" where "VERSION = 1"
definition HEADER_LEN :: nat where "HEADER_LEN = 4 + 4 + 4"
definition ENTRY_FIXED_LEN :: nat where "ENTRY_FIXED_LEN = 8 + 8 + 8 + 4 + HASH_LEN + 2"

record index_entry =
  ie_ctime :: "64 word"
  ie_mtime :: "64 word"
  ie_size :: "64 word"
  ie_mode :: "32 word"
  ie_hash :: object_id
  ie_path :: bytes

type_synonym index = "index_entry list"

fun check_components :: "bytes list \<Rightarrow> unit res" where
  "check_components [] = Inr ()"
| "check_components (c # cs) =
     (if c = [] then Inl (EIndex ''empty path component in entry'')
      else if c = ascii ''.'' \<or> c = ascii ''..'' then Inl (EIndex ''path traversal component in entry'')
      else if eq_ignore_case c (ascii ''.gyt'') then Inl (EIndex ''path enters .gyt/ in entry'')
      else check_components cs)"

definition validate_index_path :: "bytes \<Rightarrow> unit res" where
  "validate_index_path path =
     (if path = [] then Inl (EIndex ''empty path in entry'')
      else if hd path = SLASH then Inl (EIndex ''absolute path in entry'')
      else if 0 \<in> set path then Inl (EIndex ''path contains NUL in entry'')
      else if BSLASH \<in> set path then Inl (EIndex ''path contains backslash in entry'')
      else check_components (split_char SLASH path))"

definition component_str :: "component \<Rightarrow> bytes" where
  "component_str c = (case c of Normal os \<Rightarrow> to_string_lossy os | RootDir \<Rightarrow> ascii ''/''
     | ParentDir \<Rightarrow> ascii ''..'' | CurDir \<Rightarrow> ascii ''.'')"

fun storage_components :: "nat \<Rightarrow> component list \<Rightarrow> bytes" where
  "storage_components i [] = []"
| "storage_components i (CurDir # cs) = storage_components (i + 1) cs"
| "storage_components i (c # cs) =
     (if i > 0 then [SLASH] else []) @ component_str c @ storage_components (i + 1) cs"

definition path_to_storage_string :: "bytes \<Rightarrow> bytes" where
  "path_to_storage_string path =
     (let s = storage_components 0 (path_components path) in
      if s = [] \<and> path \<noteq> [] then map (\<lambda>b. if b = BSLASH then SLASH else b) (to_string_lossy path) else s)"

definition path_storage_bytes :: "bytes \<Rightarrow> bytes" where
  "path_storage_bytes path = path_to_storage_string path"

definition index_new :: index where "index_new = []"

definition index_find :: "index \<Rightarrow> bytes \<Rightarrow> index_entry option" where
  "index_find entries path =
     (let key = path_storage_bytes path in find (\<lambda>e. path_storage_bytes (ie_path e) = key) entries)"

fun replace_first :: "('a \<Rightarrow> bool) \<Rightarrow> 'a \<Rightarrow> 'a list \<Rightarrow> 'a list option" where
  "replace_first P x [] = None"
| "replace_first P x (y # ys) = (if P y then Some (x # ys) else map_option ((#) y) (replace_first P x ys))"

definition index_insert :: "index_entry \<Rightarrow> index \<Rightarrow> index" where
  "index_insert entry entries =
     (let key = path_storage_bytes (ie_path entry) in
      case replace_first (\<lambda>e. path_storage_bytes (ie_path e) = key) entry entries of
        Some entries' \<Rightarrow> entries'
      | None \<Rightarrow> entries @ [entry])"

definition index_remove :: "bytes \<Rightarrow> index \<Rightarrow> index \<times> bool" where
  "index_remove path entries =
     (let key = path_storage_bytes path;
          kept = filter (\<lambda>e. path_storage_bytes (ie_path e) \<noteq> key) entries in
      (kept, length kept \<noteq> length entries))"

definition encode_index_entry :: "index_entry \<Rightarrow> bytes res" where
  "encode_index_entry e =
     (let path_bytes = path_storage_bytes (ie_path e) in
      if length path_bytes < 65536
      then Inr (to_le (ie_ctime e) @ to_le (ie_mtime e) @ to_le (ie_size e) @ to_le (ie_mode e)
                @ id_bytes (ie_hash e) @ to_le (word_of_nat (length path_bytes) :: 16 word) @ path_bytes)
      else Inl (EIndex ''path too long for u16 encoding''))"

fun encode_index_entries :: "index_entry list \<Rightarrow> bytes res" where
  "encode_index_entries [] = Inr []"
| "encode_index_entries (e # es) =
     (case encode_index_entry e of
        Inl err \<Rightarrow> Inl err
      | Inr b \<Rightarrow> (case encode_index_entries es of Inl err \<Rightarrow> Inl err | Inr bs \<Rightarrow> Inr (b @ bs)))"

definition index_bytes :: "index \<Rightarrow> bytes res" where
  "index_bytes entries =
     (let sorted = sort_key (\<lambda>e. path_storage_bytes (ie_path e)) entries in
      if length sorted < U32_LIMIT
      then (case encode_index_entries sorted of
              Inl err \<Rightarrow> Inl err
            | Inr bs \<Rightarrow> Inr (MAGIC @ to_le VERSION @ to_le (word_of_nat (length sorted) :: 32 word) @ bs))
      else Inl (EIndex ''too many entries to encode''))"

fun parse_entries :: "nat \<Rightarrow> bytes \<Rightarrow> (index_entry list \<times> bytes) res" where
  "parse_entries 0 data = Inr ([], data)"
| "parse_entries (Suc count) data =
     (if length data < ENTRY_FIXED_LEN then Inl (EIndex ''index truncated in entry fixed header'')
      else
        (let path_len = unat (from_le (take 2 (drop (28 + HASH_LEN) data)) :: 16 word);
             rest = drop (30 + HASH_LEN) data in
         if length rest < path_len then Inl (EIndex ''index truncated in entry path'')
         else if \<not> valid_utf8 (take path_len rest) then Inl (EIndex ''non-utf8 path bytes in entry'')
         else (case validate_index_path (take path_len rest) of
                 Inl e \<Rightarrow> Inl e
               | Inr _ \<Rightarrow>
                 (case parse_entries count (drop path_len rest) of
                    Inl e \<Rightarrow> Inl e
                  | Inr (es, tail) \<Rightarrow>
                      Inr (\<lparr>ie_ctime = from_le (take 8 data), ie_mtime = from_le (take 8 (drop 8 data)),
                            ie_size = from_le (take 8 (drop 16 data)), ie_mode = from_le (take 4 (drop 24 data)),
                            ie_hash = ObjectId (take HASH_LEN (drop 28 data)),
                            ie_path = take path_len rest\<rparr> # es, tail)))))"

definition index_parse :: "bytes \<Rightarrow> index res" where
  "index_parse data =
     (if length data < HEADER_LEN then Inl (EIndex ''index truncated'')
      else if take 4 data \<noteq> MAGIC then Inl (EIndex ''bad magic'')
      else if from_le (take 4 (drop 4 data)) \<noteq> VERSION then Inl (EIndex ''unsupported version'')
      else
        (let count = unat (from_le (take 4 (drop 8 data)) :: 32 word);
             min_remaining = length data - HEADER_LEN in
         if min (count * ENTRY_FIXED_LEN) (USIZE_LIMIT - 1) > min_remaining
         then Inl (EIndex ''index claims more entries than bytes remain after header'')
         else (case parse_entries count (drop HEADER_LEN data) of
                 Inl e \<Rightarrow> Inl e
               | Inr (entries, tail) \<Rightarrow>
                   if tail \<noteq> [] then Inl (EIndex ''trailing garbage after index entries'') else Inr entries)))"

section \<open>Paths\<close>

definition index_path_ok :: "bytes \<Rightarrow> bool" where
  "index_path_ok p \<longleftrightarrow> 0 \<notin> set p \<and> BSLASH \<notin> set p
     \<and> (\<forall>c \<in> set (split_char SLASH p). plain_piece c \<and> \<not> eq_ignore_case c (ascii ''.gyt''))"

lemma check_components_Inr:
  "check_components cs = Inr () \<longleftrightarrow> (\<forall>c \<in> set cs. plain_piece c \<and> \<not> eq_ignore_case c (ascii ''.gyt''))"
proof (induction cs)
  case (Cons c cs)
  have "plain_piece c \<longleftrightarrow> \<not> (c = [] \<or> c = ascii ''.'' \<or> c = ascii ''..'')" by (auto simp: plain_piece_def)
  with Cons show ?case by (cases "eq_ignore_case c (ascii ''.gyt'')") (auto simp del: ascii_Cons)
qed simp

lemma path_ok_head: "index_path_ok p \<Longrightarrow> p \<noteq> [] \<and> hd p \<noteq> SLASH"
proof (cases p)
  case (Cons b r)
  assume "index_path_ok p"
  then have "[] \<notin> set (split_char SLASH p)" by (auto simp only: index_path_ok_def plain_piece_def)
  then show ?thesis using Cons by (cases "b = SLASH") simp_all
qed (simp add: index_path_ok_def plain_piece_def)

lemma validate_index_path_iff: "validate_index_path p = Inr () \<longleftrightarrow> index_path_ok p"
proof
  assume "validate_index_path p = Inr ()"
  then have "0 \<notin> set p" "BSLASH \<notin> set p" "check_components (split_char SLASH p) = Inr ()"
    by (simp_all only: validate_index_path_def split: if_splits) simp_all
  then show "index_path_ok p" by (simp only: index_path_ok_def check_components_Inr) simp
next
  assume ok: "index_path_ok p"
  then have "check_components (split_char SLASH p) = Inr ()" "0 \<notin> set p" "BSLASH \<notin> set p"
    unfolding index_path_ok_def check_components_Inr by blast+
  with path_ok_head [OF ok] show "validate_index_path p = Inr ()"
    by (simp add: validate_index_path_def)
qed

lemma storage_components_normal:
  "\<forall>c \<in> set cs. valid_utf8 c \<Longrightarrow>
     storage_components i (map Normal cs) = (if cs = [] \<or> i = 0 then [] else [SLASH]) @ join_char SLASH cs"
proof (induction cs arbitrary: i)
  case (Cons c cs)
  then show ?case by (cases cs) (simp_all add: component_str_def to_string_lossy_valid)
qed simp

lemma storage_ok:
  assumes "index_path_ok p" "valid_utf8 p"
  shows "path_storage_bytes p = p"
proof -
  have "path_components p = map Normal (split_char SLASH p)"
    using assms(1) by (intro path_components_plain) (simp add: index_path_ok_def)
  moreover have "\<forall>c \<in> set (split_char SLASH p). valid_utf8 c"
    using assms(2) valid_utf8_pieces [of p SLASH] by simp
  ultimately have "storage_components 0 (path_components p) = p"
    by (simp add: storage_components_normal join_split_char)
  then show ?thesis by (simp add: path_storage_bytes_def path_to_storage_string_def)
qed

section \<open>The file format\<close>

definition wf_index_entry :: "index_entry \<Rightarrow> bool" where
  "wf_index_entry e \<longleftrightarrow> wf_id (ie_hash e) \<and> index_path_ok (ie_path e) \<and> valid_utf8 (ie_path e)
     \<and> length (ie_path e) < 65536"

definition entry_bytes :: "index_entry \<Rightarrow> bytes" where
  "entry_bytes e = to_le (ie_ctime e) @ to_le (ie_mtime e) @ to_le (ie_size e) @ to_le (ie_mode e)
     @ id_bytes (ie_hash e) @ to_le (word_of_nat (length (ie_path e)) :: 16 word) @ ie_path e"

lemma take_drop_chain: "drop k data = take m (drop k data) @ drop (k + m) data"
  by (metis add.commute append_take_drop_id drop_drop)

lemma fixed_fields:
  "data = take 8 data @ take 8 (drop 8 data) @ take 8 (drop 16 data) @ take 4 (drop 24 data)
     @ take 32 (drop 28 data) @ take 2 (drop 60 data) @ drop 62 data"
  using take_drop_chain [of 0 data 8] take_drop_chain [of 8 data 8] take_drop_chain [of 16 data 8]
    take_drop_chain [of 24 data 4] take_drop_chain [of 28 data 32] take_drop_chain [of 60 data 2]
  by simp

lemma unat_u16: "n < 65536 \<Longrightarrow> unat (word_of_nat n :: 16 word) = n"
  by (simp add: unat_of_nat take_bit_nat_eq_self)

lemma unat_u16_less: "unat (w :: 16 word) < 65536"
  using unsigned_less [of w] by simp

lemma parse_entries_encode:
  assumes "wf_index_entry e" "parse_entries n rest = Inr (es, tail)"
  shows "parse_entries (Suc n) (entry_bytes e @ rest) = Inr (e # es, tail)"
proof -
  have h: "length (id_bytes (ie_hash e)) = 32" using assms(1) by (simp add: wf_index_entry_def wf_id_def HASH_LEN_def)
  have v: "validate_index_path (ie_path e) = Inr ()" "valid_utf8 (ie_path e)"
    using assms(1) by (simp_all add: wf_index_entry_def validate_index_path_iff)
  have l: "unat (word_of_nat (length (ie_path e)) :: 16 word) = length (ie_path e)"
    using assms(1) by (intro unat_u16) (simp add: wf_index_entry_def)
  let ?d = "entry_bytes e @ rest"
  have f: "take 8 ?d = to_le (ie_ctime e)" "take 8 (drop 8 ?d) = to_le (ie_mtime e)"
    "take 8 (drop 16 ?d) = to_le (ie_size e)" "take 4 (drop 24 ?d) = to_le (ie_mode e)"
    "take 32 (drop 28 ?d) = id_bytes (ie_hash e)"
    "take 2 (drop 60 ?d) = to_le (word_of_nat (length (ie_path e)) :: 16 word)"
    "drop 62 ?d = ie_path e @ rest" "62 \<le> length ?d"
    by (simp_all add: entry_bytes_def h)
  show ?thesis
    using f v l assms(2) by (simp add: ENTRY_FIXED_LEN_def HASH_LEN_def Let_def)
qed

lemma parse_entries_decode:
  assumes "parse_entries (Suc n) data = Inr (es, tail)"
  obtains e es' rest where "es = e # es'" "wf_index_entry e" "data = entry_bytes e @ rest"
    "parse_entries n rest = Inr (es', tail)"
proof -
  let ?len = "unat (from_le (take 2 (drop 60 data)) :: 16 word)"
  let ?path = "take ?len (drop 62 data)"
  from assms have fit: "62 \<le> length data" "?len \<le> length (drop 62 data)" and v: "valid_utf8 ?path"
    "validate_index_path ?path = Inr ()"
    by (auto simp: ENTRY_FIXED_LEN_def HASH_LEN_def Let_def split: if_splits sum.splits)
  with assms obtain es' where es': "parse_entries n (drop ?len (drop 62 data)) = Inr (es', tail)"
    and es: "es = \<lparr>ie_ctime = from_le (take 8 data), ie_mtime = from_le (take 8 (drop 8 data)),
        ie_size = from_le (take 8 (drop 16 data)), ie_mode = from_le (take 4 (drop 24 data)),
        ie_hash = ObjectId (take 32 (drop 28 data)), ie_path = ?path\<rparr> # es'" (is "es = ?e # es'")
    by (auto simp: ENTRY_FIXED_LEN_def HASH_LEN_def Let_def split: if_splits sum.splits)
  have pl: "length ?path = ?len" using fit by simp
  have "wf_index_entry ?e"
    using v fit pl unat_u16_less by (simp add: wf_index_entry_def wf_id_def HASH_LEN_def validate_index_path_iff)
  moreover have "entry_bytes ?e = take 8 data @ take 8 (drop 8 data) @ take 8 (drop 16 data)
      @ take 4 (drop 24 data) @ take 32 (drop 28 data) @ take 2 (drop 60 data) @ ?path"
    using fit(1) pl by (simp add: entry_bytes_def to_le_from_le)
  then have "data = entry_bytes ?e @ drop ?len (drop 62 data)"
    using fixed_fields [of data] by (simp only: append_assoc append_take_drop_id)
  ultimately show thesis using that es es' by blast
qed

lemma parse_entries_iff:
  "parse_entries n data = Inr (es, tail) \<longleftrightarrow>
     length es = n \<and> list_all wf_index_entry es \<and> data = concat (map entry_bytes es) @ tail"
proof (induction n arbitrary: data es)
  case (Suc n)
  show ?case
  proof
    assume "parse_entries (Suc n) data = Inr (es, tail)"
    then obtain e es' rest where "es = e # es'" "wf_index_entry e" "data = entry_bytes e @ rest"
      "parse_entries n rest = Inr (es', tail)" by (rule parse_entries_decode)
    with Suc show "length es = Suc n \<and> list_all wf_index_entry es \<and> data = concat (map entry_bytes es) @ tail"
      by simp
  next
    assume r: "length es = Suc n \<and> list_all wf_index_entry es \<and> data = concat (map entry_bytes es) @ tail"
    then obtain e es' where es: "es = e # es'" by (cases es) auto
    with r Suc [of "concat (map entry_bytes es') @ tail" es']
    have "parse_entries n (concat (map entry_bytes es') @ tail) = Inr (es', tail)" by simp
    from parse_entries_encode [OF _ this] r es show "parse_entries (Suc n) data = Inr (es, tail)" by simp
  qed
qed auto

definition index_file :: "index_entry list \<Rightarrow> bytes" where
  "index_file es = MAGIC @ to_le VERSION @ to_le (word_of_nat (length es) :: 32 word) @ concat (map entry_bytes es)"

definition wf_index :: "index_entry list \<Rightarrow> bool" where
  "wf_index es \<longleftrightarrow> list_all wf_index_entry es \<and> length es < U32_LIMIT"

lemma length_entry_bytes: "wf_index_entry e \<Longrightarrow> 62 \<le> length (entry_bytes e)"
  by (simp add: entry_bytes_def wf_index_entry_def wf_id_def HASH_LEN_def)

lemma length_entries: "list_all wf_index_entry es \<Longrightarrow> length es * 62 \<le> length (concat (map entry_bytes es))"
proof (induction es)
  case (Cons e es)
  then show ?case using length_entry_bytes [of e] by simp
qed simp

lemma unat_u32_of_nat: "n < U32_LIMIT \<Longrightarrow> unat (word_of_nat n :: 32 word) = n"
  by (simp add: U32_LIMIT_def unat_of_nat take_bit_nat_eq_self)

lemma index_parse_file:
  assumes "wf_index es"
  shows "index_parse (index_file es) = Inr es"
proof -
  let ?d = "index_file es"
  have f: "take 4 ?d = MAGIC" "take 4 (drop 4 ?d) = to_le VERSION"
    "take 4 (drop 8 ?d) = to_le (word_of_nat (length es) :: 32 word)"
    "drop 12 ?d = concat (map entry_bytes es)" "length ?d = 12 + length (concat (map entry_bytes es))"
    by (simp_all add: index_file_def MAGIC_def)
  have "parse_entries (length es) (concat (map entry_bytes es)) = Inr (es, [])"
    using assms by (simp add: parse_entries_iff wf_index_def)
  moreover have "\<not> min (length es * 62) (USIZE_LIMIT - 1) > length (concat (map entry_bytes es))"
    using length_entries [of es] assms by (simp add: wf_index_def min_def)
  moreover have "unat (word_of_nat (length es) :: 32 word) = length es"
    using assms by (intro unat_u32_of_nat) (simp add: wf_index_def)
  ultimately show ?thesis
    using f by (simp add: index_parse_def HEADER_LEN_def ENTRY_FIXED_LEN_def HASH_LEN_def Let_def)
qed

lemma index_parse_only_file:
  assumes "index_parse data = Inr es"
  shows "wf_index es \<and> data = index_file es"
proof -
  let ?n = "unat (from_le (take 4 (drop 8 data)) :: 32 word)"
  have h: "12 \<le> length data" "take 4 data = MAGIC" "from_le (take 4 (drop 4 data)) = VERSION"
    "parse_entries ?n (drop 12 data) = Inr (es, [])"
    using assms by (auto simp: index_parse_def HEADER_LEN_def Let_def split: if_splits sum.splits)
  then have es: "length es = ?n" "list_all wf_index_entry es" "drop 12 data = concat (map entry_bytes es)"
    by (simp_all add: parse_entries_iff)
  have "data = take 4 data @ take 4 (drop 4 data) @ take 4 (drop 8 data) @ drop 12 data"
    using take_drop_chain [of 0 data 4] take_drop_chain [of 4 data 4] take_drop_chain [of 8 data 4] by simp
  moreover have "take 4 (drop 4 data) = to_le VERSION"
    using to_le_from_le [of "take 4 (drop 4 data)", where 'a = 32] h(1,3) by simp
  moreover have "take 4 (drop 8 data) = to_le (word_of_nat (length es) :: 32 word)"
    using to_le_from_le [of "take 4 (drop 8 data)", where 'a = 32] h(1) es(1) by simp
  ultimately have "data = index_file es" using h(2) es(3) by (simp add: index_file_def)
  moreover have "length es < U32_LIMIT" using es(1) unat_u32 by simp
  ultimately show ?thesis using es(2) by (simp add: wf_index_def)
qed

lemma encode_index_entry_wf: "wf_index_entry e \<Longrightarrow> encode_index_entry e = Inr (entry_bytes e)"
  by (simp add: encode_index_entry_def wf_index_entry_def storage_ok entry_bytes_def Let_def)

lemma encode_index_entries_wf:
  "list_all wf_index_entry es \<Longrightarrow> encode_index_entries es = Inr (concat (map entry_bytes es))"
  by (induction es) (simp_all add: encode_index_entry_wf)

lemma insort_key_agree: "\<forall>y \<in> set (x # ys). f y = g y \<Longrightarrow> insort_key f x ys = insort_key g x ys"
  by (induction ys) auto

lemma sort_key_agree: "\<forall>x \<in> set xs. f x = g x \<Longrightarrow> sort_key f xs = sort_key g xs"
proof (induction xs)
  case (Cons x xs)
  then have "insort_key f x (sort_key g xs) = insort_key g x (sort_key g xs)" by (intro insort_key_agree) simp
  with Cons show ?case by simp
qed simp

lemma index_bytes_wf:
  assumes "wf_index es"
  shows "index_bytes es = Inr (index_file (sort_key ie_path es))"
proof -
  have s: "sort_key (\<lambda>e. path_storage_bytes (ie_path e)) es = sort_key ie_path es"
    using assms by (intro sort_key_agree) (auto simp: wf_index_def wf_index_entry_def list_all_iff storage_ok)
  have "list_all wf_index_entry (sort_key ie_path es)"
    using assms by (simp add: wf_index_def list_all_iff)
  with assms show ?thesis
    by (simp add: index_bytes_def s encode_index_entries_wf index_file_def wf_index_def)
qed

text \<open>C13: \<open>Index::parse\<close> accepts exactly the files of the format, byte for byte: magic, version, the entry
  count and the entries one after the other with nothing left over, every path valid UTF-8 and safe. In
  particular two different files never parse to the same entries.\<close>
theorem index_parse_iff: "index_parse data = Inr es \<longleftrightarrow> wf_index es \<and> data = index_file es"
  using index_parse_file index_parse_only_file by blast


definition sample_index_entry :: "bytes \<Rightarrow> index_entry" where
  "sample_index_entry p = \<lparr>ie_ctime = 5, ie_mtime = 6, ie_size = 7, ie_mode = 33188,
     ie_hash = ObjectId (replicate 32 1), ie_path = p\<rparr>"

lemma sample_index_entry_wf: "wf_index_entry (sample_index_entry [98])" "wf_index_entry (sample_index_entry [97, 47, 99])"
  by (simp_all add: sample_index_entry_def wf_index_entry_def wf_id_def HASH_LEN_def index_path_ok_def
      plain_piece_def eq_ignore_case_def valid_utf8_low)


text \<open>A path that starts with \<open>./\<close> is stored with a leading slash, which the parser rejects.\<close>

lemma storage_of_dot_path: "path_to_storage_string [46, 47, 97] = [47, 97]"
  by (simp add: path_to_storage_string_def path_components_def piece_component_def component_str_def
      to_string_lossy.simps utf8_step_def utf8_width_def)

lemma dot_path_unreadable: "validate_index_path (path_to_storage_string [46, 47, 97]) = Inl (EIndex ''absolute path in entry'')"
  by (simp add: storage_of_dot_path validate_index_path_def)

section \<open>The index as a map\<close>

definition entry_key :: "index_entry \<Rightarrow> bytes" where
  "entry_key e = path_storage_bytes (ie_path e)"

definition index_inv :: "index \<Rightarrow> bool" where
  "index_inv es \<longleftrightarrow> distinct (map entry_key es)"

definition index_lookup :: "index \<Rightarrow> bytes \<Rightarrow> index_entry option" where
  "index_lookup es k = find (\<lambda>e. entry_key e = k) es"

definition index_delete :: "bytes \<Rightarrow> index \<Rightarrow> index" where
  "index_delete k es = filter (\<lambda>e. entry_key e \<noteq> k) es"

lemma index_find_lookup: "index_find es p = index_lookup es (path_storage_bytes p)"
  by (simp add: index_find_def index_lookup_def entry_key_def)

lemma index_remove_delete: "fst (index_remove p es) = index_delete (path_storage_bytes p) es"
  by (simp add: index_remove_def index_delete_def entry_key_def Let_def)

lemma index_insert_key:
  "index_insert e es = (case replace_first (\<lambda>x. entry_key x = entry_key e) e es of Some es' \<Rightarrow> es' | None \<Rightarrow> es @ [e])"
  by (simp add: index_insert_def entry_key_def Let_def)

lemma replace_first_None: "replace_first P x ys = None \<longleftrightarrow> (\<forall>y \<in> set ys. \<not> P y)"
  by (induction ys) auto

lemma replace_first_keys:
  "replace_first (\<lambda>x. entry_key x = entry_key e) e es = Some es' \<Longrightarrow> map entry_key es' = map entry_key es"
  by (induction es arbitrary: es') (auto split: if_splits)

lemma find_append: "find P (xs @ ys) = (case find P xs of None \<Rightarrow> find P ys | Some x \<Rightarrow> Some x)"
  by (induction xs) auto

lemma index_lookup_replace:
  "replace_first (\<lambda>x. entry_key x = entry_key e) e es = Some es' \<Longrightarrow>
     index_lookup es' k = (if k = entry_key e then Some e else index_lookup es k)"
  by (induction es arbitrary: es') (auto simp: index_lookup_def split: if_splits)

lemma index_lookup_None: "index_lookup es k = None \<longleftrightarrow> k \<notin> set (map entry_key es)"
  by (auto simp: index_lookup_def find_None_iff)

lemma index_lookup_insert: "index_lookup (index_insert e es) = (index_lookup es)(entry_key e \<mapsto> e)"
proof
  fix k
  show "index_lookup (index_insert e es) k = ((index_lookup es)(entry_key e \<mapsto> e)) k"
  proof (cases "replace_first (\<lambda>x. entry_key x = entry_key e) e es")
    case None
    then have "index_lookup es (entry_key e) = None" by (auto simp: replace_first_None index_lookup_None)
    with None show ?thesis
      by (auto simp: index_insert_key index_lookup_def find_append split: option.splits)
  next
    case (Some es')
    then show ?thesis using index_lookup_replace [OF Some] by (simp add: index_insert_key)
  qed
qed

lemma index_lookup_delete: "index_lookup (index_delete k es) = (index_lookup es)(k := None)"
proof
  fix j
  show "index_lookup (index_delete k es) j = ((index_lookup es)(k := None)) j"
    by (induction es) (auto simp: index_lookup_def index_delete_def)
qed

lemma index_inv_insert: "index_inv es \<Longrightarrow> index_inv (index_insert e es)"
proof (cases "replace_first (\<lambda>x. entry_key x = entry_key e) e es")
  case None
  assume "index_inv es"
  moreover from None have "entry_key e \<notin> set (map entry_key es)" by (auto simp: replace_first_None)
  ultimately show ?thesis using None by (simp add: index_insert_key index_inv_def)
next
  case (Some es')
  assume "index_inv es"
  with Some replace_first_keys [OF Some] show ?thesis by (simp add: index_insert_key index_inv_def)
qed

lemma index_inv_delete: "index_inv es \<Longrightarrow> index_inv (index_delete k es)"
  by (simp add: index_inv_def index_delete_def distinct_map_filter)

interpretation idx: keyed_store index_inv entry_key index_lookup "\<lambda>e es. Some (index_insert e es)"
    "\<lambda>k es. Some (index_delete k es)"
  by unfold_locales (auto simp: index_inv_insert index_inv_delete index_lookup_insert index_lookup_delete)

fun index_do :: "(bytes, index_entry) store_op \<Rightarrow> index \<Rightarrow> index" where
  "index_do (Put e) es = index_insert e es"
| "index_do (Del path) es = fst (index_remove path es)"

fun key_op :: "(bytes, 'v) store_op \<Rightarrow> (bytes, 'v) store_op" where
  "key_op (Put e) = Put e"
| "key_op (Del path) = Del (path_storage_bytes path)"

lemma index_do_step: "idx.step (key_op u) es = Some (index_do u es)"
  by (cases u) (simp_all add: index_remove_delete)

lemma index_do_run: "idx.run (map key_op us) es = Some (fold index_do us es)"
  by (induction us arbitrary: es) (simp_all add: index_do_step)

text \<open>C15: the index is a map from stored paths to entries. After any sequence of inserts and removals on
  a new index, \<open>find\<close> returns what the same sequence of updates and deletions leaves in a map, and no two
  entries have the same stored path.\<close>
theorem index_refines_map:
  "index_find (fold index_do us index_new) p
     = fold idx.map_step (map key_op us) Map.empty (path_storage_bytes p)
   \<and> distinct (map entry_key (fold index_do us index_new))"
proof -
  have i: "index_inv index_new" by (simp add: index_inv_def index_new_def)
  have e: "index_lookup index_new = Map.empty" by (simp add: index_lookup_def index_new_def fun_eq_iff)
  show ?thesis
    using idx.run_refines [OF i index_do_run, of us]
    by (simp add: index_find_lookup e index_inv_def)
qed

end
