(* ===== verification/Fs.thy ===== *)
theory Fs
  imports Prelude "HOL-Library.AList"
begin

text \<open>
  \<open>src/fs_util.rs\<close>: atomic file replacement and lock files, over a model of the file system.

  A file system maps absolute paths, as lists of components, to nodes. Only failures that the state
  determines are modelled (a component that is not a directory, a directory in the place of a file), not
  those of the device. Directories on the way to a file are real directories. \<open>atomic_write\<close> is the whole
  operation; the step relations below give every intermediate state, in any interleaving of writers and
  with writes that stop half-way.
\<close>

section \<open>The file system\<close>

type_synonym fpath = "bytes list"

datatype node = File (file_data: bytes) (file_mode: "32 word") | Dir | Symlink fpath

type_synonym fs = "(fpath \<times> node) list"

abbreviation fs_get :: "fs \<Rightarrow> fpath \<Rightarrow> node option" where "fs_get \<equiv> map_of"
abbreviation fs_put :: "fpath \<Rightarrow> node \<Rightarrow> fs \<Rightarrow> fs" where "fs_put \<equiv> AList.update"
abbreviation fs_del :: "fpath \<Rightarrow> fs \<Rightarrow> fs" where "fs_del \<equiv> AList.delete"

definition ELOOP_MAX :: nat where "ELOOP_MAX = 40"

fun deref :: "nat \<Rightarrow> fs \<Rightarrow> fpath \<Rightarrow> node option" where
  "deref n fs p =
     (case fs_get fs p of
        Some (Symlink t) \<Rightarrow> (case n of 0 \<Rightarrow> None | Suc m \<Rightarrow> deref m fs t)
      | r \<Rightarrow> r)"

declare deref.simps [simp del]

definition path_exists :: "fs \<Rightarrow> fpath \<Rightarrow> bool" where
  "path_exists fs p \<longleftrightarrow> deref ELOOP_MAX fs p \<noteq> None"

definition read_all :: "fs \<Rightarrow> fpath \<Rightarrow> bytes res" where
  "read_all fs p =
     (case deref ELOOP_MAX fs p of
        Some (File data _) \<Rightarrow> Inr data
      | Some _ \<Rightarrow> Inl (EIo ''is a directory'')
      | None \<Rightarrow> Inl (EIo ''not found''))"

fun ensure_dirs :: "fs \<Rightarrow> fpath list \<Rightarrow> unit res \<times> fs" where
  "ensure_dirs fs [] = (Inr (), fs)"
| "ensure_dirs fs (d # ds) =
     (case fs_get fs d of
        Some Dir \<Rightarrow> ensure_dirs fs ds
      | None \<Rightarrow> ensure_dirs (fs_put d Dir fs) ds
      | Some _ \<Rightarrow> (Inl (EIo ''not a directory''), fs))"

definition create_dir_all :: "fs \<Rightarrow> fpath \<Rightarrow> unit res \<times> fs" where
  "create_dir_all fs dir = ensure_dirs fs (map (\<lambda>i. take i dir) [1..<Suc (length dir)])"

definition remove_file :: "fs \<Rightarrow> fpath \<Rightarrow> unit res \<times> fs" where
  "remove_file fs p =
     (case fs_get fs p of
        None \<Rightarrow> (Inl (EIo ''not found''), fs)
      | Some Dir \<Rightarrow> (Inl (EIo ''is a directory''), fs)
      | Some _ \<Rightarrow> (Inr (), fs_del p fs))"

section \<open>Atomic writes\<close>

definition split_last_dot :: "bytes \<Rightarrow> (bytes \<times> bytes) option" where
  \<comment> \<open>\<open>file_stem\<close> and \<open>extension\<close>: cut at the last dot, unless that is the first byte\<close>
  "split_last_dot name =
     (case position (\<lambda>b. b = 46) (rev name) of
        None \<Rightarrow> None
      | Some i \<Rightarrow> (let cut = length name - i - 1 in
                   if cut = 0 then None else Some (take cut name, drop (cut + 1) name)))"

definition extension :: "bytes \<Rightarrow> bytes" where
  "extension name = (case split_last_dot name of None \<Rightarrow> [] | Some (_, ext) \<Rightarrow> ext)"

definition file_stem :: "bytes \<Rightarrow> bytes" where
  "file_stem name = (case split_last_dot name of None \<Rightarrow> name | Some (stem, _) \<Rightarrow> stem)"

definition tmp_name :: "bytes \<Rightarrow> bytes \<Rightarrow> bytes" where
  \<comment> \<open>\<open>with_extension\<close>; \<open>nonce\<close> is the text of process, thread and sequence number\<close>
  "tmp_name name nonce =
     file_stem name @ ascii ''.''
       @ ((if valid_utf8 (extension name) then extension name else []) @ ascii ''.tmp.'' @ nonce)"

definition tmp_path :: "fpath \<Rightarrow> bytes \<Rightarrow> fpath" where
  "tmp_path path nonce = butlast path @ [tmp_name (last path) nonce]"

definition default_mode_for :: "fpath \<Rightarrow> 32 word" where
  "default_mode_for path = (if ascii ''.gyt'' \<in> set path then 384 else 420)"

definition atomic_write_with_mode :: "bytes \<Rightarrow> fs \<Rightarrow> fpath \<Rightarrow> bytes \<Rightarrow> 32 word \<Rightarrow> unit res \<times> fs" where
  "atomic_write_with_mode nonce fs path data mode =
     (case create_dir_all fs (butlast path) of
        (Inl e, fs1) \<Rightarrow> (Inl e, fs1)
      | (Inr _, fs1) \<Rightarrow>
        (let tmp = tmp_path path nonce in
         case fs_get fs1 tmp of
           Some Dir \<Rightarrow> (Inl (EIo ''is a directory''), fs1)
         | _ \<Rightarrow>
           (let fs2 = fs_put tmp (File data mode) fs1 in
            case fs_get fs2 path of
              Some Dir \<Rightarrow> (Inl (EIo ''is a directory''), fs2)
            | _ \<Rightarrow> (Inr (), fs_put path (File data mode) (fs_del tmp fs2)))))"

definition atomic_write :: "bytes \<Rightarrow> fs \<Rightarrow> fpath \<Rightarrow> bytes \<Rightarrow> unit res \<times> fs" where
  "atomic_write nonce fs path data = atomic_write_with_mode nonce fs path data (default_mode_for path)"

section \<open>The state after an atomic write\<close>

lemma deref_file: "fs_get fs p = Some (File d m) \<Longrightarrow> deref n fs p = Some (File d m)"
  by (subst deref.simps) simp

lemma deref_dir: "fs_get fs p = Some Dir \<Longrightarrow> deref n fs p = Some Dir"
  by (subst deref.simps) simp

lemma deref_none: "fs_get fs p = None \<Longrightarrow> deref n fs p = None"
  by (subst deref.simps) simp

lemma read_all_get: "read_all fs p = Inr d \<Longrightarrow> fs_get fs p \<noteq> None"
  by (rule notI) (simp add: read_all_def deref_none)

lemma read_all_file: "fs_get fs p = Some (File d m) \<Longrightarrow> read_all fs p = Inr d"
  by (simp add: read_all_def deref_file)

lemma ensure_dirs_get:
  "ensure_dirs fs ds = (r, fs') \<Longrightarrow> fs_get fs' p = fs_get fs p \<or> (fs_get fs p = None \<and> fs_get fs' p = Some Dir)"
proof (induction fs ds rule: ensure_dirs.induct)
  case (2 fs d ds)
  then show ?case by (auto simp: update_conv split: option.splits node.splits if_splits)
qed simp

lemma ensure_dirs_outside: "ensure_dirs fs ds = (r, fs') \<Longrightarrow> p \<notin> set ds \<Longrightarrow> fs_get fs' p = fs_get fs p"
proof (induction fs ds rule: ensure_dirs.induct)
  case (2 fs d ds)
  then show ?case by (auto simp: update_conv split: option.splits node.splits)
qed simp

lemma ensure_dirs_Cons:
  assumes "ensure_dirs fs (d # ds) = (Inr u, fs')"
  obtains fs1 where "fs_get fs1 d = Some Dir" "ensure_dirs fs1 ds = (Inr u, fs')"
proof (cases "fs_get fs d")
  case None
  with assms show thesis by (intro that [of "fs_put d Dir fs"]) (simp_all add: update_conv)
next
  case (Some n)
  with assms show thesis by (intro that [of fs]) (auto split: node.splits)
qed

lemma ensure_dirs_ok: "ensure_dirs fs ds = (Inr u, fs') \<Longrightarrow> p \<in> set ds \<Longrightarrow> fs_get fs' p = Some Dir"
proof (induction ds arbitrary: fs)
  case (Cons d ds)
  obtain fs1 where fs1: "fs_get fs1 d = Some Dir" "ensure_dirs fs1 ds = (Inr u, fs')"
    by (rule ensure_dirs_Cons [OF Cons.prems(1)])
  show ?case
  proof (cases "p = d")
    case True
    then show ?thesis using ensure_dirs_get [OF fs1(2), of d] fs1(1) by simp
  next
    case False
    then show ?thesis using Cons.IH [OF fs1(2)] Cons.prems(2) by simp
  qed
qed simp

lemma create_dir_all_file:
  "create_dir_all fs d = (r, fs') \<Longrightarrow> fs_get fs p = Some n \<Longrightarrow> fs_get fs' p = Some n"
  using ensure_dirs_get [of fs _ r fs' p] by (auto simp: create_dir_all_def)

lemma create_dir_all_leaf: "create_dir_all fs (butlast p) = (r, fs') \<Longrightarrow> p \<noteq> [] \<Longrightarrow> fs_get fs' p = fs_get fs p"
proof -
  assume c: "create_dir_all fs (butlast p) = (r, fs')" and "p \<noteq> []"
  then have "length q < length p" if "q \<in> set (map (\<lambda>i. take i (butlast p)) [1..<Suc (length (butlast p))])" for q
    using that by (auto simp: less_Suc_eq_le min_def)
  then have "p \<notin> set (map (\<lambda>i. take i (butlast p)) [1..<Suc (length (butlast p))])" by blast
  with c show ?thesis unfolding create_dir_all_def by (intro ensure_dirs_outside)
qed

lemma split_last_dot_parts: "split_last_dot name = Some (u, v) \<Longrightarrow> name = u @ 46 # v"
proof -
  assume "split_last_dot name = Some (u, v)"
  then obtain i where i: "position (\<lambda>b. b = 46) (rev name) = Some i" "u = take (length name - i - 1) name"
      "v = drop (length name - i - 1 + 1) name" "length name - i - 1 \<noteq> 0"
    by (auto simp: split_last_dot_def Let_def split: option.splits if_splits)
  from position_SomeD [OF i(1)] have l: "i < length name" "name ! (length name - i - 1) = 46"
    by (auto simp: rev_nth)
  then show "name = u @ 46 # v"
    using id_take_nth_drop [of "length name - i - 1" name] i(2-4) by simp
qed

lemma split_last_dot_join: "46 \<notin> set ext \<Longrightarrow> u \<noteq> [] \<Longrightarrow> split_last_dot (u @ 46 # ext) = Some (u, ext)"
proof -
  assume a: "46 \<notin> set ext" "u \<noteq> []"
  have "position (\<lambda>b. b = 46) (rev ext @ 46 # rev u) = Some (length (rev ext))"
    using a(1) by (intro position_append_hit) auto
  then show "split_last_dot (u @ 46 # ext) = Some (u, ext)" using a(2) by (simp add: split_last_dot_def)
qed

lemma file_stem_join: "46 \<notin> set ext \<Longrightarrow> u \<noteq> [] \<Longrightarrow> file_stem (u @ 46 # ext) = u"
  and extension_join: "46 \<notin> set ext \<Longrightarrow> u \<noteq> [] \<Longrightarrow> extension (u @ 46 # ext) = ext"
  by (simp_all add: file_stem_def extension_def split_last_dot_join)

lemma split_last_dot_ext: "split_last_dot name = Some (u, v) \<Longrightarrow> 46 \<notin> set v"
proof -
  assume "split_last_dot name = Some (u, v)"
  then obtain i where i: "position (\<lambda>b. b = 46) (rev name) = Some i"
      "v = drop (length name - i - 1 + 1) name" "length name - i - 1 \<noteq> 0"
    by (auto simp: split_last_dot_def Let_def split: option.splits if_splits)
  then have "v = drop (length name - i) name" by (simp add: Suc_diff_Suc)
  then show "46 \<notin> set v" using position_SomeD [OF i(1)] by (auto simp: take_rev)
qed

lemma tmp_name_differs: "tmp_name name n \<noteq> name"
proof (cases "split_last_dot name")
  case None
  then show ?thesis by (simp add: tmp_name_def file_stem_def extension_def)
next
  case (Some uv)
  obtain u v where uv: "uv = (u, v)" by (rule prod.exhaust)
  have p: "name = u @ 46 # v" "46 \<notin> set v"
    using split_last_dot_parts split_last_dot_ext Some uv by blast+
  have t: "tmp_name name n = u @ 46 # ((if valid_utf8 v then v else []) @ ascii ''.tmp.'' @ n)"
    using Some uv by (simp add: tmp_name_def file_stem_def extension_def)
  show ?thesis
  proof
    assume "tmp_name name n = name"
    with t p(1) have e: "v = (if valid_utf8 v then v else []) @ ascii ''.tmp.'' @ n" by simp
    have "46 \<in> set ((if valid_utf8 v then v else []) @ ascii ''.tmp.'' @ n)" by simp
    then have "46 \<in> set v" by (simp only: e [symmetric])
    with p(2) show False by simp
  qed
qed

lemma tmp_name_inj: "tmp_name name n = tmp_name name n' \<longleftrightarrow> n = n'"
  by (simp add: tmp_name_def)

lemma tmp_path_inj: "tmp_path p n = tmp_path p n' \<longleftrightarrow> n = n'"
  by (simp add: tmp_path_def tmp_name_inj)

lemma tmp_path_differs: "p \<noteq> [] \<Longrightarrow> tmp_path p n \<noteq> p"
  using tmp_name_differs [of "last p" n] by (metis append_butlast_last_id append_same_eq last_snoc tmp_path_def)

text \<open>What a successful atomic write leaves behind: the new contents at the path, directories above it,
  and every other file as it was, apart from the temporary name.\<close>

lemma atomic_write_ok:
  assumes "atomic_write_with_mode nonce fs path data mode = (Inr u, fs')" "path \<noteq> []"
  shows "fs_get fs' path = Some (File data mode)"
    and "p \<noteq> path \<Longrightarrow> p \<noteq> tmp_path path nonce \<Longrightarrow>
      fs_get fs' p = fs_get fs p \<or> (fs_get fs p = None \<and> fs_get fs' p = Some Dir \<and> strict_prefix p path)"
    and "fs_get fs' (tmp_path path nonce) = None"
proof -
  let ?tmp = "tmp_path path nonce"
  obtain fs1 where fs1: "create_dir_all fs (butlast path) = (Inr (), fs1)"
    and fs': "fs' = fs_put path (File data mode) (fs_del ?tmp (fs_put ?tmp (File data mode) fs1))"
    using assms(1) by (auto simp: atomic_write_with_mode_def Let_def split: prod.splits sum.splits option.splits node.splits)
  have tmp: "?tmp \<noteq> path" using tmp_path_differs [OF assms(2)] .
  show "fs_get fs' path = Some (File data mode)" by (simp add: fs' update_conv)
  show "fs_get fs' ?tmp = None" using tmp by (simp add: fs' update_conv delete_conv)
  assume p: "p \<noteq> path" "p \<noteq> ?tmp"
  then have get: "fs_get fs' p = fs_get fs1 p" by (simp add: fs' update_conv delete_conv)
  show "fs_get fs' p = fs_get fs p \<or> (fs_get fs p = None \<and> fs_get fs' p = Some Dir \<and> strict_prefix p path)"
  proof (cases "p \<in> set (map (\<lambda>i. take i (butlast path)) [1..<Suc (length (butlast path))])")
    case False
    then show ?thesis using ensure_dirs_outside [OF fs1 [unfolded create_dir_all_def]] get by simp
  next
    case True
    then have "prefix p (butlast path)" by (auto simp: take_is_prefix)
    then have "prefix p path" by (meson prefix_order.trans prefixeq_butlast)
    with p(1) have "strict_prefix p path" by simp
    then show ?thesis using ensure_dirs_get [OF fs1 [unfolded create_dir_all_def], of p] get by auto
  qed
qed

lemma atomic_write_succeeds:
  assumes "create_dir_all fs (butlast path) = (Inr (), fs1)" "fs_get fs1 path \<noteq> Some Dir"
    "fs_get fs1 (tmp_path path nonce) \<noteq> Some Dir"
  shows "\<exists>fs'. atomic_write nonce fs path data = (Inr (), fs')"
  using assms
  by (auto simp: atomic_write_def atomic_write_with_mode_def Let_def update_conv split: option.splits node.splits)

section \<open>The tree invariant\<close>

text \<open>Every node below the root lies in a directory.\<close>

definition fs_tree :: "fs \<Rightarrow> bool" where
  "fs_tree fs \<longleftrightarrow> (\<forall>p n. fs_get fs p = Some n \<longrightarrow> 1 < length p \<longrightarrow> fs_get fs (butlast p) = Some Dir)"

lemma fs_tree_put:
  assumes "fs_tree fs" "fs_get fs p \<noteq> Some Dir" "1 < length p \<Longrightarrow> fs_get fs (butlast p) = Some Dir"
  shows "fs_tree (fs_put p n fs)"
  unfolding fs_tree_def
proof (intro allI impI)
  fix q m
  assume q: "fs_get (fs_put p n fs) q = Some m" "1 < length q"
  have "butlast p \<noteq> p" if "1 < length p" using that by (auto dest: arg_cong [of _ _ length])
  then show "fs_get (fs_put p n fs) (butlast q) = Some Dir"
    using assms q by (auto simp: update_conv fs_tree_def split: if_splits)
qed

lemma fs_tree_del: "fs_tree fs \<Longrightarrow> fs_get fs p \<noteq> Some Dir \<Longrightarrow> fs_tree (fs_del p fs)"
  unfolding fs_tree_def by (auto simp: delete_conv)

lemma ensure_dirs_tree:
  "ensure_dirs fs (map (\<lambda>i. take i dir) [j..<k]) = (r, fs') \<Longrightarrow> fs_tree fs \<Longrightarrow> 1 \<le> j \<Longrightarrow> k \<le> Suc (length dir) \<Longrightarrow>
     (1 < j \<longrightarrow> fs_get fs (take (j - 1) dir) = Some Dir) \<Longrightarrow> fs_tree fs'"
proof (induction "k - j" arbitrary: j fs)
  case (Suc n)
  then have jk: "j < k" by simp
  then have l: "map (\<lambda>i. take i dir) [j..<k] = take j dir # map (\<lambda>i. take i dir) [Suc j..<k]"
    by (simp add: upt_conv_Cons)
  have bl: "butlast (take j dir) = take (j - 1) dir" using jk Suc.prems(4) by (simp add: butlast_take)
  have IH: "fs_tree fs'" if "ensure_dirs fs1 (map (\<lambda>i. take i dir) [Suc j..<k]) = (r, fs')" "fs_tree fs1"
      "fs_get fs1 (take j dir) = Some Dir" for fs1
    using Suc.hyps(1) [of "Suc j" fs1] Suc.hyps(2) Suc.prems(3,4) that by simp
  show ?case
  proof (cases "fs_get fs (take j dir)")
    case None
    have "fs_tree (fs_put (take j dir) Dir fs)"
      by (rule fs_tree_put [OF Suc.prems(2)]) (use None bl Suc.prems jk in auto)
    with IH [of "fs_put (take j dir) Dir fs"] None Suc.prems(1) show ?thesis by (simp add: l update_conv)
  next
    case (Some m)
    then show ?thesis using IH [of fs] Suc.prems(1,2) by (cases m) (simp_all add: l)
  qed
qed simp

lemma create_dir_all_tree: "create_dir_all fs dir = (r, fs') \<Longrightarrow> fs_tree fs \<Longrightarrow> fs_tree fs'"
  unfolding create_dir_all_def by (erule ensure_dirs_tree) simp_all

lemma create_dir_all_dir:
  "create_dir_all fs dir = (Inr u, fs') \<Longrightarrow> dir \<noteq> [] \<Longrightarrow> fs_get fs' dir = Some Dir"
proof -
  assume c: "create_dir_all fs dir = (Inr u, fs')" and "dir \<noteq> []"
  then have "length dir \<in> set [1..<Suc (length dir)]" by (simp add: Suc_le_eq)
  then have "take (length dir) dir \<in> set (map (\<lambda>i. take i dir) [1..<Suc (length dir)])"
    unfolding set_map by (rule imageI)
  from ensure_dirs_ok [OF c [unfolded create_dir_all_def] this] show ?thesis by simp
qed

lemma atomic_write_tree:
  assumes "atomic_write_with_mode nonce fs path data mode = (Inr u, fs')" "path \<noteq> []" "fs_tree fs"
  shows "fs_tree fs'"
proof -
  let ?tmp = "tmp_path path nonce"
  obtain fs1 where fs1: "create_dir_all fs (butlast path) = (Inr (), fs1)" "fs_get fs1 ?tmp \<noteq> Some Dir"
      "fs_get (fs_put ?tmp (File data mode) fs1) path \<noteq> Some Dir"
    and fs': "fs' = fs_put path (File data mode) (fs_del ?tmp (fs_put ?tmp (File data mode) fs1))"
    using assms(1) by (auto simp: atomic_write_with_mode_def Let_def split: prod.splits sum.splits option.splits node.splits)
  have tmp: "?tmp \<noteq> path" "butlast ?tmp = butlast path" "length ?tmp = length path"
    using tmp_path_differs [OF assms(2)] assms(2) by (simp_all add: tmp_path_def)
  have dir: "fs_get fs1 (butlast path) = Some Dir" if "1 < length path"
    by (rule create_dir_all_dir [OF fs1(1)]) (use that in \<open>auto dest: arg_cong [of _ _ length]\<close>)
  have "length (butlast path) \<noteq> length ?tmp" using tmp(3) assms(2) by (cases path) simp_all
  then have ne: "butlast path \<noteq> ?tmp" by metis
  have "fs_tree fs1" by (rule create_dir_all_tree [OF fs1(1) assms(3)])
  then have "fs_tree (fs_put ?tmp (File data mode) fs1)" by (rule fs_tree_put) (use fs1(2) dir tmp in auto)
  then have "fs_tree (fs_del ?tmp (fs_put ?tmp (File data mode) fs1))" by (rule fs_tree_del) (simp add: update_conv)
  then show ?thesis unfolding fs'
    by (rule fs_tree_put) (use fs1(3) tmp dir ne in \<open>simp_all add: update_conv delete_conv\<close>)
qed

lemma remove_file_tree: "remove_file fs p = (Inr u, fs') \<Longrightarrow> fs_tree fs \<Longrightarrow> fs_tree fs'"
  by (auto simp: remove_file_def intro: fs_tree_del split: option.splits node.splits)

section \<open>Concurrent atomic writes, step by step\<close>

text \<open>Any number of writers replace the same file. Each creates its temporary file, appends its data in
  pieces, syncs and renames. A crash is a state at which nobody takes another step, so a property of every
  reachable state is one of every crash.\<close>

datatype writer_pc = Idle | Writing nat | Synced | Renamed

record write_state =
  ws_fs :: fs
  ws_pc :: "nat \<Rightarrow> writer_pc"

inductive write_step :: "fpath \<Rightarrow> (nat \<Rightarrow> bytes) \<Rightarrow> (nat \<Rightarrow> bytes) \<Rightarrow> 32 word \<Rightarrow> write_state \<Rightarrow> write_state \<Rightarrow> bool"
  for path nonce data mode where
  create: "ws_pc s w = Idle \<Longrightarrow>
    write_step path nonce data mode s
      \<lparr>ws_fs = fs_put (tmp_path path (nonce w)) (File [] mode) (ws_fs s), ws_pc = (ws_pc s)(w := Writing 0)\<rparr>"
| append: "ws_pc s w = Writing n \<Longrightarrow> n < m \<Longrightarrow> m \<le> length (data w) \<Longrightarrow>
    fs_get (ws_fs s) (tmp_path path (nonce w)) = Some (File old mode') \<Longrightarrow>
    write_step path nonce data mode s
      \<lparr>ws_fs = fs_put (tmp_path path (nonce w)) (File (old @ take (m - n) (drop n (data w))) mode') (ws_fs s),
       ws_pc = (ws_pc s)(w := Writing m)\<rparr>"
| sync: "ws_pc s w = Writing (length (data w)) \<Longrightarrow>
    write_step path nonce data mode s (s\<lparr>ws_pc := (ws_pc s)(w := Synced)\<rparr>)"
| rename: "ws_pc s w = Synced \<Longrightarrow> fs_get (ws_fs s) (tmp_path path (nonce w)) = Some n \<Longrightarrow>
    write_step path nonce data mode s
      \<lparr>ws_fs = fs_put path n (fs_del (tmp_path path (nonce w)) (ws_fs s)), ws_pc = (ws_pc s)(w := Renamed)\<rparr>"

inductive_cases write_stepE [consumes 1, case_names create append sync rename]: "write_step path nonce data mode s s'"

definition tmp_ok :: "fpath \<Rightarrow> (nat \<Rightarrow> bytes) \<Rightarrow> (nat \<Rightarrow> bytes) \<Rightarrow> 32 word \<Rightarrow> write_state \<Rightarrow> nat \<Rightarrow> bool" where
  "tmp_ok path nonce data mode s w \<longleftrightarrow>
     (case ws_pc s w of
        Writing n \<Rightarrow> fs_get (ws_fs s) (tmp_path path (nonce w)) = Some (File (take n (data w)) mode)
      | Synced \<Rightarrow> fs_get (ws_fs s) (tmp_path path (nonce w)) = Some (File (data w) mode)
      | _ \<Rightarrow> True)"

definition target_ok :: "fpath \<Rightarrow> (nat \<Rightarrow> bytes) \<Rightarrow> 32 word \<Rightarrow> node option \<Rightarrow> write_state \<Rightarrow> bool" where
  "target_ok path data mode old s \<longleftrightarrow>
     (\<forall>w. ws_pc s w \<noteq> Renamed) \<and> fs_get (ws_fs s) path = old
     \<or> (\<exists>w. ws_pc s w = Renamed \<and> fs_get (ws_fs s) path = Some (File (data w) mode))"

lemma target_ok_keep:
  assumes "target_ok path data mode old s" "fs_get (ws_fs s') path = fs_get (ws_fs s) path"
    "\<And>w. ws_pc s' w = Renamed \<longleftrightarrow> ws_pc s w = Renamed"
  shows "target_ok path data mode old s'"
  using assms by (simp add: target_ok_def)

lemma tmp_ok_other:
  assumes "tmp_ok path nonce data mode s v" "ws_pc s' v = ws_pc s v"
    "fs_get (ws_fs s') (tmp_path path (nonce v)) = fs_get (ws_fs s) (tmp_path path (nonce v))"
  shows "tmp_ok path nonce data mode s' v"
  using assms by (cases "ws_pc s v") (simp_all add: tmp_ok_def)

definition write_inv :: "fpath \<Rightarrow> (nat \<Rightarrow> bytes) \<Rightarrow> (nat \<Rightarrow> bytes) \<Rightarrow> 32 word \<Rightarrow> node option \<Rightarrow> write_state \<Rightarrow> bool" where
  "write_inv path nonce data mode old s \<longleftrightarrow>
     target_ok path data mode old s \<and> (\<forall>w. tmp_ok path nonce data mode s w)"

lemma write_inv_step:
  assumes "write_step path nonce data mode s s'" "write_inv path nonce data mode old s"
    and nonces: "inj nonce" and path: "path \<noteq> []"
  shows "write_inv path nonce data mode old s'"
proof -
  have e: "tmp_path path (nonce v) = tmp_path path (nonce w) \<longleftrightarrow> v = w" for v w
    using nonces by (simp add: tmp_path_inj inj_eq)
  have d: "tmp_path path (nonce w) \<noteq> path" "path \<noteq> tmp_path path (nonce w)" for w
    using tmp_path_differs [OF path, of "nonce w"] by simp_all
  have t: "target_ok path data mode old s" and m: "tmp_ok path nonce data mode s w" for w
    using assms(2) by (simp_all add: write_inv_def)
  from assms(1) have "target_ok path data mode old s' \<and> tmp_ok path nonce data mode s' v" for v
  proof (cases rule: write_stepE)
    case (create w)
    have "target_ok path data mode old s'"
      by (rule target_ok_keep [OF t]) (use create d in \<open>simp_all add: update_conv\<close>)
    moreover have "tmp_ok path nonce data mode s' v"
      by (cases "v = w", use create in \<open>simp add: tmp_ok_def update_conv\<close>)
        (rule tmp_ok_other [OF m], use create e in \<open>simp_all add: update_conv\<close>)
    ultimately show ?thesis ..
  next
    case (append w n k old' mode')
    have f: "File (old' @ take (k - n) (drop n (data w))) mode' = File (take k (data w)) mode"
      using append m [of w] take_add [of n "k - n" "data w"] by (simp add: tmp_ok_def)
    have "target_ok path data mode old s'"
      by (rule target_ok_keep [OF t]) (use append d in \<open>simp_all add: update_conv\<close>)
    moreover have "tmp_ok path nonce data mode s' v"
      by (cases "v = w", use append f in \<open>simp add: tmp_ok_def update_conv\<close>)
        (rule tmp_ok_other [OF m], use append e in \<open>simp_all add: update_conv\<close>)
    ultimately show ?thesis ..
  next
    case (sync w)
    have "target_ok path data mode old s'"
      by (rule target_ok_keep [OF t]) (use sync in simp_all)
    moreover have "tmp_ok path nonce data mode s' v"
      by (cases "v = w", use m [of w] sync in \<open>simp add: tmp_ok_def\<close>)
        (rule tmp_ok_other [OF m], use sync in simp_all)
    ultimately show ?thesis ..
  next
    case (rename w n)
    have n: "n = File (data w) mode" using rename m [of w] by (simp add: tmp_ok_def)
    have "target_ok path data mode old s'"
      unfolding target_ok_def using rename n by (intro disjI2 exI [of _ w]) (simp add: update_conv)
    moreover have "tmp_ok path nonce data mode s' v"
      by (cases "v = w", use rename in \<open>simp add: tmp_ok_def\<close>)
        (rule tmp_ok_other [OF m], use rename e d in \<open>simp_all add: update_conv delete_conv\<close>)
    ultimately show ?thesis ..
  qed
  then show ?thesis by (simp add: write_inv_def)
qed

definition write_init :: "fs \<Rightarrow> write_state" where
  "write_init fs = \<lparr>ws_fs = fs, ws_pc = (\<lambda>_. Idle)\<rparr>"

lemma write_inv_reachable:
  assumes "(write_step path nonce data mode)\<^sup>*\<^sup>* (write_init fs) s" "inj nonce" "path \<noteq> []"
  shows "write_inv path nonce data mode (fs_get fs path) s"
  using assms(1)
proof (induction rule: rtranclp_induct)
  case base
  then show ?case by (simp add: write_inv_def write_init_def target_ok_def tmp_ok_def)
next
  case (step s s')
  then show ?case using write_inv_step assms(2,3) by blast
qed


definition sample_nonce :: "nat \<Rightarrow> bytes" where "sample_nonce w = replicate w 48"

lemma inj_sample_nonce: "inj sample_nonce"
  by (auto simp: inj_def sample_nonce_def dest: arg_cong [of _ _ length])

lemma sample_write:
  "\<exists>s. (write_step [[97]] sample_nonce (\<lambda>_. [1, 2]) 384)\<^sup>*\<^sup>* (write_init [([[97]], File [9] 384)]) s \<and> ws_pc s 0 = Renamed"
proof -
  let ?R = "write_step [[97]] sample_nonce (\<lambda>_. [1, 2]) 384"
  let ?t = "tmp_path [[97]] (sample_nonce 0)"
  let ?s0 = "write_init [([[97]], File [9] 384)]"
  let ?s1 = "\<lparr>ws_fs = fs_put ?t (File [] 384) (ws_fs ?s0), ws_pc = (ws_pc ?s0)(0 := Writing 0)\<rparr>"
  let ?s2 = "\<lparr>ws_fs = fs_put ?t (File [1, 2] 384) (ws_fs ?s1), ws_pc = (ws_pc ?s1)(0 := Writing 2)\<rparr>"
  let ?s3 = "?s2\<lparr>ws_pc := (ws_pc ?s2)(0 := Synced)\<rparr>"
  let ?s4 = "\<lparr>ws_fs = fs_put [[97]] (File [1, 2] 384) (fs_del ?t (ws_fs ?s3)), ws_pc = (ws_pc ?s3)(0 := Renamed)\<rparr>"
  have "?R ?s0 ?s1" by (rule write_step.create) (simp add: write_init_def)
  moreover have "?R ?s1 ?s2"
    using write_step.append [of ?s1 0 0 2 "\<lambda>_. [1, 2]" "[[97]]" sample_nonce "[]" 384 384] by (simp add: update_conv)
  moreover have "?R ?s2 ?s3" by (rule write_step.sync) simp
  moreover have "?R ?s3 ?s4" by (rule write_step.rename) (simp_all add: update_conv)
  ultimately have "?R\<^sup>*\<^sup>* ?s0 ?s4" by (meson rtranclp.rtrancl_into_rtrancl rtranclp.rtrancl_refl)
  moreover have "ws_pc ?s4 0 = Renamed" by simp
  ultimately show ?thesis by blast
qed


section \<open>Lock files\<close>

text \<open>\<open>FileLock\<close>: each process runs the loop of \<open>acquire\<close>. The lock file holds the process id of its
  creator, or none when writing it failed, and its modification time in seconds. \<open>try_reclaim_stale\<close> is
  two observations and a removal, with other processes in between.\<close>

definition STALE_AFTER :: nat where "STALE_AFTER = 60"

type_synonym marker = "nat option \<times> nat"

datatype lock_pc = Trying | Suspect marker | Condemned | Holding | Released | TimedOut | Crashed

record lock_state =
  ls_file :: "marker option"
  ls_pc :: "nat \<Rightarrow> lock_pc"
  ls_now :: nat

datatype lock_event =
    Create nat | CreateUnmarked nat | Look nat | Recheck nat | Unlink nat | GiveUp nat | Release nat
  | Crash nat | Tick

definition pid_alive :: "lock_state \<Rightarrow> nat \<Rightarrow> bool" where
  "pid_alive s p \<longleftrightarrow> ls_pc s p \<noteq> Crashed"

definition looks_stale :: "lock_state \<Rightarrow> marker \<Rightarrow> bool" where
  "looks_stale s m \<longleftrightarrow> ls_now s - snd m > STALE_AFTER
     \<and> (case fst m of Some p \<Rightarrow> \<not> pid_alive s p | None \<Rightarrow> True)"

inductive lock_step :: "lock_state \<Rightarrow> lock_event \<Rightarrow> lock_state \<Rightarrow> bool" where
  create: "ls_pc s p = Trying \<Longrightarrow> ls_file s = None \<Longrightarrow>
    lock_step s (Create p) (s\<lparr>ls_file := Some (Some p, ls_now s), ls_pc := (ls_pc s)(p := Holding)\<rparr>)"
| create_unmarked: "ls_pc s p = Trying \<Longrightarrow> ls_file s = None \<Longrightarrow>
    lock_step s (CreateUnmarked p) (s\<lparr>ls_file := Some (None, ls_now s), ls_pc := (ls_pc s)(p := Holding)\<rparr>)"
| look: "ls_pc s p = Trying \<Longrightarrow> ls_file s = Some m \<Longrightarrow> looks_stale s m \<Longrightarrow>
    lock_step s (Look p) (s\<lparr>ls_pc := (ls_pc s)(p := Suspect m)\<rparr>)"
| recheck_same: "ls_pc s p = Suspect m \<Longrightarrow> ls_file s = Some m \<Longrightarrow>
    lock_step s (Recheck p) (s\<lparr>ls_pc := (ls_pc s)(p := Condemned)\<rparr>)"
| recheck_changed: "ls_pc s p = Suspect m \<Longrightarrow> ls_file s \<noteq> Some m \<Longrightarrow>
    lock_step s (Recheck p) (s\<lparr>ls_pc := (ls_pc s)(p := Trying)\<rparr>)"
| unlink: "ls_pc s p = Condemned \<Longrightarrow>
    lock_step s (Unlink p) (s\<lparr>ls_file := None, ls_pc := (ls_pc s)(p := Trying)\<rparr>)"
| give_up: "ls_pc s p = Trying \<Longrightarrow> ls_file s \<noteq> None \<Longrightarrow>
    lock_step s (GiveUp p) (s\<lparr>ls_pc := (ls_pc s)(p := TimedOut)\<rparr>)"
| release: "ls_pc s p = Holding \<Longrightarrow>
    lock_step s (Release p) (s\<lparr>ls_file := None, ls_pc := (ls_pc s)(p := Released)\<rparr>)"
| crash: "lock_step s (Crash p) (s\<lparr>ls_pc := (ls_pc s)(p := Crashed)\<rparr>)"
| tick: "lock_step s Tick (s\<lparr>ls_now := ls_now s + 1\<rparr>)"

inductive_cases lock_stepE [consumes 1, case_names create create_unmarked look recheck_same recheck_changed
    unlink give_up release crash tick]: "lock_step s e s'"

inductive lock_run :: "lock_state \<Rightarrow> lock_event list \<Rightarrow> lock_state \<Rightarrow> bool" where
  start: "lock_run s [] s"
| more: "lock_run s es t \<Longrightarrow> lock_step t e u \<Longrightarrow> lock_run s (es @ [e]) u"

definition lock_init :: lock_state where
  "lock_init = \<lparr>ls_file = None, ls_pc = (\<lambda>_. Trying), ls_now = 0\<rparr>"

fun orderly :: "lock_event \<Rightarrow> bool" where
  "orderly (Crash p) = False"
| "orderly (CreateUnmarked p) = False"
| "orderly _ = True"

fun marked_by :: "marker option \<Rightarrow> nat option" where
  "marked_by (Some (Some p, t)) = Some p"
| "marked_by _ = None"

definition calm :: "lock_pc \<Rightarrow> bool" where
  "calm c = (case c of Suspect _ \<Rightarrow> False | Condemned \<Rightarrow> False | Crashed \<Rightarrow> False | _ \<Rightarrow> True)"

definition lock_inv :: "lock_state \<Rightarrow> bool" where
  "lock_inv s \<longleftrightarrow> (\<forall>p. ls_pc s p = Holding \<longleftrightarrow> marked_by (ls_file s) = Some p) \<and> (\<forall>p. calm (ls_pc s p))
     \<and> (ls_file s \<noteq> None \<longrightarrow> marked_by (ls_file s) \<noteq> None)"

lemma lock_inv_step:
  assumes "lock_step s e s'" "lock_inv s" "orderly e"
  shows "lock_inv s'"
proof -
  have h: "ls_pc s p = Holding \<longleftrightarrow> marked_by (ls_file s) = Some p" and c: "calm (ls_pc s p)" for p
    using assms(2) by (simp_all add: lock_inv_def)
  have f: "ls_file s \<noteq> None \<Longrightarrow> marked_by (ls_file s) \<noteq> None" using assms(2) by (simp add: lock_inv_def)
  from assms(1) show ?thesis
  proof (cases rule: lock_stepE)
    case (create p)
    with h c f show ?thesis by (simp add: lock_inv_def calm_def)
  next
    case (look p m)
    then obtain q where "marked_by (ls_file s) = Some q" using f by auto
    moreover from this look(4) have "fst m = Some q" by (cases "ls_file s" rule: marked_by.cases) auto
    moreover have "ls_pc s q \<noteq> Crashed" using h [of q] calculation(1) by simp
    ultimately show ?thesis using look(5) by (simp add: looks_stale_def pid_alive_def)
  next
    case (recheck_same p m)
    with c [of p] show ?thesis by (simp add: calm_def)
  next
    case (recheck_changed p m)
    with c [of p] show ?thesis by (simp add: calm_def)
  next
    case (unlink p)
    with c [of p] show ?thesis by (simp add: calm_def)
  next
    case (give_up p)
    then have "marked_by (ls_file s) \<noteq> Some p" using h [of p] by simp
    with give_up h c f show ?thesis by (simp add: lock_inv_def calm_def)
  next
    case (release p)
    have "ls_pc s q = Holding \<longleftrightarrow> q = p" for q using h [of q] h [of p] release by auto
    with release c show ?thesis by (simp add: lock_inv_def calm_def)
  next
    case tick
    with h c f show ?thesis by (simp add: lock_inv_def)
  qed (use assms(3) in simp_all)
qed

lemma lock_inv_run: "lock_run s es t \<Longrightarrow> lock_inv s \<Longrightarrow> list_all orderly es \<Longrightarrow> lock_inv t"
  by (induction rule: lock_run.induct) (auto intro: lock_inv_step)


lemma lock_run_append: "lock_run t fs u \<Longrightarrow> lock_run s es t \<Longrightarrow> lock_run s (es @ fs) u"
proof (induction rule: lock_run.induct)
  case (more t fs v e u)
  then have "lock_run s ((es @ fs) @ [e]) u" by (intro lock_run.more) auto
  then show ?case by simp
qed simp

lemma lock_run_ticks: "lock_run s (replicate n Tick) (s\<lparr>ls_now := ls_now s + n\<rparr>)"
proof (induction n)
  case 0
  then show ?case using lock_run.start [of s] by simp
next
  case (Suc n)
  from lock_run.more [OF Suc lock_step.tick] show ?case by (simp add: replicate_append_same)
qed

lemma lock_run_one: "lock_step s e t \<Longrightarrow> lock_run s [e] t"
  using lock_run.more [OF lock_run.start] by simp

lemma lock_run_four:
  assumes "lock_step s e t" "lock_step t f u" "lock_step u g v" "lock_step v h w"
  shows "lock_run s [e, f, g, h] w"
  using lock_run.more [OF lock_run.more [OF lock_run.more [OF lock_run_one]], OF assms] by simp


text \<open>The state after process 0 took the lock, died, and 61 seconds passed, and processes 1 and 2 have
  both looked twice.\<close>

definition lock_both_condemned :: lock_state where
  "lock_both_condemned = \<lparr>ls_file = Some (Some 0, 0),
     ls_pc = (\<lambda>_. Trying)(0 := Crashed, 1 := Condemned, 2 := Condemned), ls_now = 61\<rparr>"

lemma reach_both_condemned:
  "lock_run lock_init ([Create 0, Crash 0] @ replicate 61 Tick @ [Look 1, Look 2, Recheck 1, Recheck 2]) lock_both_condemned"
proof -
  let ?m = "(Some 0, 0) :: marker"
  let ?s1 = "\<lparr>ls_file = Some ?m, ls_pc = (\<lambda>_. Trying)(0 := Holding), ls_now = 0\<rparr>"
  let ?s2 = "\<lparr>ls_file = Some ?m, ls_pc = (\<lambda>_. Trying)(0 := Crashed), ls_now = 0\<rparr>"
  let ?s3 = "\<lparr>ls_file = Some ?m, ls_pc = (\<lambda>_. Trying)(0 := Crashed), ls_now = 61\<rparr>"
  let ?s4 = "?s3\<lparr>ls_pc := (ls_pc ?s3)(1 := Suspect ?m)\<rparr>"
  let ?s5 = "?s4\<lparr>ls_pc := (ls_pc ?s4)(2 := Suspect ?m)\<rparr>"
  let ?s6 = "?s5\<lparr>ls_pc := (ls_pc ?s5)(1 := Condemned)\<rparr>"
  let ?s7 = "?s6\<lparr>ls_pc := (ls_pc ?s6)(2 := Condemned)\<rparr>"
  have "lock_step lock_init (Create 0) ?s1"
    using lock_step.create [of lock_init 0] by (simp add: lock_init_def)
  moreover have "lock_step ?s1 (Crash 0) ?s2" using lock_step.crash [of ?s1 0] by simp
  ultimately have a: "lock_run lock_init [Create 0, Crash 0] ?s2"
    using lock_run.more [OF lock_run_one, of lock_init "Create 0" ?s1 "Crash 0" ?s2] by simp
  have b: "lock_run ?s2 (replicate 61 Tick) ?s3" using lock_run_ticks [of ?s2 61] by simp
  have "lock_step ?s3 (Look 1) ?s4" by (rule lock_step.look) (simp_all add: looks_stale_def STALE_AFTER_def pid_alive_def)
  moreover have "lock_step ?s4 (Look 2) ?s5"
    by (rule lock_step.look) (simp_all add: looks_stale_def STALE_AFTER_def pid_alive_def)
  moreover have "lock_step ?s5 (Recheck 1) ?s6" by (rule lock_step.recheck_same) simp_all
  moreover have "lock_step ?s6 (Recheck 2) ?s7" by (rule lock_step.recheck_same) simp_all
  ultimately have c: "lock_run ?s3 [Look 1, Look 2, Recheck 1, Recheck 2] ?s7" by (rule lock_run_four)
  have "?s7 = lock_both_condemned" by (simp add: lock_both_condemned_def fun_eq_iff)
  with lock_run_append [OF lock_run_append [OF c b] a] show ?thesis by simp
qed

text \<open>Mutual exclusion fails when a lock left behind by a dead process is reclaimed by two processes
  at once. After both have checked the stale file twice, one removes it and takes the lock; the other then
  removes the first one's fresh lock file and takes the lock as well. Both are alive and hold it.\<close>
theorem lock_reclaim_race:
  "\<exists>es s. lock_run lock_init es s \<and> ls_pc s 1 = Holding \<and> ls_pc s 2 = Holding
     \<and> {p. Crash p \<in> set es} = {0}"
proof -
  let ?s0 = lock_both_condemned
  let ?s1 = "?s0\<lparr>ls_file := None, ls_pc := (ls_pc ?s0)(1 := Trying)\<rparr>"
  let ?s2 = "?s1\<lparr>ls_file := Some (Some 1, ls_now ?s1), ls_pc := (ls_pc ?s1)(1 := Holding)\<rparr>"
  let ?s3 = "?s2\<lparr>ls_file := None, ls_pc := (ls_pc ?s2)(2 := Trying)\<rparr>"
  let ?s4 = "?s3\<lparr>ls_file := Some (Some 2, ls_now ?s3), ls_pc := (ls_pc ?s3)(2 := Holding)\<rparr>"
  have "lock_step ?s0 (Unlink 1) ?s1" by (rule lock_step.unlink) (simp add: lock_both_condemned_def)
  moreover have "lock_step ?s1 (Create 1) ?s2" by (rule lock_step.create) simp_all
  moreover have "lock_step ?s2 (Unlink 2) ?s3" by (rule lock_step.unlink) (simp add: lock_both_condemned_def)
  moreover have "lock_step ?s3 (Create 2) ?s4" by (rule lock_step.create) simp_all
  ultimately have "lock_run ?s0 [Unlink 1, Create 1, Unlink 2, Create 2] ?s4" by (rule lock_run_four)
  from lock_run_append [OF this reach_both_condemned] show ?thesis
    by (intro exI [of _ "[Create 0, Crash 0] @ replicate 61 Tick @ [Look 1, Look 2, Recheck 1, Recheck 2]
        @ [Unlink 1, Create 1, Unlink 2, Create 2]"] exI [of _ ?s4] conjI)
      (simp_all only: append_assoc, simp_all)
qed

end
