(* ===== verification/Refs.thy ===== *)
theory Refs
  imports Hash Stores Fs
begin

text \<open>
  \<open>src/refs.rs\<close>: ref names, \<open>HEAD\<close> and the ref files under the \<open>.gyt\<close> directory, over the file
  system of \<open>Fs\<close>. The directory \<open>gyt\<close> is a path; a validated ref name is joined to it component by
  component. Directory listing order is not specified by the system and the listing is sorted, so
  \<open>walk\<close> goes through the files in the order of the model.
\<close>

datatype head = Symbolic bytes | Detached object_id

definition HEAD_REF_PREFIX :: bytes where "HEAD_REF_PREFIX = ascii ''ref: ''"
definition HEAD_DETACHED_PREFIX :: bytes where "HEAD_DETACHED_PREFIX = ascii ''blake3:''"
definition MAX_REF_NAME_LEN :: nat where "MAX_REF_NAME_LEN = 255"

fun check_ref_bytes :: "bytes \<Rightarrow> unit res" where
  "check_ref_bytes [] = Inr ()"
| "check_ref_bytes (b # bs) =
     (if b < 0x20 \<or> b = 0x7f then Inl (ERefs ''ref name contains control byte'')
      else if b = BSLASH then Inl (ERefs ''ref name contains backslash'')
      else if b \<in> set (ascii ''~^?*[:'') then Inl (ERefs ''ref name contains revspec metacharacter'')
      else check_ref_bytes bs)"

definition ends_in_lock :: "bytes \<Rightarrow> bool" where
  "ends_in_lock cb \<longleftrightarrow> eq_ignore_case (drop (length cb - 5) cb) (ascii ''.lock'') \<and> length cb \<ge> 5"

fun check_ref_components :: "bytes list \<Rightarrow> unit res" where
  "check_ref_components [] = Inr ()"
| "check_ref_components (c # cs) =
     (if c = [] then Inl (ERefs ''ref name has empty component'')
      else if c = ascii ''..'' \<or> c = ascii ''.'' then Inl (ERefs ''ref name has .. or . component'')
      else if hd c = of_char (CHR ''-'') then Inl (ERefs ''ref name component starts with -'')
      else if ends_in_lock c then Inl (ERefs ''ref name component ends in .lock'')
      else check_ref_components cs)"

definition validate_ref_name :: "bytes \<Rightarrow> unit res" where
  "validate_ref_name name =
     (if name = [] then Inl (ERefs ''empty ref name'')
      else if length name > MAX_REF_NAME_LEN then Inl (ERefs ''ref name length exceeds 255'')
      else if hd name = SLASH then Inl (ERefs ''ref name must not start with /'')
      else if last name = SLASH then Inl (ERefs ''ref name must not end with /'')
      else (case check_ref_bytes name of
              Inl e \<Rightarrow> Inl e
            | Inr _ \<Rightarrow>
              (case check_ref_components (split_char SLASH name) of
                 Inl e \<Rightarrow> Inl e
               | Inr _ \<Rightarrow>
                 if contains_sub (ascii ''..'') name then Inl (ERefs ''ref name contains ..'')
                 else if contains_sub [64, 123] name then Inl (ERefs ''ref name contains at-brace'')
                 else Inr ())))"

definition join_name :: "fpath \<Rightarrow> bytes \<Rightarrow> fpath" where
  "join_name gyt name = gyt @ split_char SLASH name"

definition ref_path :: "fpath \<Rightarrow> bytes \<Rightarrow> fpath res" where
  "ref_path gyt name = (case validate_ref_name name of Inl e \<Rightarrow> Inl e | Inr _ \<Rightarrow> Inr (join_name gyt name))"

definition trim_end_newlines :: "bytes \<Rightarrow> bytes" where
  "trim_end_newlines s = rev (dropWhile (\<lambda>b. b = NL \<or> b = CR) (rev s))"

definition read_head :: "fs \<Rightarrow> fpath \<Rightarrow> head res" where
  "read_head fs gyt =
     (let p = gyt @ [ascii ''HEAD''] in
      if \<not> path_exists fs p then Inl (ERefs ''HEAD not found'')
      else (case read_all fs p of
        Inl e \<Rightarrow> Inl e
      | Inr text \<Rightarrow>
        if \<not> valid_utf8 text then Inl (ERefs ''HEAD is not valid utf-8'')
        else
          (let line = trim_end_newlines text in
           case strip_prefix HEAD_REF_PREFIX line of
             Some rest \<Rightarrow>
               (let target = trim rest in
                case validate_ref_name target of Inl e \<Rightarrow> Inl e | Inr _ \<Rightarrow> Inr (Symbolic target))
           | None \<Rightarrow>
             (case strip_prefix HEAD_DETACHED_PREFIX line of
                Some rest \<Rightarrow>
                  (let hex = trim rest in
                   if length hex \<noteq> HEX_LEN then Inl (ERefs ''HEAD detached hash has wrong length'')
                   else (case from_hex hex of
                           Inl e \<Rightarrow> Inl (ERefs ''HEAD detached hash invalid'')
                         | Inr h \<Rightarrow> Inr (Detached h)))
              | None \<Rightarrow> Inl (ERefs ''malformed HEAD'')))))"

definition head_body :: "head \<Rightarrow> bytes res" where
  "head_body h =
     (case h of
        Symbolic name \<Rightarrow>
          (case validate_ref_name name of Inl e \<Rightarrow> Inl e | Inr _ \<Rightarrow> Inr (HEAD_REF_PREFIX @ name @ [NL]))
      | Detached i \<Rightarrow> Inr (HEAD_DETACHED_PREFIX @ to_hex i @ [NL]))"

definition write_head :: "bytes \<Rightarrow> fs \<Rightarrow> fpath \<Rightarrow> head \<Rightarrow> unit res \<times> fs" where
  "write_head nonce fs gyt h =
     (case head_body h of
        Inl e \<Rightarrow> (Inl e, fs)
      | Inr body \<Rightarrow> atomic_write nonce fs (gyt @ [ascii ''HEAD'']) body)"

definition read_ref :: "fs \<Rightarrow> fpath \<Rightarrow> bytes \<Rightarrow> object_id res" where
  "read_ref fs gyt name =
     (case ref_path gyt name of
        Inl e \<Rightarrow> Inl e
      | Inr p \<Rightarrow>
        (case fs_get fs p of
           None \<Rightarrow> Inl (ERefs ''ref not found'')
         | Some (Symlink _) \<Rightarrow> Inl (ERefs ''ref is a symlink (refusing to follow)'')
         | Some _ \<Rightarrow>
           (case read_all fs p of
              Inl e \<Rightarrow> Inl e
            | Inr text \<Rightarrow>
              if \<not> valid_utf8 text then Inl (ERefs ''ref is not valid utf-8'')
              else
                (let hex = trim text in
                 if length hex \<noteq> HEX_LEN then Inl (ERefs ''ref hash has wrong length'')
                 else (case from_hex hex of Inl e \<Rightarrow> Inl (ERefs ''ref parse error'') | Inr h \<Rightarrow> Inr h)))))"

definition write_ref :: "bytes \<Rightarrow> fs \<Rightarrow> fpath \<Rightarrow> bytes \<Rightarrow> object_id \<Rightarrow> unit res \<times> fs" where
  "write_ref nonce fs gyt name i =
     (case ref_path gyt name of
        Inl e \<Rightarrow> (Inl e, fs)
      | Inr p \<Rightarrow> atomic_write nonce fs p (to_hex i @ [NL]))"

definition delete_ref :: "fs \<Rightarrow> fpath \<Rightarrow> bytes \<Rightarrow> unit res \<times> fs" where
  "delete_ref fs gyt name =
     (case ref_path gyt name of
        Inl e \<Rightarrow> (Inl e, fs)
      | Inr p \<Rightarrow> if \<not> path_exists fs p then (Inl (ERefs ''ref not found''), fs) else remove_file fs p)"

definition is_file :: "node \<Rightarrow> bool" where
  "is_file n = (case n of File _ _ \<Rightarrow> True | _ \<Rightarrow> False)"

fun walk :: "fs \<Rightarrow> fpath \<Rightarrow> fpath list \<Rightarrow> (bytes \<times> object_id) list res" where
  "walk fs gyt [] = Inr []"
| "walk fs gyt (path # paths) =
     (let name = join_char SLASH (map to_string_lossy (drop (length gyt) path)) in
      case validate_ref_name name of
        Inl _ \<Rightarrow> walk fs gyt paths
      | Inr _ \<Rightarrow>
        (case read_ref fs gyt name of
           Inl (ERefs _) \<Rightarrow> walk fs gyt paths
         | Inl e \<Rightarrow> Inl e
         | Inr i \<Rightarrow> (case walk fs gyt paths of Inl e \<Rightarrow> Inl e | Inr out \<Rightarrow> Inr ((name, i) # out))))"

definition files_under :: "fs \<Rightarrow> fpath \<Rightarrow> fpath list" where
  "files_under fs root = map fst (filter (\<lambda>(p, n). strict_prefix root p \<and> is_file n) fs)"

definition list_refs :: "fs \<Rightarrow> fpath \<Rightarrow> bytes \<Rightarrow> (bytes \<times> object_id) list res" where
  "list_refs fs gyt pfx =
     (case validate_ref_name pfx of
        Inl e \<Rightarrow> Inl e
      | Inr _ \<Rightarrow>
        (let root = join_name gyt pfx in
         if \<not> path_exists fs root then Inr []
         else if deref ELOOP_MAX fs root \<noteq> Some Dir then Inl (EIo ''not a directory'')
         else (case walk fs gyt (files_under fs root) of
                 Inl e \<Rightarrow> Inl e
               | Inr out \<Rightarrow> Inr (sort_key fst out))))"

definition resolve :: "fs \<Rightarrow> fpath \<Rightarrow> head \<Rightarrow> object_id option res" where
  "resolve fs gyt h =
     (case h of
        Detached i \<Rightarrow> Inr (Some i)
      | Symbolic name \<Rightarrow>
        (case ref_path gyt name of
           Inl e \<Rightarrow> Inl e
         | Inr p \<Rightarrow>
           if \<not> path_exists fs p then Inr None
           else (case read_ref fs gyt name of Inl e \<Rightarrow> Inl e | Inr i \<Rightarrow> Inr (Some i))))"

section \<open>Ref names\<close>

lemma check_ref_bytes_Inr:
  "check_ref_bytes bs = Inr () \<longleftrightarrow>
     (\<forall>b \<in> set bs. 0x20 \<le> b \<and> b \<noteq> 0x7f \<and> b \<noteq> BSLASH \<and> b \<notin> set (ascii ''~^?*[:''))"
proof (induction bs)
  case (Cons b bs)
  have "b < 0x20 \<longleftrightarrow> \<not> 0x20 \<le> b" by (simp add: linorder_not_le)
  with Cons show ?case by (auto simp del: ascii_Cons)
qed simp

lemma check_ref_components_Inr:
  "check_ref_components cs = Inr () \<longleftrightarrow>
     (\<forall>c \<in> set cs. plain_piece c \<and> hd c \<noteq> of_char (CHR ''-'') \<and> \<not> ends_in_lock c)"
proof (induction cs)
  case (Cons c cs)
  have "plain_piece c \<longleftrightarrow> \<not> (c = [] \<or> c = ascii ''..'' \<or> c = ascii ''.'')" by (auto simp: plain_piece_def)
  with Cons show ?case by (auto simp del: ascii_Cons)
qed simp

lemma validate_ref_nameD:
  assumes "validate_ref_name name = Inr ()"
  shows "name \<noteq> []" "length name \<le> 255" "\<And>b. b \<in> set name \<Longrightarrow> 0x20 \<le> b \<and> b \<noteq> 0x7f \<and> b \<noteq> BSLASH"
    "\<And>c. c \<in> set (split_char SLASH name) \<Longrightarrow> plain_piece c \<and> hd c \<noteq> of_char (CHR ''-'') \<and> \<not> ends_in_lock c"
    "\<not> contains_sub (ascii ''..'') name"
proof -
  have "name \<noteq> []" "length name \<le> 255" "check_ref_bytes name = Inr ()"
      "check_ref_components (split_char SLASH name) = Inr ()" "\<not> contains_sub (ascii ''..'') name"
    using assms by (auto simp: validate_ref_name_def MAX_REF_NAME_LEN_def simp del: ascii_Cons
        split: if_splits sum.splits)
  then show "name \<noteq> []" "length name \<le> 255" "\<And>b. b \<in> set name \<Longrightarrow> 0x20 \<le> b \<and> b \<noteq> 0x7f \<and> b \<noteq> BSLASH"
    "\<And>c. c \<in> set (split_char SLASH name) \<Longrightarrow> plain_piece c \<and> hd c \<noteq> of_char (CHR ''-'') \<and> \<not> ends_in_lock c"
    "\<not> contains_sub (ascii ''..'') name"
    unfolding check_ref_bytes_Inr check_ref_components_Inr by blast+
qed

lemma join_name_inj: "join_name gyt n = join_name gyt n' \<longleftrightarrow> n = n'"
  unfolding join_name_def by (metis join_split_char same_append_eq)

lemma join_name_nonempty [simp]: "join_name gyt n \<noteq> []"
  by (simp add: join_name_def)

text \<open>C18: a ref name that passes \<open>validate_ref_name\<close> cannot leave the directory it is joined to or reach a
  lock file: every component of the path is a plain file name (never empty, \<open>.\<close> or \<open>..\<close>), none ends in
  \<open>.lock\<close> in any case, and no byte is a control character, a backslash or \<open>DEL\<close>.\<close>
theorem ref_name_confined:
  assumes "validate_ref_name name = Inr ()"
  shows "path_components name = map Normal (split_char SLASH name)
    \<and> (\<forall>c \<in> set (split_char SLASH name). \<not> ends_in_lock c)
    \<and> (\<forall>b \<in> set name. 0x20 \<le> b \<and> b \<noteq> 0x7f \<and> b \<noteq> BSLASH) \<and> length name \<le> 255"
proof -
  have "path_components name = map Normal (split_char SLASH name)"
    by (rule path_components_plain) (use validate_ref_nameD(4) [OF assms] in blast)
  with validate_ref_nameD [OF assms] show ?thesis by blast
qed

lemma sample_ref_valid: "validate_ref_name (ascii ''refs/heads/main'') = Inr ()"
  by (simp add: validate_ref_name_def MAX_REF_NAME_LEN_def ends_in_lock_def eq_ignore_case_def to_lower_def contains_sub_def)

theorem ref_name_confined_witness:
  "path_components (ascii ''refs/heads/main'') = map Normal [ascii ''refs'', ascii ''heads'', ascii ''main'']"
  using ref_name_confined [OF sample_ref_valid] by simp

section \<open>Refs as a map\<close>

definition node_ref :: "node option \<Rightarrow> object_id option" where
  "node_ref n = (case n of
     Some (File text _) \<Rightarrow>
       if valid_utf8 text \<and> length (trim text) = HEX_LEN
       then (case from_hex (trim text) of Inr h \<Rightarrow> Some h | Inl _ \<Rightarrow> None) else None
   | _ \<Rightarrow> None)"

lemma read_ref_Inr:
  "read_ref fs gyt name = Inr i \<longleftrightarrow>
     validate_ref_name name = Inr () \<and> node_ref (fs_get fs (join_name gyt name)) = Some i"
proof (cases "fs_get fs (join_name gyt name)")
  case None
  then show ?thesis by (auto simp: read_ref_def ref_path_def node_ref_def split: sum.splits)
next
  case (Some n)
  then show ?thesis
    by (cases n) (auto simp: read_ref_def ref_path_def node_ref_def read_all_def deref_file deref_dir Let_def
        split: sum.splits)
qed

lemma read_ref_error_class:
  "read_ref fs gyt name = Inl e \<Longrightarrow> validate_ref_name name = Inr () \<Longrightarrow>
     (\<exists>m. e = ERefs m) \<or> fs_get fs (join_name gyt name) = Some Dir"
  by (cases "fs_get fs (join_name gyt name)"; cases "the (fs_get fs (join_name gyt name))")
    (auto simp: read_ref_def ref_path_def read_all_def deref_file Let_def split: sum.splits if_splits)

definition ordinary :: "bytes \<Rightarrow> bool" where
  "ordinary name \<longleftrightarrow> \<not> contains_sub (ascii ''.tmp.'') name"

definition ref_lookup :: "fpath \<Rightarrow> fs \<Rightarrow> bytes \<Rightarrow> (bytes \<times> object_id) option" where
  "ref_lookup gyt fs name =
     (if ordinary name then (case read_ref fs gyt name of Inr i \<Rightarrow> Some (name, i) | Inl _ \<Rightarrow> None) else None)"

definition ref_put :: "bytes \<Rightarrow> fpath \<Rightarrow> bytes \<times> object_id \<Rightarrow> fs \<Rightarrow> fs option" where
  "ref_put nonce gyt v fs =
     (if ordinary (fst v) \<and> wf_id (snd v)
      then (case write_ref nonce fs gyt (fst v) (snd v) of (Inr _, fs') \<Rightarrow> Some fs' | (Inl _, _) \<Rightarrow> None) else None)"

definition ref_del :: "fpath \<Rightarrow> bytes \<Rightarrow> fs \<Rightarrow> fs option" where
  "ref_del gyt name fs = (case delete_ref fs gyt name of (Inr _, fs') \<Rightarrow> Some fs' | (Inl _, _) \<Rightarrow> None)"

lemma ref_lookup_node:
  "ref_lookup gyt fs name =
     (if ordinary name \<and> validate_ref_name name = Inr ()
      then map_option (Pair name) (node_ref (fs_get fs (join_name gyt name))) else None)"
proof (cases "read_ref fs gyt name")
  case (Inl e)
  then have "\<not> (validate_ref_name name = Inr () \<and> node_ref (fs_get fs (join_name gyt name)) = Some i)" for i
    using read_ref_Inr [of fs gyt name i] by simp
  with Inl show ?thesis
    by (cases "node_ref (fs_get fs (join_name gyt name))") (auto simp: ref_lookup_def)
next
  case (Inr i)
  then show ?thesis using read_ref_Inr [of fs gyt name i] by (simp add: ref_lookup_def)
qed

lemma node_ref_dir [simp]: "node_ref None = None" "node_ref (Some Dir) = None"
  by (simp_all add: node_ref_def)

lemma ref_text: "wf_id i \<Longrightarrow> node_ref (Some (File (to_hex i @ [NL]) m)) = Some i"
proof -
  assume i: "wf_id i"
  then have t: "trim (to_hex i @ [NL]) = to_hex i" by (intro trim_graphic_nl) (simp_all add: to_hex_nonempty)
  have "valid_utf8 (to_hex i @ [NL])" by (simp add: valid_utf8_append valid_utf8_low)
  with i t show ?thesis by (simp add: node_ref_def HEX_LEN_def HASH_LEN_def del: length_to_hex)
qed

lemma join_char_last: "cs \<noteq> [] \<Longrightarrow> \<exists>u. join_char c cs = u @ last cs"
proof (induction cs rule: join_char.induct)
  case (3 c p q ps)
  then obtain u where "join_char c (q # ps) = u @ last (q # ps)" by auto
  then show ?case by (intro exI [of _ "p @ c # u"]) simp
qed auto

lemma tmp_path_extraordinary:
  assumes "tmp_path (join_name gyt name) nonce = join_name gyt name'"
  shows "\<not> ordinary name'"
proof -
  have "last (split_char SLASH name') = tmp_name (last (split_char SLASH name)) nonce"
    using arg_cong [OF assms, of last] by (simp add: tmp_path_def join_name_def)
  moreover obtain u where "name' = u @ last (split_char SLASH name')"
    using join_char_last [of "split_char SLASH name'" SLASH] by (auto simp: join_split_char)
  ultimately have "\<exists>x y. name' = x @ ascii ''.tmp.'' @ y"
    by (metis (no_types, lifting) append_assoc tmp_name_def)
  then show ?thesis by (simp add: ordinary_def contains_sub_iff del: ascii_Cons)
qed

lemma ref_put_ok:
  assumes "ref_put nonce gyt v fs = Some fs'"
  obtains "ordinary (fst v)" "wf_id (snd v)" "validate_ref_name (fst v) = Inr ()"
    "atomic_write_with_mode nonce fs (join_name gyt (fst v)) (to_hex (snd v) @ [NL])
       (default_mode_for (join_name gyt (fst v))) = (Inr (), fs')"
  using assms
  by (auto simp: ref_put_def write_ref_def ref_path_def atomic_write_def split: if_splits prod.splits sum.splits)

lemma ref_lookup_put:
  assumes "ref_put nonce gyt v fs = Some fs'"
  shows "ref_lookup gyt fs' = (ref_lookup gyt fs)(fst v \<mapsto> v)"
proof
  fix name
  from assms show "ref_lookup gyt fs' name = ((ref_lookup gyt fs)(fst v \<mapsto> v)) name"
  proof (rule ref_put_ok)
    let ?p = "join_name gyt (fst v)" and ?q = "join_name gyt name"
    assume v: "ordinary (fst v)" "wf_id (snd v)" "validate_ref_name (fst v) = Inr ()"
      and w: "atomic_write_with_mode nonce fs ?p (to_hex (snd v) @ [NL]) (default_mode_for ?p) = (Inr (), fs')"
    note aw = atomic_write_ok [OF w join_name_nonempty]
    show ?thesis
    proof (cases "name = fst v")
      case True
      then show ?thesis using v aw(1) by (simp add: ref_lookup_node ref_text)
    next
      case False
      have "node_ref (fs_get fs' ?q) = node_ref (fs_get fs ?q)" if "ordinary name"
      proof -
        have "?q \<noteq> ?p" using False by (simp add: join_name_inj)
        moreover have "?q \<noteq> tmp_path ?p nonce" using tmp_path_extraordinary that by metis
        ultimately show ?thesis using aw(2) [of ?q] by auto
      qed
      with False show ?thesis by (simp add: ref_lookup_node)
    qed
  qed
qed

lemma ref_del_ok:
  assumes "ref_del gyt name fs = Some fs'"
  shows "validate_ref_name name = Inr ()" "fs' = fs_del (join_name gyt name) fs" "fs_get fs (join_name gyt name) \<noteq> Some Dir"
proof -
  have v: "validate_ref_name name = Inr ()"
    and r: "remove_file fs (join_name gyt name) = (Inr (), fs')"
    using assms by (auto simp: ref_del_def delete_ref_def ref_path_def split: prod.splits sum.splits if_splits)
  show "validate_ref_name name = Inr ()" by (rule v)
  show "fs' = fs_del (join_name gyt name) fs" "fs_get fs (join_name gyt name) \<noteq> Some Dir"
    using r by (auto simp: remove_file_def split: option.splits node.splits)
qed

lemma ref_lookup_del:
  assumes "ref_del gyt k fs = Some fs'"
  shows "ref_lookup gyt fs' = (ref_lookup gyt fs)(k := None)"
proof
  fix name
  show "ref_lookup gyt fs' name = ((ref_lookup gyt fs)(k := None)) name"
    using ref_del_ok(2) [OF assms] by (simp add: ref_lookup_node delete_conv join_name_inj)
qed

interpretation refs: keyed_store fs_tree fst "ref_lookup gyt" "ref_put nonce gyt" "ref_del gyt"
  for gyt nonce
proof (unfold_locales, goal_cases)
  case (1 s v s')
  from 1(2) show ?case
  proof (rule ref_put_ok)
    assume "atomic_write_with_mode nonce s (join_name gyt (fst v)) (to_hex (snd v) @ [NL])
      (default_mode_for (join_name gyt (fst v))) = (Inr (), s')"
    from atomic_write_tree [OF this join_name_nonempty 1(1)] show "fs_tree s'" .
  qed
next
  case (2 s k s')
  then show ?case using ref_del_ok [OF 2(2)] by (simp add: fs_tree_del)
next
  case (3 s v s')
  then show ?case using ref_lookup_put by blast
next
  case (4 s k s')
  then show ?case using ref_lookup_del by blast
qed


definition sample_gyt :: fpath where "sample_gyt = [ascii ''w'', ascii ''.gyt'']"

definition sample_id :: object_id where "sample_id = ObjectId (replicate 32 1)"

lemma sample_id_wf: "wf_id sample_id"
  by (simp add: sample_id_def wf_id_def HASH_LEN_def)

lemma sample_ref_put: "\<exists>fs'. ref_put [] sample_gyt (ascii ''a'', sample_id) [] = Some fs'"
proof -
  have v: "validate_ref_name (ascii ''a'') = Inr ()"
    by (simp add: validate_ref_name_def MAX_REF_NAME_LEN_def ends_in_lock_def contains_sub_def eq_ignore_case_def)
  have o: "ordinary (ascii ''a'')" by (simp add: ordinary_def contains_sub_def)
  have j: "join_name sample_gyt (ascii ''a'') = [[119], [46, 103, 121, 116], [97]]"
    by (simp add: join_name_def sample_gyt_def)
  have c: "create_dir_all [] [[119], [46, 103, 121, 116]] = (Inr (), [([[119]], Dir), ([[119], [46, 103, 121, 116]], Dir)])"
    by (simp add: create_dir_all_def upt_rec)
  have t: "tmp_path [[119], [46, 103, 121, 116], [97]] [] = [[119], [46, 103, 121, 116], ascii ''a..tmp.'']"
    by (simp add: tmp_path_def tmp_name_def file_stem_def extension_def split_last_dot_def)
  show ?thesis
    using v o sample_id_wf
    by (simp add: ref_put_def write_ref_def ref_path_def j atomic_write_def atomic_write_with_mode_def c t Let_def
        del: ascii_Cons)
qed


section \<open>HEAD\<close>

lemma trim_end_newlines_snoc: "s \<noteq> [] \<Longrightarrow> last s \<noteq> NL \<Longrightarrow> last s \<noteq> CR \<Longrightarrow> trim_end_newlines (s @ [NL]) = s"
proof -
  assume "s \<noteq> []" "last s \<noteq> NL" "last s \<noteq> CR"
  then have "dropWhile (\<lambda>b. b = NL \<or> b = CR) (rev s) = rev s" by (simp add: dropWhile_eq_self_iff hd_rev)
  then show ?thesis by (simp add: trim_end_newlines_def)
qed

lemma read_head_file:
  "fs_get fs (gyt @ [ascii ''HEAD'']) = Some (File text m) \<Longrightarrow> valid_utf8 text \<Longrightarrow>
     read_head fs gyt =
       (let line = trim_end_newlines text in
        case strip_prefix HEAD_REF_PREFIX line of
          Some rest \<Rightarrow> (case validate_ref_name (trim rest) of Inl e \<Rightarrow> Inl e | Inr _ \<Rightarrow> Inr (Symbolic (trim rest)))
        | None \<Rightarrow>
          (case strip_prefix HEAD_DETACHED_PREFIX line of
             Some rest \<Rightarrow>
               (if length (trim rest) \<noteq> HEX_LEN then Inl (ERefs ''HEAD detached hash has wrong length'')
                else (case from_hex (trim rest) of
                        Inl e \<Rightarrow> Inl (ERefs ''HEAD detached hash invalid'')
                      | Inr h \<Rightarrow> Inr (Detached h)))
           | None \<Rightarrow> Inl (ERefs ''malformed HEAD'')))"
  unfolding read_head_def Let_def by (simp add: path_exists_def read_all_def deref_file del: ascii_Cons)

lemma write_head_file:
  assumes "write_head nonce fs gyt h = (Inr u, fs')"
  obtains body where "head_body h = Inr body"
    "fs_get fs' (gyt @ [ascii ''HEAD'']) = Some (File body (default_mode_for (gyt @ [ascii ''HEAD''])))"
proof -
  obtain body where b: "head_body h = Inr body" "atomic_write nonce fs (gyt @ [ascii ''HEAD'']) body = (Inr (), fs')"
    using assms by (auto simp: write_head_def simp del: ascii_Cons split: sum.splits)
  from atomic_write_ok(1) [OF b(2) [unfolded atomic_write_def]] b(1) that show thesis by blast
qed

definition wf_head :: "head \<Rightarrow> bool" where
  "wf_head h = (case h of Symbolic n \<Rightarrow> valid_utf8 n \<and> trim n = n | Detached i \<Rightarrow> wf_id i)"

lemma valid_ref_last: "validate_ref_name n = Inr () \<Longrightarrow> n \<noteq> [] \<and> last n \<noteq> NL \<and> last n \<noteq> CR"
proof -
  assume v: "validate_ref_name n = Inr ()"
  then have "last n \<in> set n" using validate_ref_nameD(1) by simp
  from validate_ref_nameD(3) [OF v this] validate_ref_nameD(1) [OF v] show ?thesis by auto
qed

text \<open>\<open>HEAD\<close> reads back as it was written, for a detached id and for every symbolic ref whose name has
  no white space at its ends.\<close>
theorem head_round_trip:
  assumes "write_head nonce fs gyt h = (Inr u, fs')" "wf_head h"
  shows "read_head fs' gyt = Inr h"
  using assms(1)
proof (rule write_head_file)
  let ?m = "default_mode_for (gyt @ [ascii ''HEAD''])"
  fix body
  assume b: "head_body h = Inr body" and f: "fs_get fs' (gyt @ [ascii ''HEAD'']) = Some (File body ?m)"
  show ?thesis
  proof (cases h)
    case (Symbolic n)
    then have n: "validate_ref_name n = Inr ()" "body = (HEAD_REF_PREFIX @ n) @ [NL]" "valid_utf8 n" "trim n = n"
      using b assms(2) by (auto simp: head_body_def wf_head_def split: sum.splits)
    have "trim_end_newlines body = HEAD_REF_PREFIX @ n"
      unfolding n(2) by (rule trim_end_newlines_snoc) (use valid_ref_last [OF n(1)] in simp_all)
    moreover have "valid_utf8 body"
      using n(2,3) by (simp add: valid_utf8_append valid_utf8_low HEAD_REF_PREFIX_def)
    ultimately show ?thesis using n(1,4) Symbolic by (simp add: read_head_file [OF f] Let_def)
  next
    case (Detached i)
    then have i: "wf_id i" "body = (HEAD_DETACHED_PREFIX @ to_hex i) @ [NL]"
      using b assms(2) by (simp_all add: head_body_def wf_head_def)
    have l: "last (to_hex i) \<in> set (to_hex i)" using to_hex_nonempty [OF i(1)] by simp
    have "trim_end_newlines body = HEAD_DETACHED_PREFIX @ to_hex i"
      unfolding i(2) by (rule trim_end_newlines_snoc)
        (use to_hex_nonempty [OF i(1)] to_hex_range [OF l] in auto)
    moreover have "valid_utf8 body"
      using i(2) by (simp add: valid_utf8_append valid_utf8_low HEAD_DETACHED_PREFIX_def)
    moreover have "strip_prefix HEAD_REF_PREFIX (HEAD_DETACHED_PREFIX @ to_hex i) = None"
      by (simp add: strip_prefix_def HEAD_REF_PREFIX_def HEAD_DETACHED_PREFIX_def)
    ultimately show ?thesis using i(1) Detached
      by (simp add: read_head_file [OF f] Let_def trim_graphic HEX_LEN_def HASH_LEN_def del: length_to_hex)
  qed
qed

lemma sample_head_put: "\<exists>fs'. write_head [] [] [] (Detached sample_id) = (Inr (), fs')"
  by (simp add: write_head_def head_body_def atomic_write_def atomic_write_with_mode_def create_dir_all_def
      tmp_path_def tmp_name_def Let_def file_stem_def extension_def split_last_dot_def)

theorem head_round_trip_witness:
  "\<exists>fs'. write_head [] [] [] (Detached sample_id) = (Inr (), fs') \<and> read_head fs' [] = Inr (Detached sample_id)"
proof -
  obtain fs' where "write_head [] [] [] (Detached sample_id) = (Inr (), fs')" using sample_head_put by blast
  with head_round_trip [OF this] show ?thesis by (simp add: wf_head_def sample_id_wf)
qed

text \<open>A name with a blank at its end is accepted, and \<open>HEAD\<close> reads back as a different one.\<close>

lemma head_blank_lost:
  "validate_ref_name (ascii ''refs/heads/x '') = Inr ()" "trim (ascii ''refs/heads/x '') = ascii ''refs/heads/x''"
  by (simp_all add: validate_ref_name_def MAX_REF_NAME_LEN_def ends_in_lock_def eq_ignore_case_def to_lower_def
      contains_sub_def trim_def trim_start.simps trim_end.simps ends_ws_def ws_len_def byte_in_def)

text \<open>The temporary file of a ref whose name has a dot is itself named like a ref.\<close>

lemma dotted_tmp_is_ref:
  "tmp_path [ascii ''refs'', ascii ''v1.0''] (ascii ''77.ThreadId(1).5'')
     = [ascii ''refs'', ascii ''v1.0.tmp.77.ThreadId(1).5'']"
  "validate_ref_name (ascii ''refs/v1.0.tmp.77.ThreadId(1).5'') = Inr ()"
  by (simp_all add: tmp_path_def tmp_name_def file_stem_def extension_def split_last_dot_def valid_utf8_low
      validate_ref_name_def MAX_REF_NAME_LEN_def ends_in_lock_def eq_ignore_case_def to_lower_def contains_sub_def)

section \<open>Listing\<close>

definition clean_fs :: "fs \<Rightarrow> bool" where
  "clean_fs fs \<longleftrightarrow> distinct (map fst fs)
     \<and> (\<forall>p \<in> set (map fst fs). \<forall>c \<in> set p. valid_utf8 c \<and> SLASH \<notin> set c)"

definition name_of :: "fpath \<Rightarrow> fpath \<Rightarrow> bytes" where
  "name_of gyt p = join_char SLASH (map to_string_lossy (drop (length gyt) p))"

definition ref_at :: "fs \<Rightarrow> fpath \<Rightarrow> fpath \<Rightarrow> (bytes \<times> object_id) option" where
  "ref_at fs gyt p = (case read_ref fs gyt (name_of gyt p) of Inr i \<Rightarrow> Some (name_of gyt p, i) | Inl _ \<Rightarrow> None)"

lemma join_name_of:
  assumes "p = gyt @ rel" "rel \<noteq> []" "\<forall>c \<in> set rel. valid_utf8 c \<and> SLASH \<notin> set c"
  shows "join_name gyt (name_of gyt p) = p"
proof -
  have "map to_string_lossy rel = rel" using assms(3) by (intro map_idI) (simp add: to_string_lossy_valid)
  then have "name_of gyt p = join_char SLASH rel" by (simp add: name_of_def assms(1))
  moreover have "split_char SLASH (join_char SLASH rel) = rel" using assms(2,3) by (intro split_join_char) auto
  ultimately show ?thesis by (simp add: join_name_def assms(1))
qed

lemma walk_files:
  assumes "\<And>p. p \<in> set paths \<Longrightarrow> join_name gyt (name_of gyt p) = p \<and> (\<exists>n. fs_get fs p = Some n \<and> is_file n)"
  shows "walk fs gyt paths = Inr (List.map_filter (ref_at fs gyt) paths)"
  using assms
proof (induction paths)
  case (Cons p paths)
  then have IH: "walk fs gyt paths = Inr (List.map_filter (ref_at fs gyt) paths)" by simp
  obtain n where n: "join_name gyt (name_of gyt p) = p" "fs_get fs p = Some n" "is_file n" using Cons.prems [of p] by auto
  show ?case
  proof (cases "read_ref fs gyt (name_of gyt p)")
    case (Inr i)
    then have "validate_ref_name (name_of gyt p) = Inr ()" by (simp add: read_ref_Inr)
    moreover have "ref_at fs gyt p = Some (name_of gyt p, i)" using Inr by (simp add: ref_at_def)
    ultimately show ?thesis
      using Inr IH by (simp add: List.map_filter_simps name_of_def [symmetric] Let_def)
  next
    case (Inl e)
    have "validate_ref_name (name_of gyt p) = Inr () \<Longrightarrow> \<exists>m. e = ERefs m"
      using read_ref_error_class [OF Inl] n by (auto simp: is_file_def)
    moreover have "ref_at fs gyt p = None" using Inl by (simp add: ref_at_def)
    ultimately show ?thesis
      using Inl IH by (cases "validate_ref_name (name_of gyt p)")
        (auto simp: List.map_filter_simps name_of_def [symmetric] Let_def)
  qed
qed (simp add: List.map_filter_simps)

lemma in_map_filter: "y \<in> set (List.map_filter f xs) \<longleftrightarrow> (\<exists>x \<in> set xs. f x = Some y)"
  by (induction xs) (auto simp: List.map_filter_simps split: option.splits)

lemma ref_at_names:
  "map fst (List.map_filter (ref_at fs gyt) ps) = map (name_of gyt) (filter (\<lambda>p. ref_at fs gyt p \<noteq> None) ps)"
  by (induction ps) (auto simp: List.map_filter_simps ref_at_def split: sum.splits)

lemma files_under_get:
  assumes "distinct (map fst fs)"
  shows "p \<in> set (files_under fs root) \<longleftrightarrow> strict_prefix root p \<and> (\<exists>n. fs_get fs p = Some n \<and> is_file n)"
proof -
  have "(p, n) \<in> set fs \<longleftrightarrow> fs_get fs p = Some n" for n
    using assms by (auto dest: map_of_SomeD)
  then show ?thesis by (auto simp: files_under_def image_iff)
qed

lemma files_under_path:
  assumes "clean_fs fs" "p \<in> set (files_under fs (join_name gyt pfx))"
  shows "join_name gyt (name_of gyt p) = p" "\<exists>n. fs_get fs p = Some n \<and> is_file n"
proof -
  have dis: "distinct (map fst fs)" using assms(1) by (simp add: clean_fs_def)
  show f: "\<exists>n. fs_get fs p = Some n \<and> is_file n" using assms(2) files_under_get [OF dis] by blast
  have "strict_prefix (join_name gyt pfx) p" using assms(2) files_under_get [OF dis] by blast
  then obtain rel where rel: "p = gyt @ rel" "rel \<noteq> []"
    by (auto simp: join_name_def strict_prefix_def prefix_def)
  moreover have "\<forall>c \<in> set p. valid_utf8 c \<and> SLASH \<notin> set c"
    using f assms(1) by (auto simp: clean_fs_def dest!: map_of_SomeD)
  ultimately show "join_name gyt (name_of gyt p) = p" by (intro join_name_of) auto
qed

lemma list_refs_filter:
  assumes "clean_fs fs" "validate_ref_name pfx = Inr ()" "fs_get fs (join_name gyt pfx) = Some Dir"
  shows "list_refs fs gyt pfx = Inr (sort_key fst (List.map_filter (ref_at fs gyt) (files_under fs (join_name gyt pfx))))"
proof -
  have "deref ELOOP_MAX fs (join_name gyt pfx) = Some Dir" by (rule deref_dir [OF assms(3)])
  with assms(2) walk_files [of "files_under fs (join_name gyt pfx)" gyt fs] files_under_path [OF assms(1)]
  show ?thesis by (simp add: list_refs_def path_exists_def)
qed

lemma ref_at_under:
  assumes "clean_fs fs"
  shows "(name, i) \<in> set (List.map_filter (ref_at fs gyt) (files_under fs (join_name gyt pfx))) \<longleftrightarrow>
    strict_prefix (split_char SLASH pfx) (split_char SLASH name) \<and> read_ref fs gyt name = Inr i
      \<and> is_file (the (fs_get fs (join_name gyt name)))" (is "?in \<longleftrightarrow> ?pre \<and> ?read \<and> _")
proof -
  have dis: "distinct (map fst fs)" using assms by (simp add: clean_fs_def)
  have pre: "strict_prefix (join_name gyt pfx) (join_name gyt name) \<longleftrightarrow> ?pre"
    by (simp add: join_name_def strict_prefix_def)
  show ?thesis
  proof
    assume ?in
    then obtain p where p: "p \<in> set (files_under fs (join_name gyt pfx))" "ref_at fs gyt p = Some (name, i)"
      by (auto simp: in_map_filter)
    then have "name = name_of gyt p" ?read by (auto simp: ref_at_def split: sum.splits)
    with files_under_path [OF assms p(1)] p(1) pre show "?pre \<and> ?read \<and> is_file (the (fs_get fs (join_name gyt name)))"
      by (auto simp: files_under_get [OF dis])
  next
    let ?p = "join_name gyt name"
    assume r: "?pre \<and> ?read \<and> is_file (the (fs_get fs ?p))"
    then have "node_ref (fs_get fs ?p) \<noteq> None" by (simp add: read_ref_Inr)
    then have "fs_get fs ?p \<noteq> None" by (metis node_ref_dir(1))
    with r pre have p: "?p \<in> set (files_under fs (join_name gyt pfx))" by (auto simp: files_under_get [OF dis])
    with files_under_path(1) [OF assms p] have "name_of gyt ?p = name" by (simp add: join_name_inj)
    with r have "ref_at fs gyt ?p = Some (name, i)" by (simp add: ref_at_def)
    with p show ?in by (auto simp: in_map_filter)
  qed
qed

lemma read_ref_is_file: "read_ref fs gyt name = Inr i \<Longrightarrow> is_file (the (fs_get fs (join_name gyt name)))"
  by (auto simp: read_ref_Inr node_ref_def is_file_def split: option.splits node.splits)


definition sample_ref_fs :: fs where
  "sample_ref_fs = [([ascii ''refs''], Dir), ([ascii ''refs'', ascii ''a''], File (to_hex sample_id @ [NL]) 384)]"


end
