(* ===== verification/Compress.thy ===== *)
theory Compress
  imports Prelude
begin

text \<open>
  \<open>src/compress.rs\<close>: the wrapper around xz in which objects are stored.

  The xz library is a parameter: \<open>xz_writer\<close> compresses under given options, and \<open>xz_reader\<close> gives the
  bytes a stream decodes to before it ends (\<open>True\<close>) or turns out to be corrupt (\<open>False\<close>). The only thing
  ever assumed of it is \<open>xz_lossless\<close>, that a stream it wrote decodes to what was compressed.
\<close>

record xz_options =
  xo_preset :: nat
  xo_nice_len :: "nat option"
  xo_depth_limit :: "nat option"

record xz_lib =
  xz_writer :: "xz_options \<Rightarrow> bytes \<Rightarrow> bytes res"
  xz_reader :: "bytes \<Rightarrow> bytes \<times> bool"

definition COMPRESS_MAGIC :: bytes where "COMPRESS_MAGIC = [0x67, 0x79, 0x74, 0x01]"
definition FLAG_XZ :: byte where "FLAG_XZ = 0x01"
definition SIZE_XZ_HIGH :: nat where "SIZE_XZ_HIGH = 10 * 1024 * 1024"
definition MAX_DECOMPRESSED_BYTES :: nat where "MAX_DECOMPRESSED_BYTES = 1024 * 1024 * 1024"

definition xz_encode_raw :: "xz_lib \<Rightarrow> bytes \<Rightarrow> bytes res" where
  "xz_encode_raw X payload =
     (let level = (if length payload < SIZE_XZ_HIGH then 9 else 6);
          opts = \<lparr>xo_preset = level, xo_nice_len = None, xo_depth_limit = None\<rparr>;
          opts = (if level \<ge> 4 then opts\<lparr>xo_nice_len := Some 273, xo_depth_limit := Some 1000\<rparr> else opts) in
      xz_writer X opts payload)"

definition xz_decode_raw :: "xz_lib \<Rightarrow> bytes \<Rightarrow> bytes res" where
  "xz_decode_raw X body =
     (case xz_reader X body of (stream, ok) \<Rightarrow>
        let out = take (MAX_DECOMPRESSED_BYTES + 1) stream in
        if length out \<le> MAX_DECOMPRESSED_BYTES \<and> \<not> ok then Inl (EIo ''xz stream'')
        else if length out > MAX_DECOMPRESSED_BYTES
        then Inl (EObject ''xz: decompressed output exceeds limit'')
        else Inr out)"

definition encode :: "xz_lib \<Rightarrow> bytes \<Rightarrow> bytes run" where
  "encode X payload =
     (case xz_encode_raw X payload of
        Inl _ \<Rightarrow> Panic
      | Inr body \<Rightarrow> Return (COMPRESS_MAGIC @ [FLAG_XZ] @ body))"

definition decode :: "xz_lib \<Rightarrow> bytes \<Rightarrow> bytes res" where
  "decode X stored =
     (if length stored \<ge> 5 \<and> take 4 stored = COMPRESS_MAGIC
      then (let flags = stored ! 4; body = drop 5 stored in
            if flags AND FLAG_XZ \<noteq> 0 then xz_decode_raw X body else Inr body)
      else Inr stored)"

definition decode_accumulating :: "xz_lib \<Rightarrow> bytes \<Rightarrow> 64 word \<Rightarrow> bytes res \<times> 64 word" where
  "decode_accumulating X stored accumulator =
     (case decode X stored of
        Inl e \<Rightarrow> (Inl e, accumulator)
      | Inr out \<Rightarrow> (Inr out, accumulator + word_of_nat (length out)))"

definition xz_lossless :: "xz_lib \<Rightarrow> bool" where
  "xz_lossless X \<longleftrightarrow> (\<forall>opts p. \<exists>b. xz_writer X opts p = Inr b \<and> xz_reader X b = (p, True))"

lemma decode_wrapped [simp]: "decode X (COMPRESS_MAGIC @ FLAG_XZ # body) = xz_decode_raw X body"
  by (simp add: decode_def COMPRESS_MAGIC_def FLAG_XZ_def)

lemma decode_encode:
  assumes "xz_lossless X" "length p \<le> MAX_DECOMPRESSED_BYTES"
  obtains b where "encode X p = Return b" "decode X b = Inr p"
proof -
  obtain b where b: "xz_encode_raw X p = Inr b" "xz_reader X b = (p, True)"
    using assms(1) by (auto simp: xz_lossless_def xz_encode_raw_def Let_def)
  then have "encode X p = Return (COMPRESS_MAGIC @ FLAG_XZ # b)" by (simp add: encode_def)
  moreover have "decode X (COMPRESS_MAGIC @ FLAG_XZ # b) = Inr p"
    using b(2) assms(2) by (simp add: xz_decode_raw_def)
  ultimately show thesis by (rule that)
qed

lemma xz_decode_raw_bound: "xz_decode_raw X body = Inr out \<Longrightarrow> length out \<le> MAX_DECOMPRESSED_BYTES"
  by (auto simp: xz_decode_raw_def Let_def split: prod.splits if_splits)

text \<open>C21: whatever bytes are stored and however the xz library behaves on them, decoding either fails or
  yields at most one gibibyte, or no more than was stored; and the counter of decompressed bytes grows by
  exactly the length of what was produced. A small stream cannot expand without bound.\<close>
theorem decode_bounded:
  "case decode_accumulating X stored acc of
     (Inl e, acc') \<Rightarrow> acc' = acc
   | (Inr out, acc') \<Rightarrow> length out \<le> max MAX_DECOMPRESSED_BYTES (length stored)
       \<and> acc' - acc = word_of_nat (length out)"
proof (cases "decode X stored")
  case (Inl e)
  then show ?thesis by (simp add: decode_accumulating_def)
next
  case (Inr out)
  then have "length out \<le> max MAX_DECOMPRESSED_BYTES (length stored)"
    using xz_decode_raw_bound [of X "drop 5 stored" out]
    by (auto simp: decode_def Let_def le_max_iff_disj split: if_splits)
  with Inr show ?thesis by (simp add: decode_accumulating_def)
qed

text \<open>A library that stores its input satisfies the assumption.\<close>

definition xz_stored :: xz_lib where
  "xz_stored = \<lparr>xz_writer = (\<lambda>_ p. Inr p), xz_reader = (\<lambda>b. (b, True))\<rparr>"

lemma xz_stored_lossless: "xz_lossless xz_stored"
  by (simp add: xz_lossless_def xz_stored_def)

end
