(* ===== verification/Pack.thy ===== *)
theory Pack
  imports Compress Objects Fs
begin

text \<open>
  \<open>src/object/pack.rs\<close>: pack files, their sorted index and the process-wide cache of index files.

  What the code asks the platform is gathered in \<open>pack_env\<close>: the modification time of a path, its
  canonical form, and which key a full \<open>HashMap\<close> lists first. Offsets are \<open>u64\<close> and lengths \<open>usize\<close>, as
  natural numbers with the source's range checks.
\<close>

definition PACK_MAGIC :: bytes where "PACK_MAGIC = ascii ''GYTP''"
definition IDX_MAGIC :: bytes where "IDX_MAGIC = ascii ''GYPI''"
definition PACK_VERSION :: byte where "PACK_VERSION = 1"
definition IDX_HEADER_LEN :: nat where "IDX_HEADER_LEN = 4 + 1 + 1 + 2 + 4"
definition IDX_ENTRY_LEN :: nat where "IDX_ENTRY_LEN = 32 + 8"
definition TRAILER_LEN :: nat where "TRAILER_LEN = 32"

record pack_entry =
  pk_id :: object_id
  pk_kind :: object_kind
  pk_on_disk :: bytes

definition encode_kind :: "object_kind \<Rightarrow> byte" where
  "encode_kind k = (case k of Blob \<Rightarrow> 1 | Commit \<Rightarrow> 2 | Tree \<Rightarrow> 3 | Tag \<Rightarrow> 4)"

definition decode_kind_inner :: "byte \<Rightarrow> object_kind option" where
  "decode_kind_inner b =
     (if b = 1 then Some Blob else if b = 2 then Some Commit
      else if b = 3 then Some Tree else if b = 4 then Some Tag else None)"

definition decode_kind :: "byte \<Rightarrow> object_kind res" where
  "decode_kind b =
     (case decode_kind_inner b of None \<Rightarrow> Inl (EObject ''pack: unknown entry kind byte'') | Some k \<Rightarrow> Inr k)"

section \<open>Writing a pack\<close>

fun dedup_by_id :: "pack_entry list \<Rightarrow> pack_entry list" where
  "dedup_by_id (e # f # es) =
     (if pk_id f = pk_id e then dedup_by_id (e # es) else e # dedup_by_id (f # es))"
| "dedup_by_id es = es"

definition pack_header :: "bytes \<Rightarrow> nat \<Rightarrow> bytes" where
  "pack_header magic n = magic @ [PACK_VERSION] @ [0] @ [0, 0] @ to_le (word_of_nat n :: 32 word)"

fun pack_entries ::
  "bytes \<Rightarrow> (object_id \<times> nat) list \<Rightarrow> pack_entry list \<Rightarrow> (bytes \<times> (object_id \<times> nat) list) res" where
  "pack_entries body offsets [] = Inr (body, offsets)"
| "pack_entries body offsets (e # es) =
     (let offset = length body in
      if offset \<ge> USIZE_LIMIT then Inl (EObject ''pack: offset overflow'')
      else if length (pk_on_disk e) \<ge> U32_LIMIT then Inl (EObject ''pack: entry body too large (>4 GiB)'')
      else pack_entries
             (body @ [encode_kind (pk_kind e)] @ id_bytes (pk_id e)
                @ to_le (word_of_nat (length (pk_on_disk e)) :: 32 word) @ pk_on_disk e)
             (offsets @ [(pk_id e, offset)]) es)"

definition idx_row :: "object_id \<times> nat \<Rightarrow> bytes" where
  "idx_row r = (case r of (i, off) \<Rightarrow> id_bytes i @ to_le (word_of_nat off :: 64 word))"

definition pack_dir :: "fpath \<Rightarrow> fpath" where
  "pack_dir gyt = gyt @ [ascii ''objects'', ascii ''pack'']"

definition pack_stem :: "object_id \<Rightarrow> bytes" where
  "pack_stem trailer = ascii ''pack-'' @ to_hex trailer"

definition build_pack :: "(bytes \<Rightarrow> bytes) \<Rightarrow> pack_entry list \<Rightarrow> (object_id \<times> bytes \<times> bytes) res" where
  \<comment> \<open>the two buffers of \<open>write_pack\<close>, from sorted entries\<close>
  "build_pack H entries =
     (let n = length entries in
      if n \<ge> U32_LIMIT then Inl (EObject ''pack: too many entries (>u32)'')
      else (case pack_entries (pack_header PACK_MAGIC n) [] entries of
              Inl e \<Rightarrow> Inl e
            | Inr (body, offsets) \<Rightarrow>
              (let trailer = hash_bytes H body in
               Inr (trailer, body @ id_bytes trailer,
                    pack_header IDX_MAGIC n @ concat (map idx_row offsets) @ id_bytes trailer))))"

definition write_pack ::
  "(bytes \<Rightarrow> bytes) \<Rightarrow> bytes \<Rightarrow> bytes \<Rightarrow> fs \<Rightarrow> fpath \<Rightarrow> pack_entry list \<Rightarrow> object_id res \<times> fs" where
  "write_pack H nonce1 nonce2 fs gyt entries =
     (let entries = dedup_by_id (sort_key pk_id entries) in
      if entries = [] then (Inl (EObject ''pack: refuse to write empty pack''), fs)
      else (case create_dir_all fs (pack_dir gyt) of
        (Inl e, fs1) \<Rightarrow> (Inl (EIo ''pack: mkdir''), fs1)
      | (Inr _, fs1) \<Rightarrow>
        (case build_pack H entries of
           Inl e \<Rightarrow> (Inl e, fs1)
         | Inr (trailer, body, idx_buf) \<Rightarrow>
           (let stem = pack_stem trailer;
                pack_path = pack_dir gyt @ [stem @ ascii ''.pack''];
                idx_path = pack_dir gyt @ [stem @ ascii ''.idx''] in
            case atomic_write nonce1 fs1 pack_path body of
              (Inl e, fs2) \<Rightarrow> (Inl e, fs2)
            | (Inr _, fs2) \<Rightarrow>
              (case atomic_write nonce2 fs2 idx_path idx_buf of
                 (Inl e, fs3) \<Rightarrow> (Inl e, fs3)
               | (Inr _, fs3) \<Rightarrow> (Inr trailer, fs3))))))"

section \<open>The index cache\<close>

record pack_env =
  pe_mtime :: "fpath \<Rightarrow> nat"
  pe_canon :: "fpath \<Rightarrow> fpath"
  pe_victim :: "fpath list \<Rightarrow> fpath"

type_synonym idx_cache = "(fpath \<times> (bytes \<times> nat)) list"

definition MAX_IDX_CACHE_ENTRIES :: nat where "MAX_IDX_CACHE_ENTRIES = 4096"

definition insert_into_idx_cache :: "pack_env \<Rightarrow> fpath \<Rightarrow> bytes \<Rightarrow> nat \<Rightarrow> idx_cache \<Rightarrow> idx_cache" where
  "insert_into_idx_cache E canon data mtime g =
     (let g1 = (if length g \<ge> MAX_IDX_CACHE_ENTRIES \<and> map_of g canon = None
                then AList.delete (pe_victim E (map fst g)) g else g) in
      AList.update canon (data, mtime) g1)"

definition idx_bytes :: "pack_env \<Rightarrow> fs \<Rightarrow> idx_cache \<Rightarrow> fpath \<Rightarrow> bytes res \<times> idx_cache" where
  "idx_bytes E fs g idx_path =
     (let canon = pe_canon E idx_path; mtime = pe_mtime E idx_path;
          load = (case read_all fs idx_path of
                    Inl e \<Rightarrow> (Inl e, g)
                  | Inr data \<Rightarrow> (Inr data, insert_into_idx_cache E canon data mtime g)) in
      case map_of g canon of
        Some (data, m) \<Rightarrow> if m = mtime then (Inr data, g) else load
      | None \<Rightarrow> load)"

section \<open>Looking up and reading entries\<close>

function idx_search :: "bytes \<Rightarrow> bytes \<Rightarrow> nat \<Rightarrow> nat \<Rightarrow> nat option run" where
  "idx_search data target lo hi =
     (if lo < hi then
        (let mid = (lo + hi) div 2; off = IDX_HEADER_LEN + mid * IDX_ENTRY_LEN in
         case slice off (off + HASH_LEN) data of
           Return h \<Rightarrow>
             (if h < target then idx_search data target (mid + 1) hi
              else if target < h then idx_search data target lo mid
              else (case slice (off + HASH_LEN) (off + IDX_ENTRY_LEN) data of
                      Return w \<Rightarrow> Return (Some (unat (from_le w :: 64 word)))
                    | _ \<Rightarrow> Panic))
         | _ \<Rightarrow> Panic)
      else Return None)"
  by pat_completeness auto
termination by (relation "measure (\<lambda>(data, target, lo, hi). hi - lo)") auto

declare idx_search.simps [simp del]

definition lookup_bytes :: "bytes \<Rightarrow> object_id \<Rightarrow> nat option res run" where
  "lookup_bytes data i =
     (if length data < IDX_HEADER_LEN + TRAILER_LEN then Return (Inl (EObject ''pack idx: too short''))
      else if take 4 data \<noteq> IDX_MAGIC then Return (Inl (EObject ''pack idx: bad magic''))
      else if data ! 4 \<noteq> PACK_VERSION then Return (Inl (EObject ''pack idx: unsupported version''))
      else
        (let count = unat (from_le (take 4 (drop 8 data)) :: 32 word);
             expected = count * IDX_ENTRY_LEN + (IDX_HEADER_LEN + TRAILER_LEN) in
         if expected \<ge> USIZE_LIMIT then Return (Inl (EObject ''pack idx: entry count overflows expected size''))
         else if length data \<noteq> expected then Return (Inl (EObject ''pack idx: length mismatch''))
         else (case idx_search data (id_bytes i) 0 count of
                 Return r \<Rightarrow> Return (Inr r) | Panic \<Rightarrow> Panic | Diverge \<Rightarrow> Diverge)))"

definition lookup_in_idx ::
  "pack_env \<Rightarrow> fs \<Rightarrow> idx_cache \<Rightarrow> fpath \<Rightarrow> object_id \<Rightarrow> nat option res run \<times> idx_cache" where
  "lookup_in_idx E fs g idx_path i =
     (case idx_bytes E fs g idx_path of
        (Inl e, g1) \<Rightarrow> (Return (Inl e), g1)
      | (Inr data, g1) \<Rightarrow> (lookup_bytes data i, g1))"

definition read_entry :: "xz_lib \<Rightarrow> (bytes \<Rightarrow> bytes) \<Rightarrow> bytes \<Rightarrow> nat \<Rightarrow> object_id \<Rightarrow> object res" where
  "read_entry X H data offset expected_id =
     (let header = take (1 + HASH_LEN + 4) (drop offset data) in
      if length header < 1 + HASH_LEN + 4 then Inl (EIo ''pack header read'')
      else (case decode_kind (header ! 0) of
        Inl e \<Rightarrow> Inl e
      | Inr kind \<Rightarrow>
        if take HASH_LEN (drop 1 header) \<noteq> id_bytes expected_id then Inl (EObject ''pack: entry hash mismatch'')
        else
          (let body_len = unat (from_le (take 4 (drop (1 + HASH_LEN) header)) :: 32 word) in
           if body_len > 2 ^ 30 then Inl (EObject ''pack: entry body too large'')
           else
             (let body = take body_len (drop (offset + (1 + HASH_LEN + 4)) data) in
              if length body < body_len then Inl (EIo ''pack body read'')
              else (case decode X body of
                Inl e \<Rightarrow> Inl e
              | Inr raw \<Rightarrow>
                if hash_bytes H raw \<noteq> expected_id then Inl (EObject ''pack: decompressed hash mismatch'')
                else (case parse_raw raw of
                  Inl e \<Rightarrow> Inl e
                | Inr (decoded_kind, payload) \<Rightarrow>
                  if decoded_kind \<noteq> kind then Inl (EObject ''pack: kind byte disagrees with payload header'')
                  else Inr \<lparr>obj_id = expected_id, obj_kind = kind, obj_payload = payload\<rparr>))))))"

definition read_entry_at ::
  "xz_lib \<Rightarrow> (bytes \<Rightarrow> bytes) \<Rightarrow> fs \<Rightarrow> fpath \<Rightarrow> nat \<Rightarrow> object_id \<Rightarrow> object res" where
  "read_entry_at X H fs pack_path offset expected_id =
     (case read_all fs pack_path of
        Inl e \<Rightarrow> Inl (EIo ''pack open'')
      | Inr data \<Rightarrow> read_entry X H data offset expected_id)"

definition children :: "fs \<Rightarrow> fpath \<Rightarrow> fpath list" where
  \<comment> \<open>the paths \<open>read_dir\<close> lists\<close>
  "children fs dir = filter (\<lambda>p. p \<noteq> [] \<and> butlast p = dir) (map fst fs)"

definition idx_file :: "fpath \<Rightarrow> bool" where
  "idx_file path \<longleftrightarrow> valid_utf8 (file_stem (last path)) \<and> prefix (ascii ''pack-'') (file_stem (last path))
     \<and> extension (last path) = ascii ''idx''"

definition with_extension :: "fpath \<Rightarrow> bytes \<Rightarrow> fpath" where
  "with_extension path ext = butlast path @ [file_stem (last path) @ ascii ''.'' @ ext]"

fun pack_scan ::
  "pack_env \<Rightarrow> xz_lib \<Rightarrow> (bytes \<Rightarrow> bytes) \<Rightarrow> fs \<Rightarrow> idx_cache \<Rightarrow> fpath list \<Rightarrow> object_id
     \<Rightarrow> object option res run \<times> idx_cache" where
  "pack_scan E X H fs g [] i = (Return (Inr None), g)"
| "pack_scan E X H fs g (path # paths) i =
     (if \<not> idx_file path then pack_scan E X H fs g paths i
      else (case lookup_in_idx E fs g path i of
        (Return (Inl e), g1) \<Rightarrow> (Return (Inl e), g1)
      | (Return (Inr (Some offset)), g1) \<Rightarrow>
          (case read_entry_at X H fs (with_extension path (ascii ''pack'')) offset i of
             Inl e \<Rightarrow> (Return (Inl e), g1) | Inr obj \<Rightarrow> (Return (Inr (Some obj)), g1))
      | (Return (Inr None), g1) \<Rightarrow> pack_scan E X H fs g1 paths i
      | (_, g1) \<Rightarrow> (Panic, g1)))"

definition read_from_packs ::
  "pack_env \<Rightarrow> xz_lib \<Rightarrow> (bytes \<Rightarrow> bytes) \<Rightarrow> fs \<Rightarrow> idx_cache \<Rightarrow> fpath \<Rightarrow> object_id
     \<Rightarrow> object option res run \<times> idx_cache" where
  "read_from_packs E X H fs g gyt i =
     (if deref ELOOP_MAX fs (pack_dir gyt) \<noteq> Some Dir then (Return (Inr None), g)
      else pack_scan E X H fs g (children fs (pack_dir gyt)) i)"

fun id_scan :: "pack_env \<Rightarrow> fs \<Rightarrow> idx_cache \<Rightarrow> fpath list \<Rightarrow> object_id \<Rightarrow> bool run \<times> idx_cache" where
  "id_scan E fs g [] i = (Return False, g)"
| "id_scan E fs g (path # paths) i =
     (if extension (last path) \<noteq> ascii ''idx'' then id_scan E fs g paths i
      else (case lookup_in_idx E fs g path i of
        (Return (Inr (Some _)), g1) \<Rightarrow> (Return True, g1)
      | (Return _, g1) \<Rightarrow> id_scan E fs g1 paths i
      | (_, g1) \<Rightarrow> (Panic, g1)))"

definition id_in_packs :: "pack_env \<Rightarrow> fs \<Rightarrow> idx_cache \<Rightarrow> fpath \<Rightarrow> object_id \<Rightarrow> bool run \<times> idx_cache" where
  "id_in_packs E fs g gyt i =
     (if deref ELOOP_MAX fs (pack_dir gyt) \<noteq> Some Dir then (Return False, g)
      else id_scan E fs g (children fs (pack_dir gyt)) i)"

section \<open>Binary search over fixed-width rows\<close>

lemma idx_search_total:
  "IDX_HEADER_LEN + hi * IDX_ENTRY_LEN \<le> length data \<Longrightarrow> \<exists>r. idx_search data t lo hi = Return r"
proof (induction data t lo hi rule: idx_search.induct)
  case (1 data t lo hi)
  show ?case
  proof (cases "lo < hi")
    case True
    let ?mid = "(lo + hi) div 2"
    let ?off = "IDX_HEADER_LEN + ?mid * IDX_ENTRY_LEN"
    have "Suc ?mid * IDX_ENTRY_LEN \<le> hi * IDX_ENTRY_LEN" using True by (intro mult_le_mono1) simp
    then have fit: "?off + IDX_ENTRY_LEN \<le> length data" using "1.prems" by simp
    obtain h w where h: "slice ?off (?off + HASH_LEN) data = Return h"
      and w: "slice (?off + HASH_LEN) (?off + IDX_ENTRY_LEN) data = Return w"
      using fit by (simp add: slice_def HASH_LEN_def IDX_ENTRY_LEN_def)
    consider "h < t" | "\<not> h < t" "t < h" | "\<not> h < t" "\<not> t < h" by blast
    then show ?thesis
    proof cases
      case 1
      with "1.IH"(1) [OF True refl refl h] "1.prems" True h show ?thesis by (subst idx_search.simps) simp
    next
      case 2
      with "1.IH"(2) [OF True refl refl h] fit True h show ?thesis by (subst idx_search.simps) simp
    next
      case 3
      with True h w show ?thesis by (subst idx_search.simps) simp
    qed
  qed (simp add: idx_search.simps)
qed

text \<open>\<open>rows\<close> says that the bytes hold \<open>n\<close> rows with the keys \<open>key\<close> in strictly ascending order.\<close>

definition rows :: "bytes \<Rightarrow> nat \<Rightarrow> (nat \<Rightarrow> bytes) \<Rightarrow> (nat \<Rightarrow> bytes) \<Rightarrow> bool" where
  "rows data n key val \<longleftrightarrow>
     (\<forall>m < n. slice (IDX_HEADER_LEN + m * IDX_ENTRY_LEN) (IDX_HEADER_LEN + m * IDX_ENTRY_LEN + HASH_LEN) data
                = Return (key m)
            \<and> slice (IDX_HEADER_LEN + m * IDX_ENTRY_LEN + HASH_LEN) (IDX_HEADER_LEN + m * IDX_ENTRY_LEN + IDX_ENTRY_LEN) data
                = Return (val m))
   \<and> (\<forall>i j. i < j \<longrightarrow> j < n \<longrightarrow> key i < key j)"

lemma rows_inj: "rows data n key val \<Longrightarrow> i < n \<Longrightarrow> j < n \<Longrightarrow> (key i < key j) = (i < j)"
  unfolding rows_def by (metis linorder_neqE_nat order.asym order_less_irrefl)

lemma idx_search_step:
  assumes "rows data n key val" "lo < hi" "hi \<le> n"
  shows "idx_search data t lo hi =
    (let mid = (lo + hi) div 2 in
     if key mid < t then idx_search data t (mid + 1) hi
     else if t < key mid then idx_search data t lo mid
     else Return (Some (unat (from_le (val mid) :: 64 word))))"
proof -
  have "(lo + hi) div 2 < n" using assms(2,3) by simp
  with assms(1) show ?thesis
    using assms(2) by (subst idx_search.simps) (simp add: rows_def Let_def)
qed

lemma idx_search_hit:
  "rows data n key val \<Longrightarrow> hi \<le> n \<Longrightarrow> lo \<le> m \<Longrightarrow> m < hi \<Longrightarrow>
     idx_search data (key m) lo hi = Return (Some (unat (from_le (val m) :: 64 word)))"
proof (induction "hi - lo" arbitrary: lo hi rule: less_induct)
  case less
  let ?mid = "(lo + hi) div 2"
  have mid: "lo < hi" "lo \<le> ?mid" "?mid < hi" "?mid < n" "m < n" using less.prems by simp_all
  note step = idx_search_step [OF less.prems(1) mid(1) less.prems(2), of "key m"]
  consider "m < ?mid" | "?mid < m" | "m = ?mid" by linarith
  then show ?case
  proof cases
    case 1
    then have lt: "key m < key ?mid" using rows_inj [OF less.prems(1)] mid by blast
    then have "\<not> key ?mid < key m" by (rule less_not_sym)
    moreover have "idx_search data (key m) lo ?mid = Return (Some (unat (from_le (val m) :: 64 word)))"
      using less.hyps [of ?mid lo] less.prems 1 mid by simp
    ultimately show ?thesis unfolding step Let_def using lt by (simp only: if_True if_False)
  next
    case 2
    then have "key ?mid < key m" using rows_inj [OF less.prems(1)] mid by blast
    moreover have "idx_search data (key m) (?mid + 1) hi = Return (Some (unat (from_le (val m) :: 64 word)))"
      using less.hyps [of hi "?mid + 1"] less.prems 2 mid by simp
    ultimately show ?thesis using step by (simp add: Let_def)
  next
    case 3
    with step show ?thesis by (simp add: Let_def)
  qed
qed

lemma idx_search_miss:
  "rows data n key val \<Longrightarrow> hi \<le> n \<Longrightarrow> \<forall>m < n. key m \<noteq> t \<Longrightarrow> idx_search data t lo hi = Return None"
proof (induction "hi - lo" arbitrary: lo hi rule: less_induct)
  case less
  let ?mid = "(lo + hi) div 2"
  show ?case
  proof (cases "lo < hi")
    case True
    then have mid: "lo \<le> ?mid" "?mid < hi" "?mid < n" using less.prems(2) by simp_all
    have "idx_search data t (?mid + 1) hi = Return None" "idx_search data t lo ?mid = Return None"
      using less.hyps [of hi "?mid + 1"] less.hyps [of ?mid lo] less.prems mid by simp_all
    moreover have "key ?mid < t \<or> t < key ?mid" using less.prems(3) mid(3) linorder_neqE by blast
    ultimately show ?thesis using idx_search_step [OF less.prems(1) True less.prems(2), of t]
      by (auto simp: Let_def)
  qed (simp add: idx_search.simps)
qed

section \<open>What a pack holds\<close>

lemma dedup_by_id_hd: "\<exists>ds. dedup_by_id (e # es) = e # ds"
  by (induction es arbitrary: e) auto

lemma dedup_by_id_set: "set (dedup_by_id es) \<subseteq> set es"
  by (induction es rule: dedup_by_id.induct) auto

lemma dedup_by_id_ids: "pk_id ` set (dedup_by_id es) = pk_id ` set es"
  by (induction es rule: dedup_by_id.induct) auto

lemma dedup_by_id_strict: "sorted (map pk_id es) \<Longrightarrow> sorted_wrt (<) (map pk_id (dedup_by_id es))"
proof (induction es rule: dedup_by_id.induct)
  case (1 e f es)
  show ?case
  proof (cases "pk_id f = pk_id e")
    case True
    with 1 show ?thesis by simp
  next
    case False
    then have "pk_id e < pk_id f" using "1.prems" by auto
    moreover have "pk_id f \<le> pk_id g" if "g \<in> set (dedup_by_id (f # es))" for g
      using that dedup_by_id_set [of "f # es"] "1.prems" by auto
    ultimately have "\<forall>g \<in> set (dedup_by_id (f # es)). pk_id e < pk_id g" by (meson order.strict_trans2)
    with False 1 show ?thesis by simp
  qed
qed simp_all

definition entry_rec :: "pack_entry \<Rightarrow> bytes" where
  "entry_rec e = [encode_kind (pk_kind e)] @ id_bytes (pk_id e)
     @ to_le (word_of_nat (length (pk_on_disk e)) :: 32 word) @ pk_on_disk e"

definition entry_at :: "bytes \<Rightarrow> pack_entry \<Rightarrow> object_id \<times> nat \<Rightarrow> bool" where
  "entry_at body e r \<longleftrightarrow> fst r = pk_id e \<and> snd r < USIZE_LIMIT \<and> length (pk_on_disk e) < U32_LIMIT
     \<and> (\<exists>rest. drop (snd r) body = entry_rec e @ rest)"

lemma pack_entries_ok:
  "pack_entries body offs es = Inr (body', offs') \<Longrightarrow>
     \<exists>bs os. body' = body @ bs \<and> offs' = offs @ os \<and> list_all2 (entry_at body') es os"
proof (induction es arbitrary: body offs)
  case (Cons e es)
  from Cons.prems have ok: "length body < USIZE_LIMIT" "length (pk_on_disk e) < U32_LIMIT"
    and rec: "pack_entries (body @ entry_rec e) (offs @ [(pk_id e, length body)]) es = Inr (body', offs')"
    by (auto simp: Let_def entry_rec_def split: if_splits)
  from Cons.IH [OF rec] obtain bs os where r: "body' = (body @ entry_rec e) @ bs"
    "offs' = (offs @ [(pk_id e, length body)]) @ os" "list_all2 (entry_at body') es os" by blast
  then have "entry_at body' e (pk_id e, length body)" using ok by (simp add: entry_at_def)
  with r show ?case by (intro exI [of _ "entry_rec e @ bs"] exI [of _ "(pk_id e, length body) # os"]) simp
qed simp

lemma length_pack_header [simp]: "length magic = 4 \<Longrightarrow> length (pack_header magic n) = 12"
  by (simp add: pack_header_def)

lemma length_idx_row: "wf_id (fst r) \<Longrightarrow> length (idx_row r) = 40"
  by (cases r) (simp add: idx_row_def wf_id_def HASH_LEN_def)

lemma length_idx_rows: "\<forall>r \<in> set os. wf_id (fst r) \<Longrightarrow> length (concat (map idx_row os)) = length os * 40"
  by (induction os) (simp_all add: length_idx_row)

lemma take_take_block: "take 40 d = p @ q \<Longrightarrow> length p = 32 \<Longrightarrow> length q = 8 \<Longrightarrow>
    take 32 d = p \<and> take 8 (drop 32 d) = q"
proof -
  assume a: "take 40 d = p @ q" "length p = 32" "length q = 8"
  have "take 32 d = take 32 (take 40 d)" "take 8 (drop 32 d) = drop 32 (take 40 d)"
    by (simp_all add: drop_take)
  with a show ?thesis by simp
qed

lemma slice_after:
  "length h = k \<Longrightarrow> a \<le> b \<Longrightarrow> b \<le> length c \<Longrightarrow> slice (k + a) (k + b) (h @ c) = Return (take (b - a) (drop a c))"
  by (simp add: slice_def)

lemma slice_row:
  assumes "length h = 12" "Suc m * 40 \<le> length c" "take 40 (drop (m * 40) c) = p @ q" "length p = 32" "length q = 8"
  shows "slice (12 + m * 40) (12 + m * 40 + 32) (h @ c) = Return p"
    and "slice (12 + m * 40 + 32) (12 + m * 40 + 40) (h @ c) = Return q"
  using slice_after [OF assms(1), of "m * 40" "m * 40 + 32" c] slice_after [OF assms(1), of "m * 40 + 32" "m * 40 + 40" c]
    assms(2) take_take_block [OF assms(3-5)]
  by (simp_all add: add.assoc add.commute [of 32])

lemma idx_rows:
  assumes "\<forall>r \<in> set os. wf_id (fst r)" "sorted_wrt (<) (map fst os)" "length magic = 4"
  shows "rows (pack_header magic n @ concat (map idx_row os) @ tr) (length os)
    (\<lambda>m. id_bytes (fst (os ! m))) (\<lambda>m. to_le (word_of_nat (snd (os ! m)) :: 64 word))"
proof -
  define c where "c = concat (map idx_row os) @ tr"
  have sl: "slice (12 + m * 40) (12 + m * 40 + 32) (pack_header magic n @ c) = Return (id_bytes (fst (os ! m)))
      \<and> slice (12 + m * 40 + 32) (12 + m * 40 + 40) (pack_header magic n @ c)
          = Return (to_le (word_of_nat (snd (os ! m)) :: 64 word))" if m: "m < length os" for m
  proof (intro conjI slice_row)
    have "Suc m * 40 \<le> length os * 40" using m by (intro mult_le_mono1) simp
    then show fit: "Suc m * 40 \<le> length c" using length_idx_rows [OF assms(1)] by (simp add: c_def)
    then show "Suc m * 40 \<le> length c" .
    have "take 40 (drop (m * 40) c) = idx_row (os ! m)"
      unfolding c_def using assms(1) m length_idx_row by (intro concat_block) blast+
    then show row: "take 40 (drop (m * 40) c) = id_bytes (fst (os ! m)) @ to_le (word_of_nat (snd (os ! m)) :: 64 word)"
      by (simp only: idx_row_def case_prod_beta)
    then show "take 40 (drop (m * 40) c) = id_bytes (fst (os ! m)) @ to_le (word_of_nat (snd (os ! m)) :: 64 word)" .
  qed (use assms(1,3) m in \<open>simp_all add: wf_id_def HASH_LEN_def\<close>)
  have "fst (os ! i) < fst (os ! j)" if "i < j" "j < length os" for i j
    using assms(2) that by (simp add: sorted_wrt_iff_nth_less)
  then show ?thesis
    unfolding rows_def IDX_HEADER_LEN_def IDX_ENTRY_LEN_def HASH_LEN_def c_def [symmetric] less_object_id_def
    using sl by simp
qed

lemma lookup_built:
  assumes "\<forall>r \<in> set os. wf_id (fst r)" "sorted_wrt (<) (map fst os)" "length os < U32_LIMIT" "length tr = 32"
  shows "m < length os \<Longrightarrow> snd (os ! m) < USIZE_LIMIT \<Longrightarrow>
      lookup_bytes (pack_header IDX_MAGIC (length os) @ concat (map idx_row os) @ tr) (fst (os ! m))
        = Return (Inr (Some (snd (os ! m))))" (is "_ \<Longrightarrow> _ \<Longrightarrow> lookup_bytes ?d _ = _")
    and "i \<notin> fst ` set os \<Longrightarrow>
      lookup_bytes (pack_header IDX_MAGIC (length os) @ concat (map idx_row os) @ tr) i = Return (Inr None)"
proof -
  have magic: "length IDX_MAGIC = 4" by (simp add: IDX_MAGIC_def)
  note rows = idx_rows [OF assms(1,2) magic, of "length os" tr]
  have len: "length ?d = length os * 40 + 44"
    using length_idx_rows [OF assms(1)] assms(4) length_pack_header [OF magic] by simp
  have f: "take 4 ?d = IDX_MAGIC" "?d ! 4 = PACK_VERSION" "take 4 (drop 8 ?d) = to_le (word_of_nat (length os) :: 32 word)"
    using magic by (simp_all add: pack_header_def nth_append)
  have n: "unat (word_of_nat (length os) :: 32 word) = length os"
    using assms(3) by (simp add: unat_of_nat take_bit_nat_eq_self U32_LIMIT_def)
  have look: "lookup_bytes ?d j = (case idx_search ?d (id_bytes j) 0 (length os) of
      Return r \<Rightarrow> Return (Inr r) | Panic \<Rightarrow> Panic | Diverge \<Rightarrow> Diverge)" for j
    unfolding lookup_bytes_def f len
    using n assms(3) by (simp add: Let_def IDX_HEADER_LEN_def IDX_ENTRY_LEN_def TRAILER_LEN_def U32_LIMIT_def USIZE_LIMIT_def)
  show "lookup_bytes ?d (fst (os ! m)) = Return (Inr (Some (snd (os ! m))))"
    if "m < length os" "snd (os ! m) < USIZE_LIMIT"
    unfolding look using idx_search_hit [OF rows order.refl, of 0 m] that
    by (simp add: unat_of_nat take_bit_nat_eq_self USIZE_LIMIT_def)
  show "lookup_bytes ?d i = Return (Inr None)" if "i \<notin> fst ` set os"
  proof -
    have "\<forall>m < length os. id_bytes (fst (os ! m)) \<noteq> id_bytes i"
      using that by (metis imageI nth_mem object_id.expand)
    from idx_search_miss [OF rows order.refl this, of 0] show ?thesis unfolding look by simp
  qed
qed

definition holds :: "xz_lib \<Rightarrow> (bytes \<Rightarrow> bytes) \<Rightarrow> pack_entry \<Rightarrow> object \<Rightarrow> bool" where
  "holds X H e obj \<longleftrightarrow>
     (let raw = build_raw (obj_kind obj) (obj_payload obj) in
      pk_id e = obj_id obj \<and> pk_kind e = obj_kind obj \<and> obj_id obj = hash_bytes H raw
      \<and> decode X (pk_on_disk e) = Inr raw \<and> length (pk_on_disk e) \<le> 2 ^ 30 \<and> length (obj_payload obj) < USIZE_LIMIT)"

lemma decode_kind_encode [simp]: "decode_kind (encode_kind k) = Inr k"
  by (cases k) (simp_all add: decode_kind_def decode_kind_inner_def encode_kind_def)

lemma read_entry_ok:
  assumes "entry_at body e r" "holds X H e obj" "digest32 H"
  shows "read_entry X H (body @ tr) (snd r) (obj_id obj) = Inr obj"
proof -
  let ?raw = "build_raw (obj_kind obj) (obj_payload obj)"
  have h: "pk_id e = obj_id obj" "pk_kind e = obj_kind obj" "hash_bytes H ?raw = obj_id obj"
      "decode X (pk_on_disk e) = Inr ?raw" "length (pk_on_disk e) \<le> 2 ^ 30" "length (obj_payload obj) < USIZE_LIMIT"
    using assms(2) by (simp_all add: holds_def Let_def)
  have idl: "length (id_bytes (obj_id obj)) = 32"
    using assms(3) h(3) by (simp add: digest32_def HASH_LEN_def hash_bytes_def flip: h(3))
  obtain rest where r: "drop (snd r) body = entry_rec e @ rest" using assms(1) by (auto simp: entry_at_def)
  then have "snd r < length body" by (rule_tac ccontr) (simp add: entry_rec_def)
  with r have d: "drop (snd r) (body @ tr) = entry_rec e @ rest @ tr" by simp
  define dat where "dat = body @ tr"
  define off where "off = snd r"
  have n: "unat (word_of_nat (length (pk_on_disk e)) :: 32 word) = length (pk_on_disk e)"
    using h(5) by (simp add: unat_of_nat take_bit_nat_eq_self)
  have hd: "take 37 (drop off dat) = [encode_kind (obj_kind obj)] @ id_bytes (obj_id obj)
      @ to_le (word_of_nat (length (pk_on_disk e)) :: 32 word)" (is "_ = ?hd")
    unfolding dat_def off_def d using h idl by (simp add: entry_rec_def)
  have "drop (off + 37) dat = drop 37 (drop off dat)" by (simp add: add.commute)
  also have "\<dots> = pk_on_disk e @ rest @ tr"
    unfolding dat_def off_def d using h idl by (simp add: entry_rec_def)
  finally have bd: "take (length (pk_on_disk e)) (drop (off + 37) dat) = pk_on_disk e" by simp
  have hl: "length ?hd = 37" "?hd ! 0 = encode_kind (obj_kind obj)" "take 32 (drop 1 ?hd) = id_bytes (obj_id obj)"
    "take 4 (drop 33 ?hd) = to_le (word_of_nat (length (pk_on_disk e)) :: 32 word)"
    using idl by simp_all
  have "parse_raw ?raw = Inr (obj_kind obj, obj_payload obj)" by (rule parse_build_raw [OF h(6)])
  then show ?thesis
    unfolding read_entry_def Let_def HASH_LEN_def dat_def [symmetric] off_def [symmetric]
    using h(3-5) n hl by (simp add: hd bd del: One_nat_def)
qed

lemma build_pack_ok:
  assumes "build_pack H es = Inr (tr, body, idx)" "sorted_wrt (<) (map pk_id es)" "\<forall>e \<in> set es. wf_id (pk_id e)" "digest32 H"
  shows "e \<in> set es \<Longrightarrow> \<exists>off. lookup_bytes idx (pk_id e) = Return (Inr (Some off))
      \<and> (\<forall>obj. holds X H e obj \<longrightarrow> read_entry X H body off (obj_id obj) = Inr obj)"
    and "i \<notin> pk_id ` set es \<Longrightarrow> lookup_bytes idx i = Return (Inr None)"
proof -
  obtain b os where pe: "pack_entries (pack_header PACK_MAGIC (length es)) [] es = Inr (b, os)"
    and n: "length es < U32_LIMIT" and out: "tr = hash_bytes H b" "body = b @ id_bytes tr"
      "idx = pack_header IDX_MAGIC (length es) @ concat (map idx_row os) @ id_bytes tr"
    using assms(1) by (auto simp: build_pack_def Let_def split: if_splits sum.splits)
  from pack_entries_ok [OF pe] have al: "list_all2 (entry_at b) es os" by auto
  then have len: "length os = length es" by (simp add: list_all2_lengthD)
  have ids: "map fst os = map pk_id es"
    using al by (induction rule: list_all2_induct) (simp_all add: entry_at_def)
  have tl: "length (id_bytes tr) = 32" using out(1) assms(4) by (simp add: digest32_def HASH_LEN_def hash_bytes_def)
  have wf: "\<forall>r \<in> set os. wf_id (fst r)"
    using assms(3) ids by (metis (no_types, lifting) imageE imageI list.set_map)
  note built = lookup_built [OF wf assms(2) [folded ids] n [folded len] tl, unfolded len, folded out(3)]
  show "\<exists>off. lookup_bytes idx (pk_id e) = Return (Inr (Some off))
      \<and> (\<forall>obj. holds X H e obj \<longrightarrow> read_entry X H body off (obj_id obj) = Inr obj)" if "e \<in> set es"
  proof -
    from that obtain m where m: "m < length es" "e = es ! m" by (metis in_set_conv_nth)
    then have at: "entry_at b e (os ! m)" using al by (simp add: list_all2_conv_all_nth)
    then have "lookup_bytes idx (pk_id e) = Return (Inr (Some (snd (os ! m))))"
      using built(1) [OF m(1)] by (simp add: entry_at_def)
    with read_entry_ok [OF at _ assms(4)] out(2) show ?thesis by blast
  qed
  have "fst ` set os = pk_id ` set es" using ids by (metis list.set_map)
  then show "lookup_bytes idx i = Return (Inr None)" if "i \<notin> pk_id ` set es" using built(2) that by simp
qed

section \<open>The cache\<close>

definition cache_ok :: "pack_env \<Rightarrow> fs \<Rightarrow> idx_cache \<Rightarrow> bool" where
  \<comment> \<open>an entry whose time is that of the file holds the bytes of the file\<close>
  "cache_ok E fs g \<longleftrightarrow>
     (\<forall>p data. map_of g (pe_canon E p) = Some (data, pe_mtime E p) \<longrightarrow> read_all fs p = Inr data)"

definition env_ok :: "pack_env \<Rightarrow> fs \<Rightarrow> bool" where
  \<comment> \<open>paths with one canonical form name one file; a map that is not empty has a first key\<close>
  "env_ok E fs \<longleftrightarrow> (\<forall>p q. pe_canon E p = pe_canon E q \<longrightarrow> read_all fs p = read_all fs q)
     \<and> (\<forall>ks. ks \<noteq> [] \<longrightarrow> pe_victim E ks \<in> set ks)"

definition cache_bounded :: "idx_cache \<Rightarrow> bool" where
  "cache_bounded g \<longleftrightarrow> distinct (map fst g) \<and> length g \<le> MAX_IDX_CACHE_ENTRIES"

lemma length_update: "length (AList.update k v al) = (if k \<in> fst ` set al then length al else Suc (length al))"
  by (induction al) auto

lemma length_delete: "k \<in> fst ` set al \<Longrightarrow> length (AList.delete k al) < length al"
  by (auto simp: AList.delete_eq intro!: length_filter_less)

lemma insert_cache_get:
  "map_of (insert_into_idx_cache E c data m g) k = Some v \<Longrightarrow> k = c \<and> v = (data, m) \<or> map_of g k = Some v"
  by (simp add: insert_into_idx_cache_def Let_def update_conv delete_conv split: if_splits)

lemma insert_cache_ok:
  assumes "cache_ok E fs g" "env_ok E fs" "read_all fs p = Inr data"
  shows "cache_ok E fs (insert_into_idx_cache E (pe_canon E p) data (pe_mtime E p) g)"
  unfolding cache_ok_def
proof (intro allI impI)
  fix q d
  assume "map_of (insert_into_idx_cache E (pe_canon E p) data (pe_mtime E p) g) (pe_canon E q) = Some (d, pe_mtime E q)"
  then consider "pe_canon E q = pe_canon E p" "d = data" | "map_of g (pe_canon E q) = Some (d, pe_mtime E q)"
    using insert_cache_get by blast
  then show "read_all fs q = Inr d"
  proof cases
    case 1
    then have "read_all fs q = read_all fs p" using assms(2) unfolding env_ok_def by blast
    with 1 assms(3) show ?thesis by simp
  next
    case 2
    with assms(1) show ?thesis unfolding cache_ok_def by blast
  qed
qed

lemma insert_cache_bounded:
  assumes "cache_bounded g" "env_ok E fs"
  shows "cache_bounded (insert_into_idx_cache E c data m g)"
proof (cases "map_of g c = None")
  case False
  then have "insert_into_idx_cache E c data m g = AList.update c (data, m) g"
    by (simp add: insert_into_idx_cache_def del: not_None_eq)
  moreover from False have "c \<in> fst ` set g" by (simp add: map_of_eq_None_iff)
  ultimately show ?thesis using assms(1) by (simp add: cache_bounded_def length_update distinct_update)
next
  case True
  let ?v = "pe_victim E (map fst g)"
  show ?thesis
  proof (cases "length g \<ge> MAX_IDX_CACHE_ENTRIES")
    case full: True
    then have "g \<noteq> []" by (auto simp: MAX_IDX_CACHE_ENTRIES_def)
    then have "?v \<in> fst ` set g" using assms(2) by (auto simp: env_ok_def)
    then have "length (AList.delete ?v g) < length g" by (rule length_delete)
    with True full assms(1) show ?thesis
      by (simp add: cache_bounded_def insert_into_idx_cache_def length_update distinct_update distinct_delete)
  next
    case False
    with True assms(1) show ?thesis
      by (simp add: cache_bounded_def insert_into_idx_cache_def length_update distinct_update)
  qed
qed

lemma idx_bytes_cached:
  assumes "cache_ok E fs g" "env_ok E fs"
  shows "fst (idx_bytes E fs g p) = read_all fs p" and "cache_ok E fs (snd (idx_bytes E fs g p))"
proof -
  have "fst (idx_bytes E fs g p) = read_all fs p \<and> cache_ok E fs (snd (idx_bytes E fs g p))"
  proof (cases "read_all fs p")
    case (Inl e)
    with assms show ?thesis by (auto simp: idx_bytes_def Let_def cache_ok_def split: option.splits)
  next
    case (Inr data)
    with assms insert_cache_ok [OF assms Inr] show ?thesis
      by (auto simp: idx_bytes_def Let_def cache_ok_def split: option.splits)
  qed
  then show "fst (idx_bytes E fs g p) = read_all fs p" "cache_ok E fs (snd (idx_bytes E fs g p))" by simp_all
qed

section \<open>From a written pack to its objects\<close>

lemma lookup_in_idx_cached:
  assumes "cache_ok E fs g" "env_ok E fs" "read_all fs p = Inr data"
  obtains g' where "lookup_in_idx E fs g p i = (lookup_bytes data i, g')" "cache_ok E fs g'"
  using that idx_bytes_cached [OF assms(1,2), of p] assms(3)
  by (cases "idx_bytes E fs g p") (simp add: lookup_in_idx_def)

lemma pack_scan_finds:
  assumes "env_ok E fs" "idx_file idx" "read_all fs idx = Inr data" "lookup_bytes data i = Return (Inr (Some off))"
    "read_entry_at X H fs (with_extension idx (ascii ''pack'')) off i = Inr obj"
  shows "cache_ok E fs g \<Longrightarrow> idx \<in> set paths \<Longrightarrow>
    \<forall>p \<in> set paths. idx_file p \<longrightarrow> p \<noteq> idx \<longrightarrow> (\<exists>d. read_all fs p = Inr d \<and> lookup_bytes d i = Return (Inr None)) \<Longrightarrow>
    fst (pack_scan E X H fs g paths i) = Return (Inr (Some obj))"
proof (induction paths arbitrary: g)
  case (Cons p paths)
  show ?case
  proof (cases "p = idx")
    case True
    obtain g' where "lookup_in_idx E fs g idx i = (lookup_bytes data i, g')"
      by (rule lookup_in_idx_cached [OF Cons.prems(1) assms(1,3)])
    with True assms(2,4,5) show ?thesis by (simp del: ascii_Cons)
  next
    case False
    show ?thesis
    proof (cases "idx_file p")
      case True
      with False Cons.prems(3) obtain d where d: "read_all fs p = Inr d" "lookup_bytes d i = Return (Inr None)" by auto
      obtain g' where "lookup_in_idx E fs g p i = (lookup_bytes d i, g')" "cache_ok E fs g'"
        by (rule lookup_in_idx_cached [OF Cons.prems(1) assms(1) d(1)])
      with True d(2) Cons.IH [of g'] Cons.prems(2,3) False show ?thesis by (simp del: ascii_Cons)
    next
      case no: False
      with Cons.IH [of g] Cons.prems False show ?thesis by (simp del: ascii_Cons)
    qed
  qed
qed simp

definition idx_path :: "fpath \<Rightarrow> object_id \<Rightarrow> fpath" where
  "idx_path gyt tr = pack_dir gyt @ [pack_stem tr @ ascii ''.idx'']"

definition pack_path :: "fpath \<Rightarrow> object_id \<Rightarrow> fpath" where
  "pack_path gyt tr = pack_dir gyt @ [pack_stem tr @ ascii ''.pack'']"

lemma dot_ext: "46 \<notin> set (ascii ''idx'')" "46 \<notin> set (ascii ''pack'')" by simp_all

lemma pack_stem_nonempty: "pack_stem tr \<noteq> []" by (simp add: pack_stem_def)

lemma idx_name: "pack_stem tr @ ascii ''.idx'' = pack_stem tr @ 46 # ascii ''idx''"
  "pack_stem tr @ ascii ''.pack'' = pack_stem tr @ 46 # ascii ''pack''" by simp_all

lemma idx_name_parts:
  "file_stem (pack_stem tr @ 46 # ascii ''idx'') = pack_stem tr"
  "extension (pack_stem tr @ 46 # ascii ''idx'') = ascii ''idx''"
  "extension (pack_stem tr @ 46 # ascii ''pack'') = ascii ''pack''"
  using file_stem_join extension_join dot_ext pack_stem_nonempty by blast+

lemma idx_path_file: "idx_file (idx_path gyt tr)"
proof -
  have "valid_utf8 (pack_stem tr)"
    by (rule valid_utf8_text) (use graphic_to_hex [of tr] in
      \<open>auto simp: pack_stem_def graphic_def list_all_iff word_le_nat_alt word_less_nat_alt\<close>)
  moreover have "prefix (ascii ''pack-'') (pack_stem tr)" unfolding pack_stem_def by simp
  ultimately show ?thesis
    unfolding idx_file_def idx_path_def last_snoc idx_name
    by (simp only: idx_name_parts simp_thms)
qed

lemma pack_path_not_idx: "\<not> idx_file (pack_path gyt tr)"
  unfolding idx_file_def pack_path_def last_snoc idx_name idx_name_parts by simp

lemma idx_to_pack: "with_extension (idx_path gyt tr) (ascii ''pack'') = pack_path gyt tr"
  unfolding with_extension_def idx_path_def pack_path_def last_snoc butlast_snoc idx_name idx_name_parts by simp

lemma idx_tmp_not_pack: "tmp_path (idx_path gyt tr) nonce \<noteq> pack_path gyt tr"
  unfolding tmp_path_def idx_path_def pack_path_def last_snoc butlast_snoc idx_name tmp_name_def idx_name_parts
  by (simp split: if_splits)

lemma children_iff: "p \<in> set (children fs dir) \<longleftrightarrow> fs_get fs p \<noteq> None \<and> p \<noteq> [] \<and> butlast p = dir"
  by (auto simp: children_def map_of_eq_None_iff image_iff)

lemma atomic_write_sibling:
  assumes "atomic_write nonce fs path data = (Inr u, fs')" "path \<noteq> []" "p \<noteq> path" "p \<noteq> []" "butlast p = butlast path"
    "fs_get fs' p \<noteq> None"
  shows "fs_get fs' p = fs_get fs p"
proof -
  note ok = atomic_write_ok [OF assms(1) [unfolded atomic_write_def] assms(2)]
  have "p \<noteq> tmp_path path nonce" using ok(3) assms(6) by auto
  moreover have "length p = length path" using assms(2,4,5) by (metis append_butlast_last_id length_append_singleton)
  then have "\<not> strict_prefix p path" by (metis prefix_length_less less_irrefl)
  ultimately show ?thesis using ok(2) [OF assms(3)] by blast
qed

lemma write_pack_files:
  assumes "write_pack H n1 n2 fs gyt entries = (Inr tr, fs')"
  obtains body idx where "build_pack H (dedup_by_id (sort_key pk_id entries)) = Inr (tr, body, idx)"
    "read_all fs' (idx_path gyt tr) = Inr idx" "read_all fs' (pack_path gyt tr) = Inr body"
    "fs_get fs' (pack_dir gyt) = Some Dir"
    "\<forall>p. p \<noteq> [] \<longrightarrow> butlast p = pack_dir gyt \<longrightarrow> p \<noteq> idx_path gyt tr \<longrightarrow> p \<noteq> pack_path gyt tr \<longrightarrow>
       fs_get fs' p \<noteq> None \<longrightarrow> fs_get fs' p = fs_get fs p"
proof -
  obtain fs1 fs2 body idx where c: "create_dir_all fs (pack_dir gyt) = (Inr (), fs1)"
    and b: "build_pack H (dedup_by_id (sort_key pk_id entries)) = Inr (tr, body, idx)"
    and w1: "atomic_write n1 fs1 (pack_path gyt tr) body = (Inr (), fs2)"
    and w2: "atomic_write n2 fs2 (idx_path gyt tr) idx = (Inr (), fs')"
    using assms unfolding idx_path_def pack_path_def
    by (auto simp: write_pack_def Let_def simp del: ascii_Cons split: if_splits sum.splits prod.splits)
  have ne: "pack_path gyt tr \<noteq> []" "idx_path gyt tr \<noteq> []" "butlast (pack_path gyt tr) = pack_dir gyt"
    "butlast (idx_path gyt tr) = pack_dir gyt" "pack_path gyt tr \<noteq> idx_path gyt tr"
    by (simp_all add: pack_path_def idx_path_def)
  note ok1 = atomic_write_ok [OF w1 [unfolded atomic_write_def] ne(1)]
  note ok2 = atomic_write_ok [OF w2 [unfolded atomic_write_def] ne(2)]
  have f2: "read_all fs' (idx_path gyt tr) = Inr idx" using ok2(1) by (simp add: read_all_def deref_file)
  have "fs_get fs' (pack_path gyt tr) = fs_get fs2 (pack_path gyt tr)"
    using ok2(2) [OF ne(5) idx_tmp_not_pack [symmetric]] ok1(1) by simp
  then have f1: "read_all fs' (pack_path gyt tr) = Inr body" using ok1(1) by (simp add: read_all_def deref_file)
  have "fs_get fs1 (pack_dir gyt) = Some Dir" by (rule create_dir_all_dir [OF c]) (simp add: pack_dir_def)
  moreover have "length (pack_dir gyt) \<noteq> length (tmp_path p n)" if "p \<in> {pack_path gyt tr, idx_path gyt tr}" for p n
    using that by (auto simp: tmp_path_def pack_path_def idx_path_def)
  then have "pack_dir gyt \<noteq> tmp_path (pack_path gyt tr) n1" "pack_dir gyt \<noteq> tmp_path (idx_path gyt tr) n2" by force+
  moreover have "pack_dir gyt \<noteq> pack_path gyt tr" "pack_dir gyt \<noteq> idx_path gyt tr"
    by (simp_all add: pack_path_def idx_path_def)
  ultimately have dir: "fs_get fs' (pack_dir gyt) = Some Dir"
    using ok1(2) [of "pack_dir gyt"] ok2(2) [of "pack_dir gyt"] by simp
  have "fs_get fs' p = fs_get fs p" if "p \<noteq> []" "butlast p = pack_dir gyt" "p \<noteq> idx_path gyt tr" "p \<noteq> pack_path gyt tr"
      "fs_get fs' p \<noteq> None" for p
  proof -
    have "fs_get fs' p = fs_get fs2 p" using atomic_write_sibling [OF w2 ne(2)] that ne(4) by simp
    also have "\<dots> = fs_get fs1 p" using atomic_write_sibling [OF w1 ne(1)] that ne(3) calculation by simp
    also have "\<dots> = fs_get fs p" using create_dir_all_leaf [of fs p] c that(1,2) by simp
    finally show ?thesis .
  qed
  with that b f1 f2 dir show thesis by blast
qed

lemma ex_Return_if: "\<exists>r. b = Return r \<Longrightarrow> \<exists>r. (if c then Return a else b) = Return r"
  by (cases c) simp_all

lemma lookup_bytes_total: "\<exists>r. lookup_bytes data i = Return r"
proof -
  define n where "n = unat (from_le (take 4 (drop 8 data)) :: 32 word)"
  have last: "\<exists>r. (if length data \<noteq> n * IDX_ENTRY_LEN + (IDX_HEADER_LEN + TRAILER_LEN) then Return e
      else (case idx_search data (id_bytes i) 0 n of
              Return r \<Rightarrow> Return (Inr r) | Panic \<Rightarrow> Panic | Diverge \<Rightarrow> Diverge)) = Return r" for e
  proof (cases "length data = n * IDX_ENTRY_LEN + (IDX_HEADER_LEN + TRAILER_LEN)")
    case True
    then have "IDX_HEADER_LEN + n * IDX_ENTRY_LEN \<le> length data" by linarith
    from idx_search_total [OF this, of "id_bytes i" 0] show ?thesis by auto
  qed simp
  show ?thesis unfolding lookup_bytes_def Let_def n_def [symmetric]
    by (rule ex_Return_if, rule ex_Return_if, rule ex_Return_if, rule ex_Return_if, rule last)
qed

lemma lookup_in_idx_total: "\<exists>r g'. lookup_in_idx E fs g p i = (Return r, g')"
  using lookup_bytes_total by (auto simp: lookup_in_idx_def split: prod.splits sum.splits)

lemma pack_scan_total: "\<exists>r g'. pack_scan E X H fs g paths i = (Return r, g')"
proof (induction paths arbitrary: g)
  case (Cons p paths)
  obtain r g' where "lookup_in_idx E fs g p i = (Return r, g')" using lookup_in_idx_total by blast
  then show ?case using Cons.IH [of g] Cons.IH [of g'] by (auto simp del: ascii_Cons split: sum.splits option.splits)
qed simp

lemma id_scan_total: "\<exists>r g'. id_scan E fs g paths i = (Return r, g')"
proof (induction paths arbitrary: g)
  case (Cons p paths)
  obtain r g' where "lookup_in_idx E fs g p i = (Return r, g')" using lookup_in_idx_total by blast
  then show ?case using Cons.IH [of g] Cons.IH [of g'] by (auto simp del: ascii_Cons split: sum.splits option.splits)
qed (metis id_scan.simps(1))

text \<open>C23: no slice of the index lookup is ever out of range. Whatever bytes the index and pack files hold
  and whatever is cached, looking an object up in the packs returns an object, an error or its absence; it
  neither panics nor runs forever.\<close>
theorem packs_no_panic:
  "(\<exists>r g'. read_from_packs E X H fs g gyt i = (Return r, g')) \<and> (\<exists>r g'. id_in_packs E fs g gyt i = (Return r, g'))"
  unfolding read_from_packs_def id_in_packs_def using pack_scan_total id_scan_total by (metis (no_types))


definition plain_env :: pack_env where
  "plain_env = \<lparr>pe_mtime = (\<lambda>_. 0), pe_canon = (\<lambda>p. p), pe_victim = hd\<rparr>"

lemma plain_env_ok: "env_ok plain_env fs"
  by (simp add: env_ok_def plain_env_def)



text \<open>A pack of one blob, written into an empty pack directory.\<close>

definition zero_hash :: "bytes \<Rightarrow> bytes" where "zero_hash b = replicate 32 0"

definition sample_blob :: object where
  "sample_blob = Object_new zero_hash Blob (ascii ''hi'')"

definition sample_entry :: pack_entry where
  "sample_entry = \<lparr>pk_id = obj_id sample_blob, pk_kind = Blob,
     pk_on_disk = COMPRESS_MAGIC @ FLAG_XZ # build_raw Blob (ascii ''hi'')\<rparr>"

definition sample_pack_fs :: fs where
  "sample_pack_fs = map (\<lambda>d. (d, Dir)) [[ascii ''g''], [ascii ''g'', ascii ''objects''], pack_dir [ascii ''g'']]"

lemma zero_hash_digest: "digest32 zero_hash"
  by (simp add: digest32_def zero_hash_def HASH_LEN_def)

lemma sample_holds: "holds xz_stored zero_hash sample_entry sample_blob"
  by (simp add: holds_def sample_entry_def sample_blob_def Object_new_def decode_def xz_decode_raw_def xz_stored_def
      MAX_DECOMPRESSED_BYTES_def COMPRESS_MAGIC_def FLAG_XZ_def build_raw_def kind_as_str_def to_radix.simps USIZE_LIMIT_def)

lemma sample_dirs: "create_dir_all sample_pack_fs (pack_dir [ascii ''g'']) = (Inr (), sample_pack_fs)"
  by (simp add: create_dir_all_def sample_pack_fs_def pack_dir_def upt_rec)

lemma ensure_dirs_id: "\<forall>d \<in> set ds. fs_get fs d = Some Dir \<Longrightarrow> ensure_dirs fs ds = (Inr (), fs)"
  by (induction ds) simp_all

lemma atomic_write_keeps_dir:
  assumes "atomic_write nonce fs path data = (Inr u, fs')" "path \<noteq> []" "fs_get fs d = Some Dir" "length d < length path"
  shows "fs_get fs' d = Some Dir"
proof -
  have "length (tmp_path path nonce) = length path" using assms(2) by (simp add: tmp_path_def)
  then have "d \<noteq> path" "d \<noteq> tmp_path path nonce" using assms(4) by force+
  from atomic_write_ok(2) [OF assms(1) [unfolded atomic_write_def] assms(2) this] assms(3) show ?thesis by simp
qed

lemma write_pack_succeeds:
  assumes "create_dir_all fs (pack_dir gyt) = (Inr (), fs)"
    "\<forall>p. p \<noteq> [] \<longrightarrow> butlast p = pack_dir gyt \<longrightarrow> fs_get fs p \<noteq> Some Dir"
    "dedup_by_id (sort_key pk_id es) \<noteq> []" "build_pack H (dedup_by_id (sort_key pk_id es)) = Inr (tr, body, idx)"
  shows "\<exists>fs'. write_pack H n1 n2 fs gyt es = (Inr tr, fs')"
proof -
  let ?dirs = "map (\<lambda>i. take i (pack_dir gyt)) [1..<Suc (length (pack_dir gyt))]"
  have shape: "p \<noteq> []" "butlast p = pack_dir gyt" "tmp_path p n \<noteq> []" "butlast (tmp_path p n) = pack_dir gyt"
    "length p = Suc (length (pack_dir gyt))" if "p \<in> {pack_path gyt tr, idx_path gyt tr}" for p n
    using that by (auto simp: pack_path_def idx_path_def tmp_path_def)
  obtain fs2 where w1: "atomic_write n1 fs (pack_path gyt tr) body = (Inr (), fs2)"
    using atomic_write_succeeds [of fs "pack_path gyt tr" fs n1 body] assms(1,2) shape [of "pack_path gyt tr"] by auto
  have "\<forall>d \<in> set ?dirs. fs_get fs d = Some Dir" using ensure_dirs_ok [OF assms(1) [unfolded create_dir_all_def]] by blast
  moreover have "\<forall>d \<in> set ?dirs. length d < length (pack_path gyt tr)" using shape(5) by (auto simp: less_Suc_eq_le)
  ultimately have "\<forall>d \<in> set ?dirs. fs_get fs2 d = Some Dir"
    using atomic_write_keeps_dir [OF w1 shape(1)] by blast
  then have c: "create_dir_all fs2 (pack_dir gyt) = (Inr (), fs2)" unfolding create_dir_all_def by (rule ensure_dirs_id)
  have nodir: "fs_get fs2 p \<noteq> Some Dir" if p: "p \<noteq> []" "butlast p = pack_dir gyt" for p
  proof (cases "p = pack_path gyt tr")
    case True
    with atomic_write_ok(1) [OF w1 [unfolded atomic_write_def] shape(1)] show ?thesis by simp
  next
    case False
    with atomic_write_sibling [OF w1 shape(1) False] assms(2) p shape(2) [of "pack_path gyt tr"] show ?thesis by force
  qed
  obtain fs3 where "atomic_write n2 fs2 (idx_path gyt tr) idx = (Inr (), fs3)"
    using atomic_write_succeeds [of fs2 "idx_path gyt tr" fs2 n2 idx] c nodir shape [of "idx_path gyt tr"] by auto
  with assms(1,3,4) w1 show ?thesis
    by (simp add: write_pack_def Let_def pack_path_def idx_path_def del: ascii_Cons)
qed

lemma sample_build: "\<exists>tr body idx. build_pack zero_hash [sample_entry] = Inr (tr, body, idx)"
  by (simp add: build_pack_def U32_LIMIT_def USIZE_LIMIT_def sample_entry_def Let_def pack_header_def PACK_MAGIC_def
      COMPRESS_MAGIC_def build_raw_def kind_as_str_def to_radix.simps)


end
