(* ===== verification/Object_Store.thy ===== *)
theory Object_Store
  imports Pack
begin

text \<open>
  \<open>src/object/store.rs\<close>: loose objects, and the lookup order of loose objects before packs. The framing
  of an object is in \<open>Objects\<close>. Errors are values; a panic is one of the compressor or of the pack lookup.
  The \<open>debug_assert\<close> of \<open>write\<close> is compiled out of release builds and has no counterpart.
\<close>

definition path_for :: "fpath \<Rightarrow> object_id \<Rightarrow> fpath" where
  "path_for gyt i = (let hex = to_hex i in gyt @ [ascii ''objects''] @ [take 2 hex] @ [drop 2 hex])"

definition write_bytes ::
  "xz_lib \<Rightarrow> (bytes \<Rightarrow> bytes) \<Rightarrow> bytes \<Rightarrow> fs \<Rightarrow> fpath \<Rightarrow> object_kind \<Rightarrow> bytes \<Rightarrow> object_id res run \<times> fs" where
  "write_bytes X H nonce fs gyt kind payload =
     (let raw = build_raw kind payload; i = hash_bytes H raw; path = path_for gyt i in
      if path_exists fs path then (Return (Inr i), fs)
      else (case encode X raw of
              Return stored \<Rightarrow>
                (case atomic_write nonce fs path stored of
                   (Inl e, fs1) \<Rightarrow> (Return (Inl e), fs1)
                 | (Inr _, fs1) \<Rightarrow> (Return (Inr i), fs1))
            | _ \<Rightarrow> (Panic, fs)))"

definition write_object ::
  "xz_lib \<Rightarrow> (bytes \<Rightarrow> bytes) \<Rightarrow> bytes \<Rightarrow> fs \<Rightarrow> fpath \<Rightarrow> object \<Rightarrow> object_id res run \<times> fs" where
  "write_object X H nonce fs gyt obj = write_bytes X H nonce fs gyt (obj_kind obj) (obj_payload obj)"

definition read_loose :: "xz_lib \<Rightarrow> (bytes \<Rightarrow> bytes) \<Rightarrow> fs \<Rightarrow> fpath \<Rightarrow> object_id \<Rightarrow> object res" where
  "read_loose X H fs path i =
     (case read_all fs path of
        Inl e \<Rightarrow> Inl e
      | Inr stored \<Rightarrow>
        (case decode X stored of
           Inl e \<Rightarrow> Inl e
         | Inr raw \<Rightarrow>
           if hash_bytes H raw \<noteq> i then Inl (EObject ''object content hash mismatch'')
           else (case parse_raw raw of
                   Inl e \<Rightarrow> Inl e
                 | Inr (kind, payload) \<Rightarrow> Inr \<lparr>obj_id = i, obj_kind = kind, obj_payload = payload\<rparr>)))"

definition read_object ::
  "pack_env \<Rightarrow> xz_lib \<Rightarrow> (bytes \<Rightarrow> bytes) \<Rightarrow> fs \<Rightarrow> idx_cache \<Rightarrow> fpath \<Rightarrow> object_id \<Rightarrow> object res run \<times> idx_cache" where
  "read_object E X H fs g gyt i =
     (let path = path_for gyt i in
      if path_exists fs path then (Return (read_loose X H fs path i), g)
      else (case read_from_packs E X H fs g gyt i of
              (Return (Inl e), g1) \<Rightarrow> (Return (Inl e), g1)
            | (Return (Inr (Some obj)), g1) \<Rightarrow> (Return (Inr obj), g1)
            | (Return (Inr None), g1) \<Rightarrow> (Return (Inl (ENotFound ''object'')), g1)
            | (_, g1) \<Rightarrow> (Panic, g1)))"

definition object_exists :: "pack_env \<Rightarrow> fs \<Rightarrow> idx_cache \<Rightarrow> fpath \<Rightarrow> object_id \<Rightarrow> bool run \<times> idx_cache" where
  "object_exists E fs g gyt i =
     (if path_exists fs (path_for gyt i) then (Return True, g) else id_in_packs E fs g gyt i)"

section \<open>Integrity\<close>

definition authentic :: "(bytes \<Rightarrow> bytes) \<Rightarrow> object_id \<Rightarrow> object \<Rightarrow> bool" where
  \<comment> \<open>the object is the parsed form of bytes that hash to the id\<close>
  "authentic H i obj \<longleftrightarrow> obj_id obj = i
     \<and> (\<exists>raw. hash_bytes H raw = i \<and> parse_raw raw = Inr (obj_kind obj, obj_payload obj))"

lemma read_entry_authentic: "read_entry X H data off i = Inr obj \<Longrightarrow> authentic H i obj"
  unfolding read_entry_def Let_def res_simps case_prod_beta not_not authentic_def
  by (elim exE conjE, hypsubst, simp only: sum.inject, hypsubst) (auto simp only: object.simps prod.collapse)

lemma read_entry_at_authentic: "read_entry_at X H fs p off i = Inr obj \<Longrightarrow> authentic H i obj"
  by (auto simp: read_entry_at_def dest: read_entry_authentic split: sum.splits)

lemma pack_scan_authentic: "pack_scan E X H fs g paths i = (Return (Inr (Some obj)), g') \<Longrightarrow> authentic H i obj"
proof (induction paths arbitrary: g)
  case (Cons p paths)
  obtain r g1 where "lookup_in_idx E fs g p i = (Return r, g1)" using lookup_in_idx_total by blast
  with Cons show ?case
    by (auto simp del: ascii_Cons dest: read_entry_at_authentic split: if_splits sum.splits option.splits)
qed simp

lemma read_loose_authentic: "read_loose X H fs p i = Inr obj \<Longrightarrow> authentic H i obj"
  by (auto simp: read_loose_def authentic_def split: sum.splits if_splits)

lemma read_object_authentic: "read_object E X H fs g gyt i = (Return (Inr obj), g') \<Longrightarrow> authentic H i obj"
  by (auto simp: read_object_def read_from_packs_def Let_def
      dest: read_loose_authentic pack_scan_authentic
      split: if_splits prod.splits run.splits sum.splits option.splits)


section \<open>Writing and reading back\<close>

lemma to_hex_no_dot: "46 \<notin> set (to_hex i)"
  using to_hex_range [of 46 i] by auto

lemma path_for_inj: "path_for gyt i = path_for gyt j \<longleftrightarrow> i = j"
proof
  assume "path_for gyt i = path_for gyt j"
  then have "take 2 (to_hex i) = take 2 (to_hex j)" "drop 2 (to_hex i) = drop 2 (to_hex j)"
    by (simp_all add: path_for_def Let_def)
  then have "to_hex i = to_hex j" by (metis append_take_drop_id)
  then show "i = j" by (rule to_hex_inject)
qed simp

lemma path_for_shape: "path_for gyt i \<noteq> []" "length (path_for gyt i) = length gyt + 3" "last (path_for gyt i) = drop 2 (to_hex i)"
  by (simp_all add: path_for_def Let_def)

lemma path_for_not_tmp: "path_for gyt j \<noteq> tmp_path p n"
proof
  assume "path_for gyt j = tmp_path p n"
  then have "drop 2 (to_hex j) = tmp_name (last p) n" using path_for_shape(3) [of gyt j] by (simp add: tmp_path_def)
  moreover have "46 \<in> set (tmp_name (last p) n)" by (simp add: tmp_name_def)
  ultimately have "46 \<in> set (to_hex j)" by (metis in_set_dropD)
  with to_hex_no_dot show False by blast
qed

lemma write_bytes_keeps:
  assumes "write_bytes X H nonce fs gyt kind payload = (Return (Inr i), fs')" "j \<noteq> i"
  shows "fs_get fs' (path_for gyt j) = fs_get fs (path_for gyt j)"
proof (cases "path_exists fs (path_for gyt (hash_bytes H (build_raw kind payload)))")
  case True
  with assms(1) show ?thesis by (simp add: write_bytes_def Let_def)
next
  case False
  with assms(1) obtain stored where i: "i = hash_bytes H (build_raw kind payload)"
    and w: "atomic_write nonce fs (path_for gyt i) stored = (Inr (), fs')"
    by (auto simp: write_bytes_def Let_def split: run.splits prod.splits sum.splits)
  have "path_for gyt j \<noteq> path_for gyt i" using assms(2) by (simp add: path_for_inj)
  moreover have "\<not> strict_prefix (path_for gyt j) (path_for gyt i)"
    using path_for_shape(2) prefix_length_less less_irrefl by metis
  ultimately show ?thesis
    using atomic_write_ok(2) [OF w [unfolded atomic_write_def] path_for_shape(1) _ path_for_not_tmp] by blast
qed

lemma read_loose_file:
  assumes "fs_get fs p = Some (File stored m)" "decode X stored = Inr (build_raw kind payload)" "length payload < USIZE_LIMIT"
  shows "read_loose X H fs p (hash_bytes H (build_raw kind payload)) = Inr (Object_new H kind payload)"
  using assms read_all_file [OF assms(1)] parse_build_raw [OF assms(3), of kind]
  by (simp add: read_loose_def Object_new_def)


lemma sample_blob_write:
  "\<exists>fs'. write_bytes xz_stored zero_hash [] [] [ascii ''g''] Blob (ascii ''hi'') = (Return (Inr (obj_id sample_blob)), fs')"
proof -
  let ?p = "path_for [ascii ''g''] (obj_id sample_blob)"
  have i: "hash_bytes zero_hash (build_raw Blob (ascii ''hi'')) = obj_id sample_blob"
    by (simp add: sample_blob_def Object_new_def)
  obtain stored where enc: "encode xz_stored (build_raw Blob (ascii ''hi'')) = Return stored"
    by (simp add: encode_def xz_encode_raw_def xz_stored_def Let_def)
  obtain fs1 where c: "create_dir_all [] (butlast ?p) = (Inr (), fs1)"
    by (simp add: path_for_def Let_def create_dir_all_def upt_rec butlast_append)
  have "length ?p = 4" "length (tmp_path ?p []) = 4" by (simp_all add: path_for_shape tmp_path_def)
  moreover have "fs_get fs1 q = fs_get [] q" if "length q = 4" for q
    using ensure_dirs_outside [OF c [unfolded create_dir_all_def], of q] that by (force simp: path_for_def Let_def butlast_append)
  ultimately obtain fs' where "atomic_write [] [] ?p stored = (Inr (), fs')"
    using atomic_write_succeeds [OF c, of "[]" stored] by auto
  then show ?thesis using enc i by (simp add: write_bytes_def Let_def path_exists_def deref.simps del: ascii_Cons)
qed



end
