(* ===== verification/Ignore.thy ===== *)
theory Ignore
  imports Fs
begin

text \<open>
  \<open>src/ignore.rs\<close>: parsing of \<open>.gytignore\<close> files and matching of paths against their rules.

  The matcher's indices into the token list and the path become the remaining tokens and the remaining
  path; its inner loops over positions are \<open>star_loop\<close> and \<open>after_slash\<close>. Popping the last token from
  \<open>out\<close> is \<open>butlast\<close>; the \<open>debug_assert\<close>s beside it are absent from release builds.
\<close>

datatype tok =
    Lit byte
  | Any
  | Star
  | DStarSlash
  | SlashDStar
  | SlashDStarSlash
  | Class bool "(byte \<times> byte) list"
  | Sep

record rule =
  r_negate :: bool
  r_dir_only :: bool
  r_anchored :: bool
  r_anchor :: bytes
  r_tokens :: "tok list"

section \<open>Compiling a pattern\<close>

function class_loop :: "bytes \<Rightarrow> nat \<Rightarrow> (byte \<times> byte) list \<Rightarrow> (byte \<times> byte) list \<times> bool \<times> nat" where
  "class_loop bs i ranges =
     (if i < length bs then
        if bs ! i = 93 then (ranges, True, i + 1)
        else
          (let lo = bs ! i; i1 = i + 1 in
           if i1 + 1 < length bs \<and> bs ! i1 = 45 \<and> bs ! (i1 + 1) \<noteq> 93
           then (let hi = bs ! (i1 + 1) in
                 class_loop bs (i1 + 2) (ranges @ [if lo \<le> hi then (lo, hi) else (hi, lo)]))
           else class_loop bs i1 (ranges @ [(lo, lo)]))
      else (ranges, False, i))"
  by pat_completeness auto
termination by (relation "measure (\<lambda>(bs, i, ranges). length bs - i)") auto

declare class_loop.simps [simp del]

definition compile_class :: "bytes \<Rightarrow> (tok \<times> nat) res" where
  "compile_class bs =
     (let negate = (1 < length bs \<and> (bs ! 1 = 33 \<or> bs ! 1 = 94)) in
      case class_loop bs (if negate then 2 else 1) [] of (ranges, closed, i) \<Rightarrow>
        if \<not> closed then Inl (EParse ''unterminated character class'')
        else Inr (Class negate ranges, i))"

lemma class_loop_advances: "class_loop bs i ranges = (rs, closed, j) \<Longrightarrow> i \<le> j"
proof (induction bs i ranges rule: class_loop.induct)
  case (1 bs i ranges)
  show ?case
    using "1.prems" "1.IH"(1) [OF _ _ refl refl _ refl] "1.IH"(2) [OF _ _ refl refl]
    by (subst (asm) class_loop.simps) (fastforce simp: Let_def split: if_splits)
qed

lemma compile_class_advances: "compile_class bs = Inr (c, n) \<Longrightarrow> 0 < n"
  by (auto simp: compile_class_def Let_def dest: class_loop_advances split: prod.splits if_splits)

definition compile_step :: "bytes \<Rightarrow> nat \<Rightarrow> tok list \<Rightarrow> (nat \<times> tok list) res" where
  \<comment> \<open>one iteration: the new index and the new \<open>out\<close>\<close>
  "compile_step bs i out =
     (let b = bs ! i in
      if b = SLASH then Inr (i + 1, out @ [Sep])
      else if b = 63 then Inr (i + 1, out @ [Any])
      else if b = 42 then
        if i + 1 < length bs \<and> bs ! (i + 1) = 42 then
          (let prev_ok = (i = 0 \<or> bs ! (i - 1) = SLASH);
               after = i + 2;
               next_ok = (after = length bs \<or> bs ! after = SLASH) in
           if prev_ok \<and> next_ok then
             (let leading = (i = 0); trailing = (after = length bs) in
              if leading \<and> trailing then Inr (length bs, out @ [DStarSlash])
              else if leading then Inr (after + 1, out @ [DStarSlash])
              else if trailing then Inr (length bs, butlast out @ [SlashDStar])
              else Inr (after + 1, butlast out @ [SlashDStarSlash]))
           else Inr (i + 2, out @ [Star]))
        else Inr (i + 1, out @ [Star])
      else if b = 91 then
        (case compile_class (drop i bs) of
           Inl e \<Rightarrow> Inl e
         | Inr (class, consumed) \<Rightarrow> Inr (i + consumed, out @ [class]))
      else if b = BSLASH then
        if i + 1 \<ge> length bs then Inl (EParse ''trailing backslash in pattern'')
        else Inr (i + 2, out @ [Lit (bs ! (i + 1))])
      else Inr (i + 1, out @ [Lit b]))"

lemma compile_step_advances: "compile_step bs i out = Inr (j, out') \<Longrightarrow> i < length bs \<Longrightarrow> i < j"
  by (auto simp: compile_step_def Let_def dest!: compile_class_advances split: if_splits sum.splits)

function compile_loop :: "bytes \<Rightarrow> nat \<Rightarrow> tok list \<Rightarrow> tok list res" where
  "compile_loop bs i out =
     (if i < length bs then
        (case compile_step bs i out of Inl e \<Rightarrow> Inl e | Inr (j, out') \<Rightarrow> compile_loop bs j out')
      else Inr out)"
  by pat_completeness auto
termination
  by (relation "measure (\<lambda>(bs, i, out). length bs - i)") (auto dest: compile_step_advances)

declare compile_loop.simps [simp del]

definition compile_tokens :: "bytes \<Rightarrow> tok list res" where
  "compile_tokens pat = compile_loop pat 0 []"

section \<open>Parsing a line and a file\<close>

definition trim_end_blanks :: "bytes \<Rightarrow> bytes" where
  "trim_end_blanks s = rev (dropWhile (\<lambda>c. c = SP \<or> c = TAB) (rev s))"

definition ignore_parse_line :: "bytes \<Rightarrow> bytes \<Rightarrow> rule option res" where
  "ignore_parse_line raw anchor =
     (if prefix [35] raw then Inr None
      else
        (let trimmed = trim_end_blanks raw in
         if trimmed = [] then Inr None
         else
           (let (negate, s) = (case strip_prefix [33] trimmed of Some rest \<Rightarrow> (True, rest) | None \<Rightarrow> (False, trimmed));
                (dir_only, s) = (if s \<noteq> [] \<and> last s = SLASH then (True, butlast s) else (False, s));
                (anchored, s) = (case strip_prefix [SLASH] s of Some rest \<Rightarrow> (True, rest) | None \<Rightarrow> (False, s));
                anchored = (anchored \<or> SLASH \<in> set s) in
            if s = [] then Inl (EParse ''empty pattern in .gytignore'')
            else (case compile_tokens s of
                    Inl e \<Rightarrow> Inl e
                  | Inr tokens \<Rightarrow>
                    Inr (Some \<lparr>r_negate = negate, r_dir_only = dir_only, r_anchored = anchored,
                               r_anchor = anchor, r_tokens = tokens\<rparr>)))))"

definition normalize_anchor :: "bytes \<Rightarrow> bytes" where
  "normalize_anchor d = rev (dropWhile (\<lambda>c. c = SLASH) (rev (dropWhile (\<lambda>c. c = SLASH) d)))"

fun add_lines :: "bytes \<Rightarrow> bytes list \<Rightarrow> rule list \<Rightarrow> unit res \<times> rule list" where
  "add_lines anchor [] rules = (Inr (), rules)"
| "add_lines anchor (raw # raws) rules =
     (case ignore_parse_line raw anchor of
        Inl e \<Rightarrow> (Inl e, rules)
      | Inr None \<Rightarrow> add_lines anchor raws rules
      | Inr (Some r) \<Rightarrow> add_lines anchor raws (rules @ [r]))"

definition add_file :: "rule list \<Rightarrow> bytes \<Rightarrow> bytes \<Rightarrow> unit res \<times> rule list" where
  "add_file rules containing_dir contents = add_lines (normalize_anchor containing_dir) (str_lines contents) rules"

definition load_from_root :: "fs \<Rightarrow> fpath \<Rightarrow> rule list res" where
  "load_from_root fs workdir =
     (case deref ELOOP_MAX fs (workdir @ [ascii ''.gytignore'']) of
        None \<Rightarrow> Inr []
      | Some (File data _) \<Rightarrow>
          if \<not> valid_utf8 data then Inl (EIo ''stream did not contain valid UTF-8'')
          else (case add_file [] [] data of (Inl e, _) \<Rightarrow> Inl e | (Inr _, rules) \<Rightarrow> Inr rules)
      | Some _ \<Rightarrow> Inl (EIo ''is a directory''))"

section \<open>Matching\<close>

fun star_loop :: "(bytes \<Rightarrow> bool) \<Rightarrow> bytes \<Rightarrow> bool" where
  "star_loop f [] = f []"
| "star_loop f (c # cs) = (f (c # cs) \<or> (c \<noteq> SLASH \<and> star_loop f cs))"

fun after_slash :: "(bytes \<Rightarrow> bool) \<Rightarrow> bytes \<Rightarrow> bool" where
  "after_slash f [] = False"
| "after_slash f (c # cs) = ((c = SLASH \<and> f cs) \<or> after_slash f cs)"

definition in_class :: "bool \<Rightarrow> (byte \<times> byte) list \<Rightarrow> byte \<Rightarrow> bool" where
  "in_class negate ranges c \<longleftrightarrow> (list_ex (\<lambda>(lo, hi). lo \<le> c \<and> c \<le> hi) ranges) \<noteq> negate"

primrec match_at :: "tok list \<Rightarrow> bytes \<Rightarrow> bool" where
  "match_at [] path = (path = [])"
| "match_at (t # ts) path =
     (case t of
        Lit b \<Rightarrow> (case path of c # cs \<Rightarrow> c = b \<and> match_at ts cs | [] \<Rightarrow> False)
      | Any \<Rightarrow> (case path of c # cs \<Rightarrow> c \<noteq> SLASH \<and> match_at ts cs | [] \<Rightarrow> False)
      | Sep \<Rightarrow> (case path of c # cs \<Rightarrow> c = SLASH \<and> match_at ts cs | [] \<Rightarrow> False)
      | Class negate ranges \<Rightarrow>
          (case path of c # cs \<Rightarrow> c \<noteq> SLASH \<and> in_class negate ranges c \<and> match_at ts cs | [] \<Rightarrow> False)
      | Star \<Rightarrow> star_loop (match_at ts) path
      | DStarSlash \<Rightarrow> match_at ts path \<or> after_slash (match_at ts) path
      | SlashDStar \<Rightarrow> (case path of [] \<Rightarrow> match_at ts [] | c # cs \<Rightarrow> c = SLASH \<and> cs \<noteq> [] \<and> match_at ts [])
      | SlashDStarSlash \<Rightarrow> after_slash (match_at ts) path)"

definition match_tokens :: "tok list \<Rightarrow> bytes \<Rightarrow> bool" where
  "match_tokens tokens path = match_at tokens path"

definition rel_to_anchor :: "bytes \<Rightarrow> bytes \<Rightarrow> bytes option" where
  "rel_to_anchor anchor path =
     (if anchor = [] then Some path
      else (case strip_prefix anchor path of
              None \<Rightarrow> None
            | Some rest \<Rightarrow> if rest = [] then None else strip_prefix [SLASH] rest))"

definition rule_matches :: "rule \<Rightarrow> bytes \<Rightarrow> bool \<Rightarrow> bool" where
  "rule_matches r path is_dir =
     (if r_dir_only r \<and> \<not> is_dir then False
      else (case rel_to_anchor (r_anchor r) path of
              None \<Rightarrow> False
            | Some rel \<Rightarrow>
              if r_anchored r then match_tokens (r_tokens r) rel
              else match_tokens (r_tokens r) rel \<or> after_slash (match_tokens (r_tokens r)) rel))"

fun matched_loop :: "rule list \<Rightarrow> bytes \<Rightarrow> bool \<Rightarrow> bool \<Rightarrow> bool" where
  "matched_loop [] path is_dir decision = decision"
| "matched_loop (r # rs) path is_dir decision =
     matched_loop rs path is_dir (if rule_matches r path is_dir then \<not> r_negate r else decision)"

definition matched :: "rule list \<Rightarrow> bytes \<Rightarrow> bool \<Rightarrow> bool" where
  "matched rules path is_dir = matched_loop rules path is_dir False"

section \<open>Patterns as languages\<close>

text \<open>The strings a token stands for. The matcher backtracks over positions; a pattern denotes the
  concatenation of its tokens.\<close>

fun tok_lang :: "tok \<Rightarrow> bytes set" where
  "tok_lang (Lit b) = {[b]}"
| "tok_lang Any = {[c] |c. c \<noteq> SLASH}"
| "tok_lang Star = {w. SLASH \<notin> set w}"
| "tok_lang DStarSlash = insert [] {w @ [SLASH] |w. True}"
| "tok_lang SlashDStar = insert [] {SLASH # w |w. w \<noteq> []}"
| "tok_lang SlashDStarSlash = {w @ [SLASH] |w. True}"
| "tok_lang (Class negate ranges) = {[c] |c. c \<noteq> SLASH \<and> in_class negate ranges c}"
| "tok_lang Sep = {[SLASH]}"

fun lang :: "tok list \<Rightarrow> bytes set" where
  "lang [] = {[]}"
| "lang (t # ts) = {u @ v |u v. u \<in> tok_lang t \<and> v \<in> lang ts}"

lemma star_loop_iff: "star_loop f p \<longleftrightarrow> (\<exists>u v. p = u @ v \<and> SLASH \<notin> set u \<and> f v)"
proof (induction p)
  case (Cons c p)
  show ?case
  proof
    assume "star_loop f (c # p)"
    then consider "f (c # p)" | "c \<noteq> SLASH" "star_loop f p" by auto
    then show "\<exists>u v. c # p = u @ v \<and> SLASH \<notin> set u \<and> f v"
    proof cases
      case 1
      then show ?thesis by (intro exI [of _ "[]"] exI [of _ "c # p"]) simp
    next
      case 2
      with Cons.IH obtain u v where "p = u @ v" "SLASH \<notin> set u" "f v" by blast
      with 2(1) show ?thesis by (intro exI [of _ "c # u"] exI [of _ v]) auto
    qed
  next
    assume "\<exists>u v. c # p = u @ v \<and> SLASH \<notin> set u \<and> f v"
    then obtain u v where uv: "c # p = u @ v" "SLASH \<notin> set u" "f v" by blast
    with Cons.IH show "star_loop f (c # p)" by (cases u) auto
  qed
qed simp

lemma after_slash_iff: "after_slash f p \<longleftrightarrow> (\<exists>u v. p = u @ SLASH # v \<and> f v)"
proof (induction p)
  case (Cons c p)
  show ?case
  proof
    assume "after_slash f (c # p)"
    then consider "c = SLASH" "f p" | "after_slash f p" by auto
    then show "\<exists>u v. c # p = u @ SLASH # v \<and> f v"
    proof cases
      case 1
      then show ?thesis by (intro exI [of _ "[]"] exI [of _ p]) simp
    next
      case 2
      with Cons.IH obtain u v where "p = u @ SLASH # v" "f v" by blast
      then show ?thesis by (intro exI [of _ "c # u"] exI [of _ v]) simp
    qed
  next
    assume "\<exists>u v. c # p = u @ SLASH # v \<and> f v"
    then obtain u v where uv: "c # p = u @ SLASH # v" "f v" by blast
    with Cons.IH show "after_slash f (c # p)" by (cases u) auto
  qed
qed simp

lemma cat_single: "(\<exists>u v. p = u @ v \<and> (\<exists>c. u = [c] \<and> Q c) \<and> v \<in> L) \<longleftrightarrow> (\<exists>c cs. p = c # cs \<and> Q c \<and> cs \<in> L)"
  by (metis append_Cons append_Nil)

lemma cat_slash: "(\<exists>u v. p = u @ v \<and> (\<exists>w. u = w @ [SLASH]) \<and> v \<in> L) \<longleftrightarrow> (\<exists>u v. p = u @ SLASH # v \<and> v \<in> L)"
  by (metis append.assoc append_Cons append_Nil)

lemma cat_opt_slash:
  "(\<exists>u v. p = u @ v \<and> (u = [] \<or> (\<exists>w. u = w @ [SLASH])) \<and> v \<in> L) \<longleftrightarrow> p \<in> L \<or> (\<exists>u v. p = u @ SLASH # v \<and> v \<in> L)"
  using cat_slash [of p L] by (metis append_Nil)

lemma match_at_lang: "SlashDStar \<notin> set (butlast ts) \<Longrightarrow> match_at ts p \<longleftrightarrow> p \<in> lang ts"
proof (induction ts arbitrary: p)
  case (Cons t ts)
  show ?case
  proof (cases "t = SlashDStar")
    case True
    with Cons.prems have "ts = []" by (cases ts) auto
    with True show ?thesis by (auto split: list.splits)
  next
    case False
    with Cons.prems have "SlashDStar \<notin> set (butlast ts)" by (cases ts) auto
    then have IH: "match_at ts q \<longleftrightarrow> q \<in> lang ts" for q by (rule Cons.IH)
    show ?thesis
      using False by (cases t) (auto simp: IH star_loop_iff after_slash_iff cat_single cat_slash cat_opt_slash split: list.splits)
  qed
qed simp

lemma compile_class_shape: "compile_class bs = Inr (c, n) \<Longrightarrow> c \<noteq> SlashDStar"
  by (auto simp: compile_class_def Let_def split: prod.splits if_splits)

lemma compile_step_shape:
  assumes "compile_step bs i out = Inr (j, out')" "SlashDStar \<notin> set out"
  shows "SlashDStar \<notin> set out' \<or> (j = length bs \<and> SlashDStar \<notin> set (butlast out'))"
proof -
  have "SlashDStar \<notin> set (butlast out)" using assms(2) in_set_butlastD by fast
  with assms show ?thesis
    by (auto simp: compile_step_def Let_def dest: compile_class_shape split: if_splits sum.splits)
qed

lemma compile_loop_shape:
  "compile_loop bs i out = Inr ts \<Longrightarrow> SlashDStar \<notin> set out \<Longrightarrow> SlashDStar \<notin> set (butlast ts)"
proof (induction bs i out rule: compile_loop.induct)
  case (1 bs i out)
  show ?case
  proof (cases "i < length bs")
    case True
    with "1.prems"(1) obtain j out' where st: "compile_step bs i out = Inr (j, out')" "compile_loop bs j out' = Inr ts"
      by (subst (asm) compile_loop.simps) (auto split: sum.splits)
    from compile_step_shape [OF st(1) "1.prems"(2)] show ?thesis
    proof
      assume "SlashDStar \<notin> set out'"
      with "1.IH" [OF True st(1) refl st(2)] show ?thesis .
    next
      assume "j = length bs \<and> SlashDStar \<notin> set (butlast out')"
      with st(2) show ?thesis by (simp add: compile_loop.simps)
    qed
  next
    case False
    with "1.prems" show ?thesis by (auto simp: compile_loop.simps dest: in_set_butlastD)
  qed
qed



section \<open>Rule lists\<close>

lemma matched_loop_last:
  "matched_loop rules path d b =
     (case rev (filter (\<lambda>r. rule_matches r path d) rules) of [] \<Rightarrow> b | r # _ \<Rightarrow> \<not> r_negate r)"
proof (induction rules arbitrary: b)
  case (Cons r rules)
  then show ?case by (cases "rev (filter (\<lambda>r. rule_matches r path d) rules)") simp_all
qed simp

text \<open>The last matching rule decides. A path is ignored exactly if some rule matches it and the last
  one that does is not negated; with no matching rule it is not ignored.\<close>
theorem matched_last_rule:
  "matched rules path is_dir =
     (case rev (filter (\<lambda>r. rule_matches r path is_dir) rules) of [] \<Rightarrow> False | r # _ \<Rightarrow> \<not> r_negate r)"
  by (simp add: matched_def matched_loop_last)

lemma matched_loop_append:
  "matched_loop (rs @ qs) path d b = matched_loop qs path d (matched_loop rs path d b)"
  by (induction rs arbitrary: b) simp_all

lemma matched_loop_none: "\<forall>q \<in> set qs. \<not> rule_matches q path d \<Longrightarrow> matched_loop qs path d b = b"
  by (induction qs) simp_all

lemma ignore_parse_line_anchor: "ignore_parse_line raw a = Inr (Some r) \<Longrightarrow> r_anchor r = a"
  by (auto simp: ignore_parse_line_def Let_def split: if_splits sum.splits prod.splits)

lemma add_lines_rules:
  "add_lines a raws rules = (u, rules') \<Longrightarrow> \<exists>qs. rules' = rules @ qs \<and> (\<forall>q \<in> set qs. r_anchor q = a)"
proof (induction raws arbitrary: rules)
  case (Cons raw raws)
  show ?case
  proof (cases "ignore_parse_line raw a")
    case (Inl e)
    with Cons.prems show ?thesis by simp
  next
    case (Inr ro)
    show ?thesis
    proof (cases ro)
      case None
      with Inr Cons show ?thesis by simp
    next
      case (Some r)
      with Inr have "r_anchor r = a" by (simp add: ignore_parse_line_anchor)
      moreover from Cons.IH [of "rules @ [r]"] Cons.prems Inr Some obtain qs where
        "rules' = (rules @ [r]) @ qs" "\<forall>q \<in> set qs. r_anchor q = a" by auto
      ultimately show ?thesis by (intro exI [of _ "r # qs"]) simp
    qed
  qed
qed simp

lemma rule_matches_below: "rule_matches r path d \<Longrightarrow> r_anchor r \<noteq> [] \<Longrightarrow> \<exists>rel. path = r_anchor r @ SLASH # rel"
  by (auto simp: rule_matches_def rel_to_anchor_def dest!: strip_prefix_SomeD split: if_splits option.splits)

text \<open>C28: a nested ignore file acts only below its directory. Adding a file that lives in a directory other
  than the root, whether or not all its lines parse, changes the decision for no path outside that
  directory, including the directory itself and siblings that share its name as a prefix.\<close>
theorem add_file_scoped:
  assumes "add_file rules dir contents = (u, rules')" "normalize_anchor dir \<noteq> []"
    "\<nexists>rel. path = normalize_anchor dir @ SLASH # rel"
  shows "matched rules' path is_dir = matched rules path is_dir"
proof -
  obtain qs where qs: "rules' = rules @ qs" "\<forall>q \<in> set qs. r_anchor q = normalize_anchor dir"
    using add_lines_rules assms(1) unfolding add_file_def by blast
  then have "\<forall>q \<in> set qs. \<not> rule_matches q path is_dir"
    using rule_matches_below assms(2,3) by metis
  then show ?thesis by (simp add: qs(1) matched_def matched_loop_append matched_loop_none)
qed

theorem add_file_scoped_witness:
  "matched (snd (add_file [] (ascii ''src'') (ascii ''*''))) (ascii ''srcs/a'') False = matched [] (ascii ''srcs/a'') False"
proof -
  obtain u rules' where a: "add_file [] (ascii ''src'') (ascii ''*'') = (u, rules')" by (rule prod.exhaust)
  show ?thesis using add_file_scoped [OF a, of "ascii ''srcs/a''" False] a
    by (simp add: normalize_anchor_def)
qed

text \<open>A double star in the middle of a pattern reaches across the component before it. \<open>a/**/b\<close>
  matches \<open>ax/b\<close>, because the matcher looks for any later slash and does not require the next byte to be
  one; and \<open>**\<close> alone, which is compiled like \<open>**/\<close>, does not match a plain file name.\<close>
theorem double_star_defects:
  "compile_tokens (ascii ''a/**/b'') = Inr [Lit 97, SlashDStarSlash, Lit 98]
     \<and> match_tokens [Lit 97, SlashDStarSlash, Lit 98] (ascii ''ax/b'')
     \<and> compile_tokens (ascii ''**'') = Inr [DStarSlash] \<and> \<not> match_tokens [DStarSlash] (ascii ''f'')"
  by (intro conjI; code_simp)

end
