(* ===== verification/Protocol.thy ===== *)
theory Protocol
  imports Objects Compress
begin

text \<open>
  \<open>src/net/protocol.rs\<close>: the messages of the wire protocol. The parsers walk over the lines of a body, or
  over the rest of a pack, with the list built so far; the index that the source keeps for error messages
  is left out. The set of names already seen is a list.
\<close>

record ref_entry =
  re_name :: bytes
  re_id :: object_id

record wire_entry =
  we_id :: object_id
  we_bytes :: bytes

record ref_update =
  ru_old :: "object_id option"
  ru_new :: object_id
  ru_name :: bytes

definition ZERO_HEX :: bytes where "ZERO_HEX = replicate 64 48"

definition lines_of :: "bytes \<Rightarrow> bytes list" where
  \<comment> \<open>the lines of \<open>split_inclusive\<close> without their newline\<close>
  "lines_of s = map strip_nl (split_incl s)"

section \<open>Ref advertisement\<close>

definition MAX_INFO_REFS_ENTRIES :: nat where "MAX_INFO_REFS_ENTRIES = 1000000"
definition MAX_INFO_REF_NAME_LEN :: nat where "MAX_INFO_REF_NAME_LEN = 1024"

definition encode_info_refs :: "ref_entry list \<Rightarrow> bytes" where
  "encode_info_refs rs = concat (map (\<lambda>r. to_hex (re_id r) @ [TAB] @ re_name r @ [NL]) rs)"

fun info_refs_loop :: "bytes list \<Rightarrow> bytes list \<Rightarrow> ref_entry list \<Rightarrow> ref_entry list res" where
  "info_refs_loop [] seen out = Inr out"
| "info_refs_loop (line # ls) seen out =
     (if length out \<ge> MAX_INFO_REFS_ENTRIES then Inl (EParse ''info/refs: entry count exceeds limit'')
      else if line = [] then info_refs_loop ls seen out
      else (case split_once [TAB] line of
              None \<Rightarrow> Inl (EParse ''info/refs: missing tab separator'')
            | Some (hex, name) \<Rightarrow>
              if name = [] then Inl (EParse ''info/refs: empty refname'')
              else if length name > MAX_INFO_REF_NAME_LEN then Inl (EParse ''info/refs: refname too long'')
              else if name \<in> set seen then Inl (EParse ''info/refs: duplicate refname'')
              else (case from_hex hex of
                      Inl e \<Rightarrow> Inl e
                    | Inr i \<Rightarrow> info_refs_loop ls (name # seen) (out @ [\<lparr>re_name = name, re_id = i\<rparr>]))))"

definition parse_info_refs :: "bytes \<Rightarrow> ref_entry list res" where
  "parse_info_refs body =
     (if \<not> valid_utf8 body then Inl (EParse ''info/refs: not valid utf-8'')
      else info_refs_loop (lines_of body) [] [])"

section \<open>Wants\<close>

definition encode_wants :: "object_id list \<Rightarrow> bytes" where
  "encode_wants ids = concat (map (\<lambda>i. to_hex i @ [NL]) ids)"

fun wants_loop :: "bytes list \<Rightarrow> object_id list \<Rightarrow> object_id list res" where
  "wants_loop [] out = Inr out"
| "wants_loop (line # ls) out =
     (if line = [] then wants_loop ls out
      else if length line \<noteq> HEX_LEN then Inl (EParse ''wants: expected 64-char hex'')
      else (case from_hex line of Inl e \<Rightarrow> Inl e | Inr i \<Rightarrow> wants_loop ls (out @ [i])))"

definition parse_wants :: "bytes \<Rightarrow> object_id list res" where
  "parse_wants body =
     (if \<not> valid_utf8 body then Inl (EParse ''wants: not valid utf-8'') else wants_loop (lines_of body) [])"

section \<open>Ref updates\<close>

definition encode_ref_update :: "ref_update \<Rightarrow> bytes" where
  "encode_ref_update u =
     (case ru_old u of Some i \<Rightarrow> to_hex i | None \<Rightarrow> ZERO_HEX) @ [TAB] @ to_hex (ru_new u) @ [TAB] @ ru_name u @ [NL]"

definition encode_ref_updates :: "ref_update list \<Rightarrow> bytes" where
  "encode_ref_updates us = concat (map encode_ref_update us)"

definition parse_old :: "bytes \<Rightarrow> object_id option res" where
  "parse_old old_hex =
     (if old_hex = ZERO_HEX then Inr None
      else (case from_hex old_hex of Inl e \<Rightarrow> Inl e | Inr i \<Rightarrow> Inr (Some i)))"

fun ref_updates_loop :: "bytes list \<Rightarrow> ref_update list \<Rightarrow> ref_update list res" where
  "ref_updates_loop [] out = Inr out"
| "ref_updates_loop (line # ls) out =
     (if line = [] then ref_updates_loop ls out
      else (case splitn 3 TAB line of
              [old_hex, new_hex, name] \<Rightarrow>
                if name = [] then Inl (EParse ''ref-updates: empty refname'')
                else (case parse_old old_hex of
                        Inl e \<Rightarrow> Inl e
                      | Inr old \<Rightarrow>
                        (case from_hex new_hex of
                           Inl e \<Rightarrow> Inl e
                         | Inr new \<Rightarrow>
                           ref_updates_loop ls (out @ [\<lparr>ru_old = old, ru_new = new, ru_name = name\<rparr>])))
            | [_, _] \<Rightarrow> Inl (EParse ''ref-updates: missing refname'')
            | [_] \<Rightarrow> Inl (EParse ''ref-updates: missing new hex'')
            | _ \<Rightarrow> Inl (EParse ''ref-updates: missing old hex'')))"

definition parse_ref_updates :: "bytes \<Rightarrow> ref_update list res" where
  "parse_ref_updates body =
     (if \<not> valid_utf8 body then Inl (EParse ''ref-updates: not valid utf-8'')
      else ref_updates_loop (lines_of body) [])"

section \<open>Packs on the wire\<close>

definition MAX_PACK_ENTRIES :: nat where "MAX_PACK_ENTRIES = 1000000"
definition PACKFILE_VERSION_RAW :: byte where "PACKFILE_VERSION_RAW = 1"
definition PACKFILE_VERSION_XZ :: byte where "PACKFILE_VERSION_XZ = 2"

definition pack_entry_from_bytes :: "bytes \<Rightarrow> wire_entry" where
  "pack_entry_from_bytes bs = \<lparr>we_id = ObjectId (replicate 32 0), we_bytes = bs\<rparr>"

fun encode_pack :: "wire_entry list \<Rightarrow> bytes run" where
  "encode_pack [] = Return []"
| "encode_pack (e # es) =
     (if length (we_bytes e) \<ge> U32_LIMIT then Panic
      else (case encode_pack es of
              Return out \<Rightarrow> Return (to_le (word_of_nat (length (we_bytes e)) :: 32 word) @ we_bytes e @ out)
            | r \<Rightarrow> r))"

function parse_pack_loop :: "bytes \<Rightarrow> wire_entry list \<Rightarrow> wire_entry list res" where
  "parse_pack_loop body out =
     (if body = [] then Inr out
      else if length body < 4 then Inl (EParse ''pack: truncated length prefix'')
      else
        (let len = unat (from_le (take 4 body) :: 32 word); rest = drop 4 body in
         if len = 0 then Inl (EParse ''pack: zero-length entry'')
         else if length rest < len then Inl (EParse ''pack: declared length exceeds remaining'')
         else if length out \<ge> MAX_PACK_ENTRIES then Inl (EParse ''pack: entry count exceeds MAX_PACK_ENTRIES'')
         else parse_pack_loop (drop len rest) (out @ [pack_entry_from_bytes (take len rest)])))"
  by pat_completeness auto
termination by (relation "measure (\<lambda>(body, out). length body)") auto

declare parse_pack_loop.simps [simp del]

definition parse_pack :: "bytes \<Rightarrow> wire_entry list res" where
  "parse_pack body = parse_pack_loop body []"

definition encode_packfile :: "xz_lib \<Rightarrow> wire_entry list \<Rightarrow> bytes run" where
  "encode_packfile X entries =
     (case encode_pack entries of
        Return inner \<Rightarrow>
          (case xz_encode_raw X inner of
             Inl _ \<Rightarrow> Panic
           | Inr compressed \<Rightarrow> Return (PACKFILE_VERSION_XZ # compressed))
      | r \<Rightarrow> r)"

definition parse_packfile :: "xz_lib \<Rightarrow> bytes \<Rightarrow> wire_entry list res" where
  "parse_packfile X body =
     (case body of
        [] \<Rightarrow> Inl (EParse ''packfile: empty body'')
      | v # rest \<Rightarrow>
        if v = PACKFILE_VERSION_RAW then parse_pack rest
        else if v = PACKFILE_VERSION_XZ then
          (case xz_decode_raw X rest of
             Inl _ \<Rightarrow> Inl (EParse ''packfile: xz decompress'')
           | Inr decompressed \<Rightarrow> parse_pack decompressed)
        else Inl (EParse ''packfile: unknown version byte''))"

definition parse_packfile_accumulating :: "xz_lib \<Rightarrow> bytes \<Rightarrow> 64 word \<Rightarrow> wire_entry list res \<times> 64 word" where
  "parse_packfile_accumulating X body accumulator =
     (case body of
        [] \<Rightarrow> (Inl (EParse ''packfile: empty body''), accumulator)
      | v # rest \<Rightarrow>
        if v = PACKFILE_VERSION_RAW then
          (parse_pack rest, accumulator + (word_of_nat (length body) - 1))
        else if v = PACKFILE_VERSION_XZ then
          (let stored = COMPRESS_MAGIC @ [FLAG_XZ] @ rest in
           case decode_accumulating X stored accumulator of
             (Inl _, acc) \<Rightarrow> (Inl (EParse ''packfile: xz decompress''), acc)
           | (Inr decompressed, acc) \<Rightarrow> (parse_pack decompressed, acc))
        else (Inl (EParse ''packfile: unknown version byte''), accumulator))"

section \<open>Round trips\<close>

text \<open>A body made of lines that hold no newline and are not empty splits back into those lines.\<close>

lemma lines_of_lines:
  "\<forall>l \<in> set ls. NL \<notin> set l \<Longrightarrow> lines_of (concat (map (\<lambda>l. l @ [NL]) ls)) = ls"
  by (induction ls) (simp_all add: lines_of_def split_incl_line)

lemma valid_utf8_lines: "\<forall>l \<in> set ls. valid_utf8 l \<Longrightarrow> valid_utf8 (concat (map (\<lambda>l. l @ [NL]) ls))"
  by (rule valid_utf8_concat) (auto simp: valid_utf8_append valid_utf8_low)

lemma lines_body:
  assumes "\<forall>l \<in> set ls. valid_utf8 l \<and> NL \<notin> set l"
  shows "valid_utf8 (concat (map (\<lambda>l. l @ [NL]) ls))" "lines_of (concat (map (\<lambda>l. l @ [NL]) ls)) = ls"
  using assms valid_utf8_lines lines_of_lines by blast+

definition name_ok :: "bytes \<Rightarrow> bool" where
  "name_ok n \<longleftrightarrow> n \<noteq> [] \<and> valid_utf8 n \<and> NL \<notin> set n"

lemma hex_tab_line:
  assumes "valid_utf8 s" "NL \<notin> set s"
  shows "valid_utf8 (to_hex i @ TAB # s)" "NL \<notin> set (to_hex i @ TAB # s)"
  using assms by (simp_all add: valid_utf8_append valid_utf8_low)

definition wf_info_refs :: "ref_entry list \<Rightarrow> bool" where
  "wf_info_refs rs \<longleftrightarrow> length rs \<le> MAX_INFO_REFS_ENTRIES \<and> distinct (map re_name rs)
     \<and> list_all (\<lambda>r. wf_id (re_id r) \<and> name_ok (re_name r) \<and> length (re_name r) \<le> MAX_INFO_REF_NAME_LEN) rs"

definition ref_line :: "ref_entry \<Rightarrow> bytes" where
  "ref_line r = to_hex (re_id r) @ TAB # re_name r"

lemma encode_info_refs_lines: "encode_info_refs rs = concat (map (\<lambda>l. l @ [NL]) (map ref_line rs))"
  by (simp add: encode_info_refs_def ref_line_def comp_def)

lemma info_refs_loop_lines:
  "list_all (\<lambda>r. wf_id (re_id r) \<and> name_ok (re_name r) \<and> length (re_name r) \<le> MAX_INFO_REF_NAME_LEN) rs \<Longrightarrow>
   distinct (map re_name rs) \<Longrightarrow> set (map re_name rs) \<inter> set seen = {} \<Longrightarrow>
   length out + length rs \<le> MAX_INFO_REFS_ENTRIES \<Longrightarrow>
   info_refs_loop (map ref_line rs) seen out = Inr (out @ rs)"
proof (induction rs arbitrary: seen out)
  case (Cons r rs)
  then have r: "wf_id (re_id r)" "re_name r \<noteq> []" "length (re_name r) \<le> MAX_INFO_REF_NAME_LEN"
    "re_name r \<notin> set seen" "length out < MAX_INFO_REFS_ENTRIES"
    by (simp_all add: name_ok_def)
  have "split_once [TAB] (ref_line r) = Some (to_hex (re_id r), re_name r)"
    unfolding ref_line_def by (rule split_once_char) simp
  moreover have "ref_line r \<noteq> []" by (simp add: ref_line_def)
  moreover have "info_refs_loop (map ref_line rs) (re_name r # seen) (out @ [r]) = Inr ((out @ [r]) @ rs)"
    using Cons.prems by (intro Cons.IH) auto
  ultimately show ?case using r by (cases r) simp
qed simp

definition wf_wants :: "object_id list \<Rightarrow> bool" where
  "wf_wants ids \<longleftrightarrow> list_all wf_id ids"

lemma wants_loop_lines: "list_all wf_id ids \<Longrightarrow> wants_loop (map to_hex ids) out = Inr (out @ ids)"
  by (induction ids arbitrary: out) (simp_all add: HEX_LEN_def HASH_LEN_def wf_id_def to_hex_nonempty)

definition zero_id :: object_id where "zero_id = ObjectId (replicate 32 0)"

definition wf_ref_updates :: "ref_update list \<Rightarrow> bool" where
  "wf_ref_updates us \<longleftrightarrow> list_all (\<lambda>u. wf_id (ru_new u) \<and> name_ok (ru_name u)
     \<and> (case ru_old u of None \<Rightarrow> True | Some i \<Rightarrow> wf_id i \<and> i \<noteq> zero_id)) us"

definition old_hex :: "object_id option \<Rightarrow> bytes" where
  "old_hex old = (case old of Some i \<Rightarrow> to_hex i | None \<Rightarrow> ZERO_HEX)"

definition update_line :: "ref_update \<Rightarrow> bytes" where
  "update_line u = old_hex (ru_old u) @ TAB # to_hex (ru_new u) @ TAB # ru_name u"

lemma encode_ref_updates_lines: "encode_ref_updates us = concat (map (\<lambda>l. l @ [NL]) (map update_line us))"
  by (induction us) (simp_all add: encode_ref_updates_def encode_ref_update_def update_line_def old_hex_def)

lemma zero_hex: "ZERO_HEX = to_hex zero_id"
  by code_simp

lemma old_hex_as_id: "old_hex old = to_hex (case old of Some i \<Rightarrow> i | None \<Rightarrow> zero_id)"
  by (simp add: old_hex_def zero_hex split: option.splits)

lemma parse_old_hex:
  "(case old of None \<Rightarrow> True | Some i \<Rightarrow> wf_id i \<and> i \<noteq> zero_id) \<Longrightarrow> parse_old (old_hex old) = Inr old"
  using to_hex_inject by (auto simp: parse_old_def old_hex_def zero_hex split: option.splits)

lemma splitn_update_line: "splitn 3 TAB (update_line u) = [old_hex (ru_old u), to_hex (ru_new u), ru_name u]"
  unfolding update_line_def old_hex_as_id
  by (simp add: numeral_3_eq_3 split_once_char)

lemma ref_updates_loop_lines:
  "wf_ref_updates us \<Longrightarrow> ref_updates_loop (map update_line us) out = Inr (out @ us)"
proof (induction us arbitrary: out)
  case (Cons u us)
  then have u: "wf_id (ru_new u)" "ru_name u \<noteq> []" "parse_old (old_hex (ru_old u)) = Inr (ru_old u)"
    by (simp_all add: wf_ref_updates_def name_ok_def parse_old_hex)
  have "update_line u \<noteq> []" by (simp add: update_line_def)
  with u Cons.IH [of "out @ [u]"] Cons.prems splitn_update_line [of u] show ?case
    by (cases u) (simp add: wf_ref_updates_def)
qed simp

text \<open>Packs. \<open>pack_bytes\<close> is what \<open>encode_pack\<close> writes when it does not panic.\<close>

definition entry_bytes_ok :: "wire_entry \<Rightarrow> bool" where
  "entry_bytes_ok e \<longleftrightarrow> we_bytes e \<noteq> [] \<and> length (we_bytes e) < U32_LIMIT \<and> we_id e = zero_id"

definition pack_bytes :: "wire_entry list \<Rightarrow> bytes" where
  "pack_bytes es = concat (map (\<lambda>e. to_le (word_of_nat (length (we_bytes e)) :: 32 word) @ we_bytes e) es)"

lemma encode_pack_ok: "list_all entry_bytes_ok es \<Longrightarrow> encode_pack es = Return (pack_bytes es)"
  by (induction es) (simp_all add: entry_bytes_ok_def pack_bytes_def not_le)

lemma parse_pack_loop_Nil: "parse_pack_loop [] out = Inr out"
  by (simp add: parse_pack_loop.simps)

lemma parse_pack_loop_entry:
  assumes "entry_bytes_ok e" "length out < MAX_PACK_ENTRIES"
  shows "parse_pack_loop (to_le (word_of_nat (length (we_bytes e)) :: 32 word) @ we_bytes e @ rest) out
    = parse_pack_loop rest (out @ [e])"
proof -
  have "unat (word_of_nat (length (we_bytes e)) :: 32 word) = length (we_bytes e)"
    using assms(1) by (simp add: entry_bytes_ok_def unat_of_nat take_bit_nat_eq_self U32_LIMIT_def)
  moreover have "pack_entry_from_bytes (we_bytes e) = e"
    using assms(1) by (cases e) (simp add: pack_entry_from_bytes_def entry_bytes_ok_def zero_id_def)
  moreover have "we_bytes e \<noteq> []" using assms(1) by (simp add: entry_bytes_ok_def)
  ultimately show ?thesis using assms(2) by (subst parse_pack_loop.simps) (simp add: Let_def)
qed

lemma parse_pack_loop_bytes:
  "list_all entry_bytes_ok es \<Longrightarrow> length out + length es \<le> MAX_PACK_ENTRIES \<Longrightarrow>
     parse_pack_loop (pack_bytes es) out = Inr (out @ es)"
proof (induction es arbitrary: out)
  case (Cons e es)
  then have "parse_pack_loop (pack_bytes es) (out @ [e]) = Inr ((out @ [e]) @ es)" by (intro Cons.IH) simp_all
  moreover have "parse_pack_loop (pack_bytes (e # es)) out = parse_pack_loop (pack_bytes es) (out @ [e])"
    using parse_pack_loop_entry [of e out "pack_bytes es"] Cons.prems by (simp add: pack_bytes_def)
  ultimately show ?case by simp
qed (simp add: pack_bytes_def parse_pack_loop_Nil)

lemma parse_pack_loop_step:
  assumes "parse_pack_loop body out = Inr r" "body \<noteq> []"
  obtains e rest where "entry_bytes_ok e" "length out < MAX_PACK_ENTRIES"
    "body = to_le (word_of_nat (length (we_bytes e)) :: 32 word) @ we_bytes e @ rest"
    "parse_pack_loop rest (out @ [e]) = Inr r"
proof -
  let ?len = "unat (from_le (take 4 body) :: 32 word)"
  from assms have c: "4 \<le> length body" "?len \<noteq> 0" "?len \<le> length (drop 4 body)" "length out < MAX_PACK_ENTRIES"
    and rec: "parse_pack_loop (drop ?len (drop 4 body)) (out @ [pack_entry_from_bytes (take ?len (drop 4 body))]) = Inr r"
    by (subst (asm) parse_pack_loop.simps; simp only: if_False Let_def res_simps not_less not_le; blast)+
  let ?e = "pack_entry_from_bytes (take ?len (drop 4 body))"
  have l: "length (we_bytes ?e) = ?len" using c(3) by (simp add: pack_entry_from_bytes_def)
  have "to_le (word_of_nat ?len :: 32 word) = take 4 body" using c(1) by (simp add: to_le_from_le)
  then have "body = to_le (word_of_nat (length (we_bytes ?e)) :: 32 word) @ we_bytes ?e @ drop ?len (drop 4 body)"
    unfolding l by (simp only: pack_entry_from_bytes_def wire_entry.simps append_take_drop_id)
  moreover have "entry_bytes_ok ?e"
    using l c(2) unat_u32 [of "from_le (take 4 body)"]
    by (auto simp: entry_bytes_ok_def pack_entry_from_bytes_def zero_id_def)
  ultimately show thesis using that c(4) rec by blast
qed

lemma parse_pack_loop_Inr:
  "parse_pack_loop body out = Inr r \<Longrightarrow> length out \<le> MAX_PACK_ENTRIES \<Longrightarrow>
     \<exists>es. r = out @ es \<and> list_all entry_bytes_ok es \<and> length r \<le> MAX_PACK_ENTRIES \<and> body = pack_bytes es"
proof (induction "length body" arbitrary: body out rule: less_induct)
  case less
  show ?case
  proof (cases "body = []")
    case True
    with less.prems show ?thesis by (intro exI [of _ "[]"]) (simp add: parse_pack_loop_Nil pack_bytes_def)
  next
    case False
    obtain e rest where st: "entry_bytes_ok e" "length out < MAX_PACK_ENTRIES"
      "body = to_le (word_of_nat (length (we_bytes e)) :: 32 word) @ we_bytes e @ rest"
      "parse_pack_loop rest (out @ [e]) = Inr r"
      by (rule parse_pack_loop_step [OF less.prems(1) False])
    moreover have "length rest < length body" using st(3) by simp
    ultimately obtain es where "r = (out @ [e]) @ es" "list_all entry_bytes_ok es" "length r \<le> MAX_PACK_ENTRIES"
      "rest = pack_bytes es" using less.hyps [of rest "out @ [e]"] by auto
    with st show ?thesis by (intro exI [of _ "e # es"]) (simp add: pack_bytes_def)
  qed
qed

text \<open>C30: what a pack body may be. \<open>parse_pack\<close> accepts a body exactly if it is the concatenation of at most
  a million length-prefixed entries, each of at least one byte, and then returns those entries; hence the
  number and the total size of what it allocates are bounded by the body, and every truncated, padded or
  empty-entry body is refused. Counting decompressed bytes does not change the result.\<close>
theorem parse_pack_exact:
  "(parse_pack body = Inr es \<longleftrightarrow> body = pack_bytes es \<and> length es \<le> MAX_PACK_ENTRIES \<and> list_all entry_bytes_ok es)
   \<and> fst (parse_packfile_accumulating X body acc) = parse_packfile X body"
proof
  show "parse_pack body = Inr es \<longleftrightarrow> body = pack_bytes es \<and> length es \<le> MAX_PACK_ENTRIES \<and> list_all entry_bytes_ok es"
    using parse_pack_loop_Inr [of body "[]" es] parse_pack_loop_bytes [of es "[]"] by (auto simp: parse_pack_def)
  show "fst (parse_packfile_accumulating X body acc) = parse_packfile X body"
    by (simp add: parse_packfile_accumulating_def parse_packfile_def decode_accumulating_def Let_def split: list.splits sum.splits)
qed

section \<open>The messages as codecs\<close>

lemma ref_line_ok: "name_ok (re_name r) \<Longrightarrow> valid_utf8 (ref_line r) \<and> NL \<notin> set (ref_line r)"
  using hex_tab_line [of "re_name r" "re_id r"] by (simp add: name_ok_def ref_line_def)

lemma update_line_ok: "name_ok (ru_name u) \<Longrightarrow> valid_utf8 (update_line u) \<and> NL \<notin> set (update_line u)"
  using hex_tab_line hex_tab_line [of "ru_name u" "ru_new u"] by (simp only: name_ok_def update_line_def old_hex_as_id) blast

interpretation info_refs: codec encode_info_refs parse_info_refs wf_info_refs
proof
  fix rs assume w: "wf_info_refs rs"
  then have l: "\<forall>l \<in> set (map ref_line rs). valid_utf8 l \<and> NL \<notin> set l"
    using ref_line_ok by (auto simp: wf_info_refs_def list_all_iff)
  show "parse_info_refs (encode_info_refs rs) = Inr rs"
    unfolding parse_info_refs_def encode_info_refs_lines lines_body(2) [OF l]
    using w lines_body(1) [OF l] by (simp add: wf_info_refs_def info_refs_loop_lines del: map_map)
qed

interpretation wants: codec encode_wants parse_wants wf_wants
proof
  fix ids assume w: "wf_wants ids"
  have "encode_wants ids = concat (map (\<lambda>l. l @ [NL]) (map to_hex ids))" by (simp add: encode_wants_def comp_def)
  moreover have l: "\<forall>l \<in> set (map to_hex ids). valid_utf8 l \<and> NL \<notin> set l" by auto
  ultimately show "parse_wants (encode_wants ids) = Inr ids"
    using w wants_loop_lines [of ids "[]"] lines_body [OF l] by (simp add: parse_wants_def wf_wants_def del: map_map)
qed

interpretation ref_updates: codec encode_ref_updates parse_ref_updates wf_ref_updates
proof
  fix us assume w: "wf_ref_updates us"
  then have l: "\<forall>l \<in> set (map update_line us). valid_utf8 l \<and> NL \<notin> set l"
    using update_line_ok by (auto simp: wf_ref_updates_def list_all_iff)
  show "parse_ref_updates (encode_ref_updates us) = Inr us"
    unfolding parse_ref_updates_def encode_ref_updates_lines lines_body(2) [OF l]
    using w lines_body(1) [OF l] by (simp add: ref_updates_loop_lines del: map_map)
qed

lemma packfile_round_trip:
  assumes "xz_lossless X" "list_all entry_bytes_ok es" "length es \<le> MAX_PACK_ENTRIES"
    "length (pack_bytes es) \<le> MAX_DECOMPRESSED_BYTES"
  shows "\<exists>b. encode_packfile X es = Return b \<and> parse_packfile X b = Inr es"
proof -
  obtain b where b: "xz_encode_raw X (pack_bytes es) = Inr b" "xz_reader X b = (pack_bytes es, True)"
    using assms(1) by (auto simp: xz_lossless_def xz_encode_raw_def Let_def)
  then have "encode_packfile X es = Return (PACKFILE_VERSION_XZ # b)"
    by (simp add: encode_packfile_def encode_pack_ok [OF assms(2)])
  moreover have "xz_decode_raw X b = Inr (pack_bytes es)" using b(2) assms(4) by (simp add: xz_decode_raw_def)
  then have "parse_packfile X (PACKFILE_VERSION_XZ # b) = Inr es"
    using parse_pack_loop_bytes [OF assms(2), of "[]"] assms(3)
    by (simp add: parse_packfile_def PACKFILE_VERSION_XZ_def PACKFILE_VERSION_RAW_def parse_pack_def)
  ultimately show ?thesis by blast
qed


definition sample_refs :: "ref_entry list" where
  "sample_refs = [\<lparr>re_name = ascii ''refs/heads/main'', re_id = zero_id\<rparr>]"

definition sample_updates :: "ref_update list" where
  "sample_updates = [\<lparr>ru_old = None, ru_new = zero_id, ru_name = ascii ''refs/heads/main''\<rparr>]"


end
