(* ===== verification/Reflog.thy ===== *)
theory Reflog
  imports Refs
begin

text \<open>
  \<open>src/reflog.rs\<close>: the append-only log of ref movements, one file per ref under \<open>logs/\<close>. The clock is an
  argument, in seconds since the epoch. Opening a file follows symbolic links, also one that dangles; the
  new file is then created where the link points.
\<close>

record reflog_entry =
  rl_old :: "object_id option"
  rl_new :: object_id
  rl_who :: bytes
  rl_timestamp :: int
  rl_tz_offset :: bytes
  rl_message :: bytes

definition REFLOG_ZERO_HEX :: bytes where "REFLOG_ZERO_HEX = replicate 64 48"

section \<open>Recording\<close>

definition sanitize :: "bytes \<Rightarrow> bytes" where
  "sanitize s = map (\<lambda>b. if b = NL \<or> b = CR \<or> b = TAB then SP else b) s"

definition log_path :: "fpath \<Rightarrow> bytes \<Rightarrow> fpath" where
  "log_path gyt refname = join_name (gyt @ [ascii ''logs'']) refname"

definition record_line :: "64 word \<Rightarrow> object_id option \<Rightarrow> object_id \<Rightarrow> bytes \<Rightarrow> bytes \<Rightarrow> bytes" where
  "record_line ts old new who message =
     (case old of None \<Rightarrow> REFLOG_ZERO_HEX | Some i \<Rightarrow> to_hex i) @ [TAB] @ to_hex new @ [TAB] @ sanitize who @ [TAB]
       @ print_i64 ts @ [TAB] @ ascii ''+0000'' @ [TAB] @ sanitize message @ [NL]"

fun follow :: "nat \<Rightarrow> fs \<Rightarrow> fpath \<Rightarrow> fpath option" where
  "follow n fs p =
     (case fs_get fs p of
        Some (Symlink t) \<Rightarrow> (case n of 0 \<Rightarrow> None | Suc m \<Rightarrow> follow m fs t)
      | _ \<Rightarrow> Some p)"

declare follow.simps [simp del]

definition append_file :: "fs \<Rightarrow> fpath \<Rightarrow> bytes \<Rightarrow> unit res \<times> fs" where
  \<comment> \<open>open with \<open>create\<close> and \<open>append\<close>, set the mode, write\<close>
  "append_file fs path data =
     (case follow ELOOP_MAX fs path of
        None \<Rightarrow> (Inl (EIo ''too many levels of symbolic links''), fs)
      | Some p \<Rightarrow>
        (case fs_get fs p of
           Some (File d _) \<Rightarrow> (Inr (), fs_put p (File (d @ data) 384) fs)
         | Some _ \<Rightarrow> (Inl (EIo ''is a directory''), fs)
         | None \<Rightarrow> if 1 < length p \<and> fs_get fs (butlast p) \<noteq> Some Dir then (Inl (EIo ''not found''), fs)
                   else (Inr (), fs_put p (File data 384) fs)))"

definition try_record ::
  "nat \<Rightarrow> fs \<Rightarrow> fpath \<Rightarrow> bytes \<Rightarrow> object_id option \<Rightarrow> object_id \<Rightarrow> bytes \<Rightarrow> bytes \<Rightarrow> unit res \<times> fs" where
  "try_record now fs gyt refname old new who message =
     (let path = log_path gyt refname in
      case create_dir_all fs (butlast path) of
        (Inl e, fs1) \<Rightarrow> (Inl e, fs1)
      | (Inr _, fs1) \<Rightarrow> append_file fs1 path (record_line (word_of_nat now) old new who message))"

definition record_ref ::
  "nat \<Rightarrow> fs \<Rightarrow> fpath \<Rightarrow> bytes \<Rightarrow> object_id option \<Rightarrow> object_id \<Rightarrow> bytes \<Rightarrow> bytes \<Rightarrow> fs" where
  "record_ref now fs gyt refname old new who message = snd (try_record now fs gyt refname old new who message)"

section \<open>Reading\<close>

definition reflog_parse_line :: "bytes \<Rightarrow> reflog_entry option" where
  "reflog_parse_line line =
     (case splitn 6 TAB line of
        old_hex # new_hex # who_part # ts_part # tz_part # rest \<Rightarrow>
          (let message = (case rest of [] \<Rightarrow> [] | m # _ \<Rightarrow> m);
               old = (if old_hex = REFLOG_ZERO_HEX then None
                      else (case from_hex old_hex of Inl _ \<Rightarrow> None | Inr i \<Rightarrow> Some i)) in
           case from_hex new_hex of
             Inl _ \<Rightarrow> None
           | Inr new \<Rightarrow>
             (case parse_i64 ts_part of
                None \<Rightarrow> None
              | Some timestamp \<Rightarrow>
                Some \<lparr>rl_old = old, rl_new = new, rl_who = who_part, rl_timestamp = timestamp,
                      rl_tz_offset = tz_part, rl_message = message\<rparr>))
      | _ \<Rightarrow> None)"

definition entries :: "fs \<Rightarrow> fpath \<Rightarrow> bytes \<Rightarrow> reflog_entry list res" where
  "entries fs gyt refname =
     (case deref ELOOP_MAX fs (log_path gyt refname) of
        None \<Rightarrow> Inr []
      | Some (File text _) \<Rightarrow>
          if \<not> valid_utf8 text then Inl (EIo ''stream did not contain valid UTF-8'')
          else Inr (List.map_filter reflog_parse_line (str_lines text))
      | Some _ \<Rightarrow> Inl (EIo ''is a directory''))"

definition or_default :: "'a list res \<Rightarrow> 'a list" where
  "or_default r = (case r of Inl _ \<Rightarrow> [] | Inr xs \<Rightarrow> xs)"

definition collect_file :: "fs \<Rightarrow> fpath \<Rightarrow> fpath \<Rightarrow> bytes \<times> reflog_entry list" where
  "collect_file fs root path =
     (let rel = drop (length root) path; dir = butlast path;
          name = join_char SLASH (map to_string_lossy rel);
          es = or_default (entries fs (take (length dir - length rel) dir) name);
          es = (if es = [] then or_default (entries fs (butlast root) name) else es) in
      (name, es))"

definition list_all_logs :: "fs \<Rightarrow> fpath \<Rightarrow> (bytes \<times> reflog_entry list) list" where
  "list_all_logs fs gyt =
     (let root = gyt @ [ascii ''logs''] in
      if deref ELOOP_MAX fs root \<noteq> Some Dir then []
      else sort_key fst (map (collect_file fs root) (files_under fs root)))"

section \<open>Appending an entry\<close>

lemma split_incl_append: "d = [] \<or> last d = NL \<Longrightarrow> split_incl (d @ e) = split_incl d @ split_incl e"
proof (induction d)
  case (Cons c d)
  show ?case
  proof (cases "c = NL")
    case True
    with Cons show ?thesis by (auto split: if_splits)
  next
    case False
    with Cons.prems have d: "d \<noteq> []" "last d = NL" by (auto split: if_splits)
    then have IH: "split_incl (d @ e) = split_incl d @ split_incl e" using Cons.IH by simp
    have "split_incl d \<noteq> []" using d(1) concat_split_incl [of d] by auto
    then obtain l ls where "split_incl d = l # ls" by (cases "split_incl d") auto
    with False IH show ?thesis by simp
  qed
qed simp

lemma replace_char_join: "map (\<lambda>b. if b = c then d else b) s = join_char d (split_char c s)"
proof (induction s)
  case (Cons x s)
  obtain p ps where "split_char c s = p # ps" by (cases "split_char c s") auto
  with Cons show ?case by (cases ps) auto
qed simp

lemma valid_utf8_join: "\<forall>p \<in> set ps. valid_utf8 p \<Longrightarrow> d < 0x80 \<Longrightarrow> valid_utf8 (join_char d ps)"
proof (induction ps rule: induct_list012)
  case (3 p q ps)
  then show ?case by (simp add: valid_utf8_append valid_utf8_low)
qed simp_all

lemma valid_utf8_replace:
  assumes "valid_utf8 s" "c < 0x80" "d < 0x80"
  shows "valid_utf8 (map (\<lambda>b. if b = c then d else b) s)"
  unfolding replace_char_join using assms valid_utf8_pieces by (intro valid_utf8_join) blast+

lemma sanitize_replace:
  "sanitize s = map (\<lambda>b. if b = TAB then SP else b) (map (\<lambda>b. if b = CR then SP else b) (map (\<lambda>b. if b = NL then SP else b) s))"
  by (simp add: sanitize_def)

lemma valid_utf8_sanitize: "valid_utf8 s \<Longrightarrow> valid_utf8 (sanitize s)"
  unfolding sanitize_replace by (intro valid_utf8_replace) simp_all

lemma sanitize_no_sep: "NL \<notin> set (sanitize s)" "CR \<notin> set (sanitize s)" "TAB \<notin> set (sanitize s)"
  by (auto simp: sanitize_def)

definition wf_old :: "object_id option \<Rightarrow> bool" where
  "wf_old old = (case old of None \<Rightarrow> True | Some i \<Rightarrow> wf_id i \<and> to_hex i \<noteq> REFLOG_ZERO_HEX)"

definition old_text :: "object_id option \<Rightarrow> bytes" where
  "old_text old = (case old of None \<Rightarrow> REFLOG_ZERO_HEX | Some i \<Rightarrow> to_hex i)"

definition made_entry :: "64 word \<Rightarrow> object_id option \<Rightarrow> object_id \<Rightarrow> bytes \<Rightarrow> bytes \<Rightarrow> reflog_entry" where
  "made_entry ts old new who message =
     \<lparr>rl_old = old, rl_new = new, rl_who = sanitize who, rl_timestamp = sint ts, rl_tz_offset = ascii ''+0000'',
      rl_message = sanitize message\<rparr>"

lemma record_line_eq:
  "record_line ts old new who message = (old_text old @ TAB # to_hex new @ TAB # sanitize who @ TAB # print_i64 ts
     @ TAB # ascii ''+0000'' @ TAB # sanitize message) @ [NL]"
  by (simp add: record_line_def old_text_def)

lemma old_text_plain: "c \<in> set (old_text old) \<Longrightarrow> 48 \<le> c \<and> c \<le> 102"
  using to_hex_range by (auto simp: old_text_def REFLOG_ZERO_HEX_def word_le_nat_alt split: option.splits)

lemma text_plain: "TAB \<notin> set (old_text old)" "NL \<notin> set (old_text old)" "TAB \<notin> set (print_i64 ts)" "NL \<notin> set (print_i64 ts)"
  using old_text_plain [of TAB old] old_text_plain [of NL old] print_i64_plain [of TAB ts] print_i64_plain [of NL ts]
  by auto

lemma text_valid: "valid_utf8 (old_text old)" "valid_utf8 (print_i64 ts)"
proof -
  have "b < 0x80" if "(45 :: byte) \<le> b \<and> b \<le> 102" for b
    using that by (simp add: word_le_nat_alt word_less_nat_alt)
  moreover have "(45 :: byte) \<le> b \<and> b \<le> 102" if "48 \<le> b \<and> b \<le> 102 \<or> 45 \<le> b \<and> b \<le> 57" for b
    using that by (auto simp: word_le_nat_alt)
  ultimately show "valid_utf8 (old_text old)" "valid_utf8 (print_i64 ts)"
    using old_text_plain print_i64_plain by (intro valid_utf8_ascii; blast)+
qed

lemma splitn_record:
  "splitn 6 TAB (old_text old @ TAB # to_hex new @ TAB # sanitize who @ TAB # print_i64 ts @ TAB # ascii ''+0000''
     @ TAB # sanitize message)
   = [old_text old, to_hex new, sanitize who, print_i64 ts, ascii ''+0000'', sanitize message]"
proof -
  have six: "(6 :: nat) = Suc (Suc (Suc (Suc (Suc (Suc 0)))))" by simp
  have "TAB \<notin> set (ascii ''+0000'')" by simp
  then show ?thesis
    unfolding six using text_plain sanitize_no_sep(3) by (simp add: split_once_char del: ascii_Cons)
qed

lemma parse_record:
  assumes "wf_id new" "wf_old old"
  shows "reflog_parse_line (old_text old @ TAB # to_hex new @ TAB # sanitize who @ TAB # print_i64 ts @ TAB # ascii ''+0000''
     @ TAB # sanitize message) = Some (made_entry ts old new who message)"
proof -
  have "(if old_text old = REFLOG_ZERO_HEX then None
         else case from_hex (old_text old) of Inl _ \<Rightarrow> None | Inr i \<Rightarrow> Some i) = old"
    using assms(2) by (auto simp: wf_old_def old_text_def split: option.splits)
  then show ?thesis
    unfolding reflog_parse_line_def splitn_record
    using assms(1) by (simp add: parse_print_i64 made_entry_def Let_def del: ascii_Cons)
qed

lemma str_lines_record:
  "str_lines (record_line ts old new who message)
   = [old_text old @ TAB # to_hex new @ TAB # sanitize who @ TAB # print_i64 ts @ TAB # ascii ''+0000'' @ TAB # sanitize message]"
proof -
  let ?l = "old_text old @ TAB # to_hex new @ TAB # sanitize who @ TAB # print_i64 ts @ TAB # ascii ''+0000'' @ TAB # sanitize message"
  have "NL \<notin> set ?l" using text_plain sanitize_no_sep by simp
  moreover have "last ?l \<noteq> CR"
  proof (cases "sanitize message = []")
    case False
    then have "last (sanitize message) \<noteq> CR" using sanitize_no_sep(2) last_in_set by metis
    with False show ?thesis by simp
  qed simp
  ultimately show ?thesis
    unfolding record_line_eq using str_lines_line [of ?l "[]"] by (simp del: ascii_Cons)
qed

lemma valid_record: "valid_utf8 who \<Longrightarrow> valid_utf8 message \<Longrightarrow> valid_utf8 (record_line ts old new who message)"
  unfolding record_line_eq
  using valid_utf8_sanitize [of who] valid_utf8_sanitize [of message] text_valid
  by (simp add: valid_utf8_append valid_utf8_low)

definition log_ok :: "node option \<Rightarrow> bool" where
  \<comment> \<open>no log yet, or a text of whole lines\<close>
  "log_ok n = (case n of None \<Rightarrow> True | Some (File d _) \<Rightarrow> valid_utf8 d \<and> (d = [] \<or> last d = NL) | _ \<Rightarrow> False)"

lemma log_path_nonempty: "log_path gyt refname \<noteq> []"
  by (simp add: log_path_def join_name_def)

text \<open>C31: recording a ref movement appends one entry to its log. If the log is absent or consists of whole
  lines and \<open>try_record\<close> succeeds, the entries read afterwards are those read before followed by one entry
  with the given ids and time and with the identity and message as given, tabs and line breaks in them
  replaced by spaces.\<close>
theorem reflog_appends:
  assumes "try_record now fs gyt refname old new who message = (Inr (), fs')" "log_ok (fs_get fs (log_path gyt refname))"
    "wf_id new" "wf_old old" "valid_utf8 who" "valid_utf8 message"
  shows "\<exists>es. entries fs gyt refname = Inr es
    \<and> entries fs' gyt refname = Inr (es @ [made_entry (word_of_nat now) old new who message])"
proof -
  let ?p = "log_path gyt refname" and ?l = "record_line (word_of_nat now) old new who message"
  obtain fs1 where c: "create_dir_all fs (butlast ?p) = (Inr (), fs1)" and a: "append_file fs1 ?p ?l = (Inr (), fs')"
    using assms(1) by (auto simp: try_record_def Let_def split: prod.splits sum.splits)
  have same: "fs_get fs1 ?p = fs_get fs ?p" by (rule create_dir_all_leaf [OF c log_path_nonempty])
  then have fl: "follow ELOOP_MAX fs1 ?p = Some ?p"
    using assms(2) by (subst follow.simps) (simp add: log_ok_def split: option.splits node.splits)
  note valid = valid_record [OF assms(5,6), of "word_of_nat now" old new]
  have one: "List.map_filter reflog_parse_line (str_lines ?l) = [made_entry (word_of_nat now) old new who message]"
    unfolding str_lines_record by (simp add: List.map_filter_simps parse_record [OF assms(3,4)] del: ascii_Cons)
  show ?thesis
  proof (cases "fs_get fs ?p")
    case None
    with a fl same have "fs_get fs' ?p = Some (File ?l 384)"
      by (auto simp: append_file_def update_conv split: if_splits)
    with None one valid show ?thesis by (simp add: entries_def deref_none deref_file)
  next
    case (Some n)
    then obtain d m where d: "fs_get fs ?p = Some (File d m)" "valid_utf8 d" "d = [] \<or> last d = NL"
      using assms(2) by (auto simp: log_ok_def split: node.splits)
    with a fl same have "fs_get fs' ?p = Some (File (d @ ?l) 384)"
      by (auto simp: append_file_def update_conv)
    moreover have "str_lines (d @ ?l) = str_lines d @ str_lines ?l"
      using split_incl_append [OF d(3)] by (simp add: str_lines_def)
    moreover have "valid_utf8 (d @ ?l)" using d(2) valid by (simp add: valid_utf8_append)
    ultimately show ?thesis
      using d one by (simp add: entries_def deref_file map_filter_def)
  qed
qed

theorem reflog_appends_witness:
  "\<exists>fs'. try_record 7 [] [] (ascii ''HEAD'') None sample_id (ascii ''me'') (ascii ''hi'') = (Inr (), fs')
     \<and> entries fs' [] (ascii ''HEAD'') = Inr [made_entry 7 None sample_id (ascii ''me'') (ascii ''hi'')]"
proof -
  have p: "log_path [] (ascii ''HEAD'') = [ascii ''logs'', ascii ''HEAD'']" by (simp add: log_path_def join_name_def)
  obtain fs' where w: "try_record 7 [] [] (ascii ''HEAD'') None sample_id (ascii ''me'') (ascii ''hi'') = (Inr (), fs')"
    by (simp add: try_record_def Let_def p create_dir_all_def upt_rec append_file_def follow.simps del: ascii_Cons)
  have "entries [] [] (ascii ''HEAD'') = Inr []" by (simp add: entries_def deref.simps)
  moreover have "wf_id sample_id" by (simp add: wf_id_def sample_id_def HASH_LEN_def)
  ultimately show ?thesis
    using reflog_appends [OF w] w
    by (simp add: log_ok_def wf_old_def valid_utf8_text)
qed

end
