(* ===== verification/Store_View.thy ===== *)
theory Store_View
  imports Object_Store Tree_Object Commit_Object Tag_Object
begin

text \<open>
  The object store as its clients see it: a function from ids to objects. Reading goes through the cache of
  pack indexes, but with a coherent cache the result does not depend on it, and reading never panics
  (\<open>read_object_view\<close>). The commands that walk the history while the objects on disk stay put are therefore
  modelled over a read function \<open>rd\<close>, which is \<open>store_read\<close> of the repository. The typed reads and writes of
  \<open>src/object/commit.rs\<close>, \<open>tree.rs\<close>, \<open>tag.rs\<close> and \<open>blob.rs\<close> are here too.
\<close>

type_synonym reader = "object_id \<Rightarrow> object res"

definition run_res :: "'a res run \<Rightarrow> 'a res" where
  "run_res r = (case r of Return x \<Rightarrow> x | _ \<Rightarrow> Inl (EIo ''panic''))"

definition store_read :: "pack_env \<Rightarrow> xz_lib \<Rightarrow> (bytes \<Rightarrow> bytes) \<Rightarrow> fs \<Rightarrow> fpath \<Rightarrow> reader" where
  "store_read E X H fs gyt i = run_res (fst (read_object E X H fs [] gyt i))"

definition store_exists :: "pack_env \<Rightarrow> fs \<Rightarrow> fpath \<Rightarrow> object_id \<Rightarrow> bool" where
  "store_exists E fs gyt i = (fst (object_exists E fs [] gyt i) = Return True)"

section \<open>Typed objects\<close>

definition commit_read :: "reader \<Rightarrow> object_id \<Rightarrow> commit res" where
  "commit_read rd i =
     (case rd i of
        Inl e \<Rightarrow> Inl e
      | Inr obj \<Rightarrow> if obj_kind obj \<noteq> Commit then Inl (EObject ''expected commit'') else commit_decode (obj_payload obj))"

definition tree_read :: "reader \<Rightarrow> object_id \<Rightarrow> tree_entry list res" where
  "tree_read rd i =
     (case rd i of
        Inl e \<Rightarrow> Inl e
      | Inr obj \<Rightarrow> if obj_kind obj \<noteq> Tree then Inl (EObject ''expected tree'') else tree_decode (obj_payload obj))"

definition tag_read :: "reader \<Rightarrow> object_id \<Rightarrow> tag res" where
  "tag_read rd i =
     (case rd i of
        Inl e \<Rightarrow> Inl e
      | Inr obj \<Rightarrow> if obj_kind obj \<noteq> Tag then Inl (EObject ''expected tag'') else tag_decode (obj_payload obj))"

definition blob_read :: "reader \<Rightarrow> object_id \<Rightarrow> bytes res" where
  "blob_read rd i =
     (case rd i of
        Inl e \<Rightarrow> Inl e
      | Inr obj \<Rightarrow> if obj_kind obj \<noteq> Blob then Inl (EObject ''expected blob'') else Inr (obj_payload obj))"

definition commit_write ::
  "xz_lib \<Rightarrow> (bytes \<Rightarrow> bytes) \<Rightarrow> bytes \<Rightarrow> fs \<Rightarrow> fpath \<Rightarrow> commit \<Rightarrow> object_id res run \<times> fs" where
  "commit_write X H nonce fs gyt c = write_bytes X H nonce fs gyt Commit (commit_encode c)"

definition tree_write ::
  "xz_lib \<Rightarrow> (bytes \<Rightarrow> bytes) \<Rightarrow> bytes \<Rightarrow> fs \<Rightarrow> fpath \<Rightarrow> tree_entry list \<Rightarrow> object_id res run \<times> fs" where
  "tree_write X H nonce fs gyt es = write_bytes X H nonce fs gyt Tree (tree_encode es)"

definition tag_write ::
  "xz_lib \<Rightarrow> (bytes \<Rightarrow> bytes) \<Rightarrow> bytes \<Rightarrow> fs \<Rightarrow> fpath \<Rightarrow> tag \<Rightarrow> object_id res run \<times> fs" where
  "tag_write X H nonce fs gyt t = write_bytes X H nonce fs gyt Tag (tag_encode t)"

definition blob_write ::
  "xz_lib \<Rightarrow> (bytes \<Rightarrow> bytes) \<Rightarrow> bytes \<Rightarrow> fs \<Rightarrow> fpath \<Rightarrow> bytes \<Rightarrow> object_id res run \<times> fs" where
  "blob_write X H nonce fs gyt payload = write_bytes X H nonce fs gyt Blob payload"

section \<open>The cache does not show\<close>

lemma lookup_cached:
  assumes "cache_ok E fs g" "env_ok E fs"
  shows "fst (lookup_in_idx E fs g p i) = (case read_all fs p of Inl e \<Rightarrow> Return (Inl e) | Inr d \<Rightarrow> lookup_bytes d i)"
    and "cache_ok E fs (snd (lookup_in_idx E fs g p i))"
  using idx_bytes_cached [OF assms, of p]
  by (auto simp: lookup_in_idx_def split: prod.splits sum.splits)

lemma pack_scan_cached:
  assumes "env_ok E fs"
  shows "cache_ok E fs g \<Longrightarrow> cache_ok E fs h \<Longrightarrow>
    fst (pack_scan E X H fs g paths i) = fst (pack_scan E X H fs h paths i)
    \<and> cache_ok E fs (snd (pack_scan E X H fs g paths i))"
proof (induction paths arbitrary: g h)
  case (Cons p paths)
  obtain r g1 where g1: "lookup_in_idx E fs g p i = (Return r, g1)" using lookup_in_idx_total by blast
  obtain s h1 where h1: "lookup_in_idx E fs h p i = (Return s, h1)" using lookup_in_idx_total by blast
  note lk = lookup_cached [OF Cons.prems(1) assms, of p i] lookup_cached [OF Cons.prems(2) assms, of p i]
  have "fst (lookup_in_idx E fs g p i) = fst (lookup_in_idx E fs h p i)" by (simp only: lk)
  then have rs: "s = r" using g1 h1 by simp
  have ok: "cache_ok E fs g1" "cache_ok E fs h1" using lk(2,4) g1 h1 by simp_all
  show ?case
    using Cons.IH [OF Cons.prems] Cons.IH [OF ok] ok g1 h1 rs
    by (auto simp del: ascii_Cons split: sum.splits option.splits)
qed simp

lemma cache_ok_empty: "cache_ok E fs []"
  by (simp add: cache_ok_def)

lemma read_object_returns: "\<exists>r g'. read_object E X H fs g gyt i = (Return r, g')"
proof -
  obtain r g1 where "pack_scan E X H fs g (children fs (pack_dir gyt)) i = (Return r, g1)"
    using pack_scan_total by blast
  then show ?thesis
    by (cases r) (auto simp: read_object_def Let_def read_from_packs_def split: option.splits)
qed

lemma read_object_view:
  assumes "cache_ok E fs g" "env_ok E fs"
  shows "fst (read_object E X H fs g gyt i) = Return (store_read E X H fs gyt i)"
    and "cache_ok E fs (snd (read_object E X H fs g gyt i))"
proof -
  let ?s = "\<lambda>g. pack_scan E X H fs g (children fs (pack_dir gyt)) i"
  have s: "fst (?s g) = fst (?s [])" "cache_ok E fs (snd (?s g))"
    using pack_scan_cached [OF assms(2,1) cache_ok_empty] by blast+
  obtain r g1 where g1: "?s g = (Return r, g1)" using pack_scan_total by blast
  obtain q g2 where g2: "?s [] = (Return q, g2)" using pack_scan_total by blast
  have "r = q" using s(1) g1 g2 by simp
  then have "fst (read_object E X H fs g gyt i) = fst (read_object E X H fs [] gyt i)
      \<and> cache_ok E fs (snd (read_object E X H fs g gyt i))"
    using g1 g2 s(2) assms(1)
    by (auto simp: read_object_def Let_def read_from_packs_def split: sum.splits option.splits)
  moreover obtain x h where "read_object E X H fs [] gyt i = (Return x, h)" using read_object_returns by blast
  ultimately show "fst (read_object E X H fs g gyt i) = Return (store_read E X H fs gyt i)"
    "cache_ok E fs (snd (read_object E X H fs g gyt i))"
    by (simp_all add: store_read_def run_res_def)
qed

lemma store_read_authentic: "store_read E X H fs gyt i = Inr obj \<Longrightarrow> authentic H i obj"
proof -
  assume r: "store_read E X H fs gyt i = Inr obj"
  obtain x h where "read_object E X H fs [] gyt i = (Return x, h)" using read_object_returns by blast
  with r have "read_object E X H fs [] gyt i = (Return (Inr obj), h)" by (simp add: store_read_def run_res_def)
  then show ?thesis by (rule read_object_authentic)
qed

section \<open>Files that hold objects\<close>

definition holds_object :: "xz_lib \<Rightarrow> (bytes \<Rightarrow> bytes) \<Rightarrow> fs \<Rightarrow> fpath \<Rightarrow> object_kind \<Rightarrow> bytes \<Rightarrow> bool" where
  \<comment> \<open>the loose file of the object is a plain file from which it decodes\<close>
  "holds_object X H fs gyt kind payload \<longleftrightarrow>
     (\<exists>stored m. fs_get fs (path_for gyt (hash_bytes H (build_raw kind payload))) = Some (File stored m)
        \<and> decode X stored = Inr (build_raw kind payload)) \<and> length payload < USIZE_LIMIT"

lemma holds_object_read:
  assumes "holds_object X H fs gyt kind payload"
  shows "store_read E X H fs gyt (hash_bytes H (build_raw kind payload)) = Inr (Object_new H kind payload)"
proof -
  let ?i = "hash_bytes H (build_raw kind payload)"
  obtain stored m where f: "fs_get fs (path_for gyt ?i) = Some (File stored m)"
    and d: "decode X stored = Inr (build_raw kind payload)" "length payload < USIZE_LIMIT"
    using assms by (auto simp: holds_object_def)
  from read_loose_file [OF f d, of H] f show ?thesis
    by (simp add: store_read_def run_res_def read_object_def path_exists_def deref_file)
qed

lemma write_bytes_holds:
  assumes "xz_lossless X" "length (build_raw kind payload) \<le> MAX_DECOMPRESSED_BYTES"
    "\<not> path_exists fs (path_for gyt (hash_bytes H (build_raw kind payload)))"
    "write_bytes X H nonce fs gyt kind payload = (Return (Inr i), fs')"
  shows "i = hash_bytes H (build_raw kind payload)" "holds_object X H fs' gyt kind payload"
proof -
  let ?raw = "build_raw kind payload"
  obtain stored where enc: "encode X ?raw = Return stored" "decode X stored = Inr ?raw"
    by (rule decode_encode [OF assms(1,2)])
  with assms(3,4) have i: "i = hash_bytes H ?raw"
    and w: "atomic_write nonce fs (path_for gyt i) stored = (Inr (), fs')"
    by (auto simp: write_bytes_def Let_def split: prod.splits sum.splits)
  have "length payload \<le> length ?raw" by (simp add: build_raw_def)
  then have "length payload < USIZE_LIMIT" using assms(2) by (simp add: MAX_DECOMPRESSED_BYTES_def USIZE_LIMIT_def)
  with atomic_write_ok(1) [OF w [unfolded atomic_write_def] path_for_shape(1)] i enc(2)
  show "holds_object X H fs' gyt kind payload" by (auto simp: holds_object_def)
  show "i = hash_bytes H ?raw" by (rule i)
qed

lemma holds_object_keep:
  assumes "holds_object X H fs gyt kind payload"
    "\<And>i. fs_get fs (path_for gyt i) \<noteq> None \<Longrightarrow> fs_get fs' (path_for gyt i) = fs_get fs (path_for gyt i)"
  shows "holds_object X H fs' gyt kind payload"
  using assms by (fastforce simp: holds_object_def)

end
