(* ===== verification/Toml.thy ===== *)
theory Toml
  imports Prelude
begin

text \<open>
  The line-based TOML subset in which \<open>src/issues.rs\<close>, \<open>src/prs.rs\<close> and \<open>src/incidents.rs\<close> store their
  records. Each of the three files carries its own copy of these helpers, equal up to the word in the error
  messages; they are modelled once.

  Strings are written with Rust's \<open>{:?}\<close>. That escapes some characters, among them those for which the
  Unicode tables of the standard library say that they extend a grapheme or are not printable. For ASCII the
  rule is written out; for other characters it is the argument \<open>U\<close>, a predicate on the bytes of a character.
\<close>

section \<open>Printing\<close>

definition hex_digit :: "nat \<Rightarrow> byte" where
  "hex_digit d = (if d < 10 then 48 + word_of_nat d else 87 + word_of_nat d)"

fun to_hex_nat :: "nat \<Rightarrow> bytes" where
  "to_hex_nat n = (if n < 16 then [hex_digit n] else to_hex_nat (n div 16) @ [hex_digit (n mod 16)])"

declare to_hex_nat.simps [simp del]

definition code_point :: "bytes \<Rightarrow> nat" where
  "code_point c =
     (case map unat c of
        [a] \<Rightarrow> a
      | [a, b] \<Rightarrow> (a mod 32) * 64 + b mod 64
      | [a, b, d] \<Rightarrow> ((a mod 16) * 64 + b mod 64) * 64 + d mod 64
      | a # b # d # e # _ \<Rightarrow> (((a mod 8) * 64 + b mod 64) * 64 + d mod 64) * 64 + e mod 64
      | [] \<Rightarrow> 0)"

definition unicode_escape :: "bytes \<Rightarrow> bytes" where
  "unicode_escape c = [BSLASH, 117, 123] @ to_hex_nat (code_point c) @ [125]"

definition debug_char :: "(bytes \<Rightarrow> bool) \<Rightarrow> bytes \<Rightarrow> bytes" where
  "debug_char U c =
     (if c = [0] then [BSLASH, 48]
      else if c = [TAB] then [BSLASH, 116]
      else if c = [CR] then [BSLASH, 114]
      else if c = [NL] then [BSLASH, 110]
      else if c = [34] then [BSLASH, 34]
      else if c = [BSLASH] then [BSLASH, BSLASH]
      else if (if hd c < 0x80 then hd c < 32 \<or> hd c = 127 else U c) then unicode_escape c
      else c)"

definition debug_str :: "(bytes \<Rightarrow> bool) \<Rightarrow> bytes \<Rightarrow> bytes" where
  "debug_str U s = 34 # concat (map (debug_char U) (chars s)) @ [34]"

fun join :: "bytes \<Rightarrow> bytes list \<Rightarrow> bytes" where
  "join sep [] = []"
| "join sep [x] = x"
| "join sep (x # y # xs) = x @ sep @ join sep (y # xs)"

definition toml_string_array :: "(bytes \<Rightarrow> bool) \<Rightarrow> bytes list \<Rightarrow> bytes" where
  "toml_string_array U xs =
     (if xs = [] then ascii ''[]'' else ascii ''['' @ join (ascii '', '') (map (debug_str U) xs) @ ascii '']'')"

definition toml_u64_array :: "64 word list \<Rightarrow> bytes" where
  "toml_u64_array xs =
     (if xs = [] then ascii ''[]''
      else ascii ''['' @ join (ascii '', '') (map (\<lambda>x. to_radix 10 (unat x)) xs) @ ascii '']'')"

definition field_line :: "bytes \<Rightarrow> bytes \<Rightarrow> bytes" where
  \<comment> \<open>a line \<open>key = value\<close>\<close>
  "field_line k v = k @ [SP, 61, SP] @ v"

definition text_lines :: "bytes list \<Rightarrow> bytes" where
  "text_lines ls = concat (map (\<lambda>l. l @ [NL]) ls)"

section \<open>Parsing\<close>

definition escaped :: "byte \<Rightarrow> byte option" where
  "escaped d =
     (if d = 110 then Some NL
      else if d = 114 then Some CR
      else if d = 116 then Some TAB
      else if d = BSLASH then Some BSLASH
      else if d = 34 then Some 34
      else if d = 48 then Some 0
      else None)"

fun unescape :: "bytes \<Rightarrow> bytes \<Rightarrow> bytes res" where
  "unescape [] out = Inr out"
| "unescape (c # cs) out =
     (if c = BSLASH then
        (case cs of
           [] \<Rightarrow> Inl (ERefs ''blob: trailing backslash'')
         | d # ds \<Rightarrow> (case escaped d of
              None \<Rightarrow> Inl (ERefs ''blob: unsupported escape'')
            | Some x \<Rightarrow> unescape ds (out @ [x])))
      else unescape cs (out @ [c]))"

definition parse_toml_string :: "bytes \<Rightarrow> bytes res" where
  "parse_toml_string s0 =
     (let s = trim s0 in
      if length s < 2 \<or> hd s \<noteq> 34 \<or> last s \<noteq> 34 then Inl (ERefs ''blob: not a quoted string'')
      else unescape (butlast (tl s)) [])"

function array_loop :: "bytes \<Rightarrow> bool \<Rightarrow> bool \<Rightarrow> bytes \<Rightarrow> bytes list \<Rightarrow> bytes list res" where
  "array_loop s in_str escape buf out =
     (case s of
        [] \<Rightarrow> (if trim buf = [] then Inr out
               else (case parse_toml_string (trim buf) of Inl e \<Rightarrow> Inl e | Inr x \<Rightarrow> Inr (out @ [x])))
      | c # cs \<Rightarrow>
          if escape then array_loop cs in_str False (buf @ [c]) out
          else if in_str then array_loop cs (c \<noteq> 34) (c = BSLASH) (buf @ [c]) out
          else if c = 34 then array_loop cs True False (buf @ [c]) out
          else if c = 44 then
            (case parse_toml_string (trim buf) of
               Inl e \<Rightarrow> Inl e
             | Inr x \<Rightarrow> array_loop cs False False [] (out @ [x]))
          else if ws_len s \<noteq> 0 then array_loop (drop (ws_len s) s) False False buf out
          else array_loop cs False False (buf @ [c]) out)"
  by pat_completeness auto
termination
  by (relation "measure (\<lambda>(s, _). length s)") (auto dest: drop_ws_len)

declare array_loop.simps [simp del]

definition parse_toml_string_array :: "bytes \<Rightarrow> bytes list res" where
  "parse_toml_string_array s0 =
     (let s = trim s0 in
      if s = ascii ''[]'' then Inr []
      else if s = [] \<or> hd s \<noteq> 91 \<or> last s \<noteq> 93 then Inl (ERefs ''blob: not an array'')
      else array_loop (butlast (tl s)) False False [] [])"

fun u64_tokens :: "bytes list \<Rightarrow> 64 word list res" where
  "u64_tokens [] = Inr []"
| "u64_tokens (tok # toks) =
     (let t = trim tok in
      if t = [] then u64_tokens toks
      else (case parse_uint 10 U64_LIMIT t of
              None \<Rightarrow> Inl (ERefs ''blob: invalid u64 in array'')
            | Some n \<Rightarrow> (case u64_tokens toks of Inl e \<Rightarrow> Inl e | Inr ns \<Rightarrow> Inr (word_of_nat n # ns))))"

definition parse_toml_u64_array :: "bytes \<Rightarrow> 64 word list res" where
  "parse_toml_u64_array s0 =
     (let s = trim s0 in
      if s = ascii ''[]'' then Inr []
      else if s = [] \<or> hd s \<noteq> 91 \<or> last s \<noteq> 93 then Inl (ERefs ''blob: not an array'')
      else u64_tokens (split_char 44 (butlast (tl s))))"

text \<open>One turn of the loop over the lines of a blob: a blank or comment line, the opening of an event, or a
  field.\<close>

datatype toml_item = Skip | Event_Start | Field bytes bytes

definition toml_line :: "bytes \<Rightarrow> toml_item res" where
  "toml_line raw =
     (let line = trim raw in
      if line = [] \<or> hd line = 35 then Inr Skip
      else if line = ascii ''[[event]]'' then Inr Event_Start
      else (case split_once [61] line of
              None \<Rightarrow> Inl (ERefs ''blob: malformed line'')
            | Some (key, val) \<Rightarrow> Inr (Field (trim key) (trim val))))"

text \<open>A \<open>BTreeMap\<close> with string keys is a list of pairs with strictly ascending keys.\<close>

fun btree_insert :: "bytes \<Rightarrow> 'v \<Rightarrow> (bytes \<times> 'v) list \<Rightarrow> (bytes \<times> 'v) list" where
  "btree_insert k v [] = [(k, v)]"
| "btree_insert k v ((k', v') # m) =
     (if k < k' then (k, v) # (k', v') # m
      else if k = k' then (k, v) # m
      else (k', v') # btree_insert k v m)"

lemma btree_insert_last: "\<forall>kv \<in> set m. fst kv < k \<Longrightarrow> btree_insert k v m = m @ [(k, v)]"
  by (induction m) auto

section \<open>Limits\<close>

definition SCHEMA_VERSION :: nat where "SCHEMA_VERSION = 1"
definition TS_MIN :: int where "TS_MIN = 0"
definition TS_MAX :: int where "TS_MAX = 4102444800"
definition TITLE_MAX_BYTES :: nat where "TITLE_MAX_BYTES = 1024"
definition BODY_MAX_BYTES :: nat where "BODY_MAX_BYTES = 65536"
definition AUTHOR_MAX_BYTES :: nat where "AUTHOR_MAX_BYTES = 256"
definition REASON_MAX_BYTES :: nat where "REASON_MAX_BYTES = 1024"
definition ARRAY_ENTRY_MAX_BYTES :: nat where "ARRAY_ENTRY_MAX_BYTES = 256"
definition ARRAY_MAX_ENTRIES :: nat where "ARRAY_MAX_ENTRIES = 256"
definition MENTIONS_MAX_ENTRIES :: nat where "MENTIONS_MAX_ENTRIES = 1024"
definition EVENTS_MAX :: nat where "EVENTS_MAX = 100000"

definition check_text_field :: "bytes \<Rightarrow> nat \<Rightarrow> unit res" where
  "check_text_field s max_bytes =
     (if length s > max_bytes then Inl (ERefs ''too long'')
      else if list_ex (\<lambda>b. b = 127 \<or> b < 32 \<and> b \<noteq> NL \<and> b \<noteq> CR \<and> b \<noteq> TAB) s
      then Inl (ERefs ''contains forbidden control byte'')
      else Inr ())"

definition check_ts :: "64 word \<Rightarrow> unit res" where
  "check_ts ts = (if TS_MIN \<le> sint ts \<and> sint ts \<le> TS_MAX then Inr () else Inl (ERefs ''timestamp out of range''))"

fun check_each :: "bytes list \<Rightarrow> nat \<Rightarrow> unit res" where
  "check_each [] entry_max_bytes = Inr ()"
| "check_each (s # xs) entry_max_bytes =
     (case check_text_field s entry_max_bytes of Inl e \<Rightarrow> Inl e | Inr _ \<Rightarrow> check_each xs entry_max_bytes)"

definition check_array :: "bytes list \<Rightarrow> nat \<Rightarrow> nat \<Rightarrow> unit res" where
  "check_array xs max_entries entry_max_bytes =
     (if length xs > max_entries then Inl (ERefs ''too many entries'') else check_each xs entry_max_bytes)"

text \<open>A sequence of checks with \<open>?\<close> after each: the first error is the result.\<close>

fun all_checks :: "unit res list \<Rightarrow> unit res" where
  "all_checks [] = Inr ()"
| "all_checks (c # cs) = (case c of Inl e \<Rightarrow> Inl e | Inr _ \<Rightarrow> all_checks cs)"

lemma all_checks_Inr: "all_checks cs = Inr () \<longleftrightarrow> (\<forall>c \<in> set cs. c = Inr ())"
  by (induction cs) (auto split: sum.splits)

definition map_res :: "'a res \<Rightarrow> ('a \<Rightarrow> 'b) \<Rightarrow> 'b res" where
  "map_res r f = (case r of Inl e \<Rightarrow> Inl e | Inr x \<Rightarrow> Inr (f x))"

lemma map_res_simps [simp]: "map_res (Inl e) f = Inl e" "map_res (Inr x) f = Inr (f x)"
  by (simp_all add: map_res_def)

text \<open>The part of \<open>validate_extends\<close> the three record kinds share: no event disappears or changes, and the
  timestamps do not go back.\<close>

fun events_kept :: "'e list \<Rightarrow> 'e list \<Rightarrow> nat \<Rightarrow> unit res" where
  "events_kept [] new i = Inr ()"
| "events_kept (oe # old) new i =
     (if \<not> (i < length new \<and> new ! i = oe) then Inl (ERefs ''rewind: event was modified'') else events_kept old new (i + 1))"

fun ts_monotonic :: "('e \<Rightarrow> 64 word) \<Rightarrow> 'e list \<Rightarrow> unit res" where
  "ts_monotonic ts (a # b # es) =
     (if sint (ts b) < sint (ts a) then Inl (ERefs ''event ts not monotonic'') else ts_monotonic ts (b # es))"
| "ts_monotonic ts _ = Inr ()"

definition events_extend :: "('e \<Rightarrow> 64 word) \<Rightarrow> 'e list \<Rightarrow> 'e list \<Rightarrow> unit res" where
  "events_extend ts old new =
     (if length new < length old then Inl (ERefs ''rewind: event count decreased'')
      else (case events_kept old new 0 of Inl e \<Rightarrow> Inl e | Inr _ \<Rightarrow> ts_monotonic ts new))"

lemma events_kept_Inr: "events_kept old new i = Inr () \<longleftrightarrow> prefix old (drop i new)"
proof (induction old arbitrary: i)
  case (Cons e old)
  show ?case
  proof (cases "i < length new")
    case True
    then have "drop i new = new ! i # drop (Suc i) new" by (rule Cons_nth_drop_Suc [symmetric])
    with Cons True show ?thesis by auto
  qed auto
qed simp

lemma ts_monotonic_Inr: "ts_monotonic ts es = Inr () \<longleftrightarrow> sorted (map (sint \<circ> ts) es)"
  by (induction ts es rule: ts_monotonic.induct) (auto simp: sorted2)

lemma events_extend_Inr:
  "events_extend ts old new = Inr () \<longleftrightarrow> prefix old new \<and> sorted (map (sint \<circ> ts) new)"
  using events_kept_Inr [of old new 0] ts_monotonic_Inr [of ts new]
  by (cases "events_kept old new 0") (auto simp: events_extend_def dest: prefix_length_le)

section \<open>Round trips\<close>

definition printable :: "(bytes \<Rightarrow> bool) \<Rightarrow> bytes \<Rightarrow> bool" where
  \<comment> \<open>no character of the text is written as a \<open>\u\<close> escape\<close>
  "printable U s \<longleftrightarrow> valid_utf8 s
     \<and> (\<forall>c \<in> set (chars s). if hd c < 0x80 then c \<in> {[TAB], [CR], [NL]} \<or> 32 \<le> hd c \<and> hd c \<noteq> 127 else \<not> U c)"

definition good_char :: "(bytes \<Rightarrow> bool) \<Rightarrow> bytes \<Rightarrow> bool" where
  "good_char U c \<longleftrightarrow> c \<in> {[TAB], [CR], [NL]} \<or> (\<exists>b. c = [b] \<and> 32 \<le> b \<and> b < 127) \<or> wide c \<and> \<not> U c"

lemma printable_good: "printable U s \<Longrightarrow> c \<in> set (chars s) \<Longrightarrow> good_char U c"
proof -
  assume p: "printable U s" "c \<in> set (chars s)"
  have "(b::byte) < 127" if "b < 0x80" "b \<noteq> 127" for b
    using that by (simp add: word_less_nat_alt word_unat_eq_iff)
  moreover from p have "valid_utf8 s"
      "if hd c < 0x80 then c \<in> {[TAB], [CR], [NL]} \<or> 32 \<le> hd c \<and> hd c \<noteq> 127 else \<not> U c"
    unfolding printable_def by (simp, blast)
  moreover have "\<not> hd c < 0x80" if "wide c" using that hd_in_set [of c] by (simp add: wide_def linorder_not_less)
  ultimately show ?thesis using chars_cases [of s c] p(2) by (auto simp: good_char_def)
qed

lemma wide_bytes: "wide c \<Longrightarrow> b \<in> set c \<Longrightarrow> 0x80 \<le> b" "wide c \<Longrightarrow> 0x80 \<le> hd c"
  by (auto simp: wide_def)

lemma debug_char_good:
  assumes "good_char U c"
  obtains (esc) d x where "debug_char U c = [BSLASH, d]" "escaped d = Some x" "c = [x]" "d < 0x80" "33 \<le> d"
  | (same) "debug_char U c = c" "BSLASH \<notin> set c" "34 \<notin> set c" "\<forall>b \<in> set c. 32 \<le> b" "valid_utf8 c"
proof (cases "c \<in> {[TAB], [CR], [NL], [34], [BSLASH]}")
  case True
  then show thesis using esc by (auto simp: debug_char_def escaped_def)
next
  case False
  have "debug_char U c = c \<and> BSLASH \<notin> set c \<and> 34 \<notin> set c \<and> (\<forall>b \<in> set c. 32 \<le> b) \<and> valid_utf8 c"
  proof (cases "wide c")
    case True
    have "0 \<notin> set c" "BSLASH \<notin> set c" "34 \<notin> set c" using wide_bytes(1) [OF True] by fastforce+
    moreover have "\<forall>b \<in> set c. 32 \<le> b" using wide_bytes(1) [OF True] by (rule_tac ballI, rule_tac order_trans [of _ "0x80"]) simp_all
    moreover have "\<not> hd c < 0x80" using wide_bytes(2) [OF True] by (simp add: linorder_not_less)
    moreover have "valid_utf8 c" using True by (simp add: wide_def)
    moreover have "\<not> U c"
    proof
      assume "U c"
      with assms False obtain b where b: "c = [b]" "b < 127" by (auto simp: good_char_def)
      from b(1) wide_bytes(2) [OF True] have "127 \<le> b" by (rule_tac order_trans [of _ "0x80"]) simp_all
      with b(2) show False by simp
    qed
    ultimately show ?thesis using False by (auto simp: debug_char_def)
  next
    case n: False
    with assms False have "\<exists>b. c = [b] \<and> 32 \<le> b \<and> b < 127" by (auto simp: good_char_def)
    then obtain b where b: "c = [b]" "32 \<le> b" "b < 127" by blast
    have "b < 0x80" using b(3) less_trans [of b 127 "0x80"] by simp
    moreover have "b \<noteq> 127" using b(3) by (rule less_imp_neq)
    moreover have "b \<noteq> 0" using b(2) by (rule_tac notI) simp
    moreover have "\<not> b < 32" using b(2) by (simp only: linorder_not_less)
    ultimately have "b < 0x80" "b \<noteq> 127" "b \<noteq> 0" "\<not> b < 32" by blast+
    with b False show ?thesis by (simp add: debug_char_def valid_utf8_low)
  qed
  then show thesis using same by blast
qed

lemma unescape_plain: "BSLASH \<notin> set c \<Longrightarrow> unescape (c @ rest) out = unescape rest (out @ c)"
  by (induction c arbitrary: out) auto

lemma unescape_char: "good_char U c \<Longrightarrow> unescape (debug_char U c @ rest) out = unescape rest (out @ c)"
  by (erule debug_char_good) (simp_all add: unescape_plain)

lemma unescape_text: "\<forall>c \<in> set cs. good_char U c \<Longrightarrow> unescape (concat (map (debug_char U) cs)) out = Inr (out @ concat cs)"
  by (induction cs arbitrary: out) (simp_all add: unescape_char)

lemma debug_str_ends: "debug_str U s \<noteq> []" "hd (debug_str U s) = 34" "last (debug_str U s) = 34" "solid 34"
  by (simp_all add: debug_str_def solid_def)

lemma parse_debug_str: "printable U s \<Longrightarrow> parse_toml_string (debug_str U s) = Inr s"
proof -
  assume p: "printable U s"
  have "trim (debug_str U s) = debug_str U s" by (simp add: trim_solid debug_str_ends)
  moreover have "unescape (concat (map (debug_char U) (chars s))) [] = Inr s"
    using unescape_text [of "chars s" U "[]"] printable_good [OF p] by (simp add: concat_chars)
  ultimately show ?thesis by (simp add: parse_toml_string_def debug_str_def)
qed

lemma array_step:
  "array_loop (c # s) b True buf out = array_loop s b False (buf @ [c]) out"
  "array_loop (c # s) True False buf out = array_loop s (c \<noteq> 34) (c = BSLASH) (buf @ [c]) out"
  "array_loop (34 # s) False False buf out = array_loop s True False (buf @ [34]) out"
  "array_loop (44 # s) False False buf out =
     (case parse_toml_string (trim buf) of Inl e \<Rightarrow> Inl e | Inr x \<Rightarrow> array_loop s False False [] (out @ [x]))"
  "array_loop (SP # s) False False buf out = array_loop s False False buf out"
  by (simp_all add: array_loop.simps ws_len_def byte_in_def)

lemma array_plain:
  "BSLASH \<notin> set c \<Longrightarrow> 34 \<notin> set c \<Longrightarrow> array_loop (c @ rest) True False buf out = array_loop rest True False (buf @ c) out"
  by (induction c arbitrary: buf) (auto simp: array_step)

lemma array_char:
  "good_char U c \<Longrightarrow> array_loop (debug_char U c @ rest) True False buf out = array_loop rest True False (buf @ debug_char U c) out"
  by (erule debug_char_good) (simp_all add: array_step array_plain)

lemma array_text:
  "\<forall>c \<in> set cs. good_char U c \<Longrightarrow>
     array_loop (concat (map (debug_char U) cs) @ rest) True False buf out =
     array_loop rest True False (buf @ concat (map (debug_char U) cs)) out"
  by (induction cs arbitrary: buf) (simp_all add: array_char)

lemma array_quoted:
  "printable U s \<Longrightarrow> array_loop (debug_str U s @ rest) False False buf out = array_loop rest False False (buf @ debug_str U s) out"
  by (simp add: debug_str_def array_step array_text printable_good)

lemma trim_debug_str: "trim (debug_str U s) = debug_str U s"
  by (simp add: trim_solid debug_str_ends)

lemma array_items:
  "xs \<noteq> [] \<Longrightarrow> \<forall>x \<in> set xs. printable U x \<Longrightarrow>
     array_loop (join [44, SP] (map (debug_str U) xs)) False False [] out = Inr (out @ xs)"
proof (induction xs arbitrary: out rule: induct_list012)
  case (2 x)
  then show ?case
    using array_quoted [of U x "[]" "[]" out]
    by (simp add: array_loop.simps [of "[]"] trim_debug_str parse_debug_str debug_str_ends)
next
  case (3 x y xs)
  then show ?case by (simp add: array_quoted array_step trim_debug_str parse_debug_str)
qed simp

lemma join_nonempty: "xs \<noteq> [] \<Longrightarrow> \<forall>x \<in> set xs. x \<noteq> [] \<Longrightarrow> join sep xs \<noteq> []"
  by (induction sep xs rule: join.induct) auto

lemma bracketed: "trim (91 # s @ [93]) = 91 # s @ [93]"
  by (rule trim_solid) (simp_all add: solid_def)

lemma parse_string_array: "\<forall>x \<in> set xs. printable U x \<Longrightarrow> parse_toml_string_array (toml_string_array U xs) = Inr xs"
proof (cases "xs = []")
  case True
  then show ?thesis using bracketed [of "[]"] by (simp add: parse_toml_string_array_def toml_string_array_def)
next
  case False
  assume p: "\<forall>x \<in> set xs. printable U x"
  have "join [44, SP] (map (debug_str U) xs) \<noteq> []" using False by (intro join_nonempty) (simp_all add: debug_str_ends)
  with False array_items [OF False p, of "[]"] show ?thesis
    by (simp add: parse_toml_string_array_def toml_string_array_def bracketed)
qed

definition number_text :: "64 word \<Rightarrow> bytes" where
  "number_text x = to_radix 10 (unat x)"

lemma number_text_solid: "b \<in> set (number_text x) \<Longrightarrow> solid b \<and> b \<noteq> 44 \<and> b < 0x80 \<and> b \<noteq> NL \<and> b \<noteq> CR"
proof -
  assume "b \<in> set (number_text x)"
  then have "48 \<le> b \<and> b \<le> 57" using to_radix_digits [of 10 "unat x"] by (simp add: number_text_def)
  then show ?thesis by (auto simp: solid_def word_le_nat_alt word_less_nat_alt)
qed

lemma number_text_ends: "number_text x \<noteq> []" "solid (hd (number_text x))" "solid (last (number_text x))"
proof -
  show "number_text x \<noteq> []" by (simp add: number_text_def)
  then show "solid (hd (number_text x))" "solid (last (number_text x))"
    using number_text_solid [of _ x] by (metis hd_in_set, metis last_in_set)
qed

lemma parse_number: "parse_uint 10 U64_LIMIT (number_text x) = Some (unat x)"
  unfolding number_text_def by (rule parse_uint_to_radix) (use unsigned_less [of x] in \<open>simp_all add: U64_LIMIT_def\<close>)

lemma number_text_no_comma: "44 \<notin> set (number_text x)"
  using number_text_solid [of 44 x] by blast

lemma u64_items:
  "xs \<noteq> [] \<Longrightarrow> pre = [] \<or> pre = [SP] \<Longrightarrow>
     u64_tokens (split_char 44 (pre @ join [44, SP] (map number_text xs))) = Inr xs"
proof (induction xs arbitrary: pre rule: induct_list012)
  case (2 x)
  have "44 \<notin> set (pre @ number_text x)" using "2.prems" number_text_no_comma by auto
  moreover have "trim (pre @ number_text x) = number_text x"
    using "2.prems" by (auto simp: trim_solid trim_sp_left number_text_ends)
  ultimately show ?case by (simp add: split_char_piece number_text_ends parse_number)
next
  case (3 x y xs)
  let ?r = "[SP] @ join [44, SP] (map number_text (y # xs))"
  have "44 \<notin> set (pre @ number_text x)" using "3.prems" number_text_no_comma by auto
  then have "split_char 44 ((pre @ number_text x) @ 44 # ?r) = (pre @ number_text x) # split_char 44 ?r"
    by (rule split_char_append)
  moreover have "trim (pre @ number_text x) = number_text x"
    using "3.prems" by (auto simp: trim_solid trim_sp_left number_text_ends)
  ultimately show ?case using "3.IH"(2) [of "[SP]"] by (simp add: number_text_ends parse_number)
qed simp

lemma parse_u64_array: "parse_toml_u64_array (toml_u64_array xs) = Inr xs"
proof (cases "xs = []")
  case True
  then show ?thesis using bracketed [of "[]"] by (simp add: parse_toml_u64_array_def toml_u64_array_def)
next
  case False
  have "join [44, SP] (map number_text xs) \<noteq> []" using False by (intro join_nonempty) (simp_all add: number_text_ends)
  with False u64_items [OF False, of "[]"] show ?thesis
    by (simp add: parse_toml_u64_array_def toml_u64_array_def bracketed flip: number_text_def)
qed

section \<open>Lines\<close>

definition key_name :: "bytes \<Rightarrow> bool" where
  "key_name k \<longleftrightarrow> k \<noteq> [] \<and> (\<forall>b \<in> set k. solid b \<and> b \<noteq> 61) \<and> hd k \<noteq> 35 \<and> hd k \<noteq> 91"

definition value_ok :: "bytes \<Rightarrow> bool" where
  "value_ok v \<longleftrightarrow> v \<noteq> [] \<and> solid (hd v) \<and> solid (last v) \<and> NL \<notin> set v \<and> valid_utf8 v"

lemma toml_line_field: "key_name k \<Longrightarrow> value_ok v \<Longrightarrow> toml_line (field_line k v) = Inr (Field k v)"
proof -
  assume k: "key_name k" and v: "value_ok v"
  let ?l = "field_line k v"
  have l: "?l \<noteq> []" "hd ?l = hd k" "last ?l = last v" using k v by (simp_all add: field_line_def key_name_def value_ok_def)
  have s: "solid (hd k)" "solid (last k)" using k by (simp_all add: key_name_def)
  have "trim ?l = ?l" using l s v by (intro trim_solid) (simp_all add: value_ok_def)
  moreover have "split_once [61] ?l = Some (k @ [SP], SP # v)"
    using split_once_char [of 61 "k @ [SP]" "SP # v"] k by (auto simp: field_line_def key_name_def)
  moreover have "?l \<noteq> ascii ''[[event]]''"
  proof
    assume "?l = ascii ''[[event]]''"
    then have "hd ?l = 91" by simp
    with l(2) k show False by (simp add: key_name_def)
  qed
  moreover have "trim (k @ [SP]) = k" "trim (SP # v) = v"
    using k s v by (simp_all add: trim_sp_right trim_sp_left key_name_def value_ok_def)
  ultimately show ?thesis using k l by (simp add: toml_line_def Let_def key_name_def del: ascii_Cons)
qed

lemma toml_line_event: "toml_line (ascii ''[[event]]'') = Inr Event_Start"
proof -
  have "trim (ascii ''[[event]]'') = ascii ''[[event]]''" by (rule trim_solid) (simp_all add: solid_def)
  then show ?thesis by (simp add: toml_line_def)
qed

lemma toml_line_blank: "toml_line [] = Inr Skip"
  by (simp add: toml_line_def trim_def trim_start.simps trim_end.simps ends_ws_def)

lemma toml_line_comment: "toml_line (ascii ''# generated by gyt; canonical ordering matters'') = Inr Skip"
proof -
  have "trim (ascii ''# generated by gyt; canonical ordering matters'') = ascii ''# generated by gyt; canonical ordering matters''"
    by (rule trim_solid) (simp_all add: solid_def)
  then show ?thesis by (simp add: toml_line_def)
qed

lemma solid_line: "solid b \<Longrightarrow> b \<noteq> NL \<and> b \<noteq> CR \<and> b < 0x80"
  by (auto simp: solid_def word_le_nat_alt word_less_nat_alt)

lemma field_line_ok: "key_name k \<Longrightarrow> value_ok v \<Longrightarrow> line_ok (field_line k v) \<and> valid_utf8 (field_line k v)"
proof -
  assume k: "key_name k" and v: "value_ok v"
  have "\<forall>b \<in> set k. b \<noteq> NL \<and> b < 0x80" using k solid_line by (auto simp: key_name_def)
  moreover from this have "valid_utf8 k" by (intro valid_utf8_ascii) blast
  moreover have "last v \<noteq> CR" using v solid_line [of "last v"] by (auto simp: value_ok_def)
  ultimately show ?thesis using v by (auto simp: field_line_def line_ok_def value_ok_def valid_utf8_append valid_utf8_low)
qed

lemma debug_char_line: "good_char U c \<Longrightarrow> NL \<notin> set (debug_char U c) \<and> valid_utf8 (debug_char U c)"
  by (erule debug_char_good) (auto simp: valid_utf8_low dest: bspec)

lemma debug_str_value: "printable U s \<Longrightarrow> value_ok (debug_str U s)"
proof -
  assume "printable U s"
  then have "\<forall>c \<in> set (chars s). good_char U c" by (blast intro: printable_good)
  then have "NL \<notin> set (concat (map (debug_char U) (chars s)))" "valid_utf8 (concat (map (debug_char U) (chars s)))"
    using debug_char_line by (fastforce, intro valid_utf8_concat) fastforce
  then show ?thesis by (simp add: value_ok_def debug_str_ends) (simp add: debug_str_def valid_utf8_low valid_utf8_append)
qed

lemma join_valid: "\<forall>x \<in> set xs. NL \<notin> set x \<and> valid_utf8 x \<Longrightarrow> NL \<notin> set (join [44, SP] xs) \<and> valid_utf8 (join [44, SP] xs)"
  by (induction "[44, SP] :: bytes" xs rule: join.induct) (auto simp: valid_utf8_append valid_utf8_low)

lemma bracketed_value: "NL \<notin> set s \<Longrightarrow> valid_utf8 s \<Longrightarrow> value_ok (91 # s @ [93])"
  by (simp add: value_ok_def solid_def valid_utf8_append valid_utf8_low)

lemma string_array_value: "\<forall>x \<in> set xs. printable U x \<Longrightarrow> value_ok (toml_string_array U xs)"
proof -
  assume "\<forall>x \<in> set xs. printable U x"
  then have "\<forall>x \<in> set (map (debug_str U) xs). NL \<notin> set x \<and> valid_utf8 x"
    using debug_str_value by (fastforce simp: value_ok_def)
  from join_valid [OF this] show ?thesis
    using bracketed_value [of "[]"] by (simp add: toml_string_array_def bracketed_value)
qed

lemma number_value: "value_ok (number_text x)"
  using number_text_solid [of _ x] valid_utf8_ascii [of "number_text x"] by (auto simp: value_ok_def number_text_ends)

lemma u64_array_value: "value_ok (toml_u64_array xs)"
proof -
  have "\<forall>x \<in> set (map number_text xs). NL \<notin> set x \<and> valid_utf8 x" using number_value by (auto simp: value_ok_def)
  from join_valid [OF this] show ?thesis
    using bracketed_value [of "[]"] by (simp add: toml_u64_array_def bracketed_value flip: number_text_def)
qed

section \<open>Whole texts\<close>

lemma ascii_inject [simp]: "ascii s = ascii t \<longleftrightarrow> s = t"
proof -
  have u: "unat (of_char c :: byte) = of_char c" for c
    using unat_of_nat [of "of_char c", where 'a = 8] by (simp add: of_nat_of_char)
  have "inj (of_char :: char \<Rightarrow> byte)" by (rule injI) (metis u of_char_eq_iff)
  then show ?thesis by (simp add: ascii_def inj_map_eq_map)
qed

definition plain_line :: "bytes \<Rightarrow> bool" where
  "plain_line l \<longleftrightarrow> NL \<notin> set l \<and> (l \<noteq> [] \<longrightarrow> last l \<noteq> CR) \<and> valid_utf8 l"

lemma str_lines_text: "\<forall>l \<in> set ls. plain_line l \<Longrightarrow> str_lines (text_lines ls) = ls"
proof (induction ls)
  case (Cons l ls)
  then have "str_lines (l @ NL # text_lines ls) = l # str_lines (text_lines ls)"
    by (intro str_lines_line) (auto simp: plain_line_def)
  with Cons show ?case by (simp add: text_lines_def)
qed (simp add: text_lines_def)

lemma valid_text_lines: "\<forall>l \<in> set ls. plain_line l \<Longrightarrow> valid_utf8 (text_lines ls)"
  unfolding text_lines_def by (intro valid_utf8_concat) (auto simp: plain_line_def valid_utf8_append valid_utf8_low)

lemma plain_field_line: "key_name k \<Longrightarrow> value_ok v \<Longrightarrow> plain_line (field_line k v)"
  using field_line_ok [of k v] by (simp add: plain_line_def line_ok_def)

lemma plain_line_Nil: "plain_line []"
  by (simp add: plain_line_def)

lemma plain_line_ascii: "list_all (\<lambda>b. b < 0x80 \<and> b \<noteq> NL \<and> b \<noteq> CR) l \<Longrightarrow> plain_line l"
  unfolding plain_line_def list_all_iff using last_in_set valid_utf8_ascii by blast

lemma chars_ascii: "\<forall>b \<in> set s. b < 0x80 \<Longrightarrow> chars s = map (\<lambda>b. [b]) s"
  by (induction s) (simp_all add: chars_low)

lemma printable_ascii: "list_all (\<lambda>b. b < 0x80 \<and> 32 \<le> b \<and> b \<noteq> 127) s \<Longrightarrow> printable U s"
  by (simp add: printable_def list_all_iff chars_ascii valid_utf8_ascii)

lemma print_i64_solid: "b \<in> set (print_i64 w) \<Longrightarrow> solid b \<and> b \<noteq> NL \<and> b < 0x80"
  using print_i64_plain [of b w] by (auto simp: solid_def word_le_nat_alt word_less_nat_alt)

lemma print_i64_nonempty: "print_i64 w \<noteq> []"
  by (simp add: print_i64_def)

lemma print_i64_value: "value_ok (print_i64 w)"
proof -
  have "solid (hd (print_i64 w))" "solid (last (print_i64 w))"
    using print_i64_solid [of _ w] print_i64_nonempty [of w] by (metis hd_in_set, metis last_in_set)
  moreover have "NL \<notin> set (print_i64 w)" "valid_utf8 (print_i64 w)"
    using print_i64_solid [of _ w] by (blast, intro valid_utf8_ascii) blast
  ultimately show ?thesis by (simp add: value_ok_def print_i64_nonempty)
qed

definition parse_ts :: "bytes \<Rightarrow> 64 word res" where
  "parse_ts s = (case parse_i64 s of None \<Rightarrow> Inl (ERefs ''blob: invalid ts'') | Some z \<Rightarrow> Inr (word_of_int z))"

definition parse_u64 :: "bytes \<Rightarrow> 64 word res" where
  "parse_u64 s = (case parse_uint 10 U64_LIMIT s of
     None \<Rightarrow> Inl (ERefs ''blob: invalid number'') | Some n \<Rightarrow> Inr (word_of_nat n))"

lemma parse_ts_print: "parse_ts (print_i64 w) = Inr w"
  by (simp add: parse_ts_def parse_print_i64)

lemma parse_u64_print: "parse_u64 (to_radix 10 (unat n)) = Inr n"
  using parse_number [of n] by (simp add: parse_u64_def number_text_def)

lemma number_line_value: "value_ok (to_radix 10 (unat (n :: 64 word)))"
  using number_value [of n] by (simp add: number_text_def)

definition word_chars :: string where
  "word_chars = ''abcdefghijklmnopqrstuvwxyz_''"

lemma word_chars_solid:
  "c \<in> set word_chars \<Longrightarrow> solid (of_char c) \<and> of_char c \<noteq> (61 :: byte) \<and> of_char c \<noteq> (35 :: byte) \<and> of_char c \<noteq> (91 :: byte)"
  unfolding word_chars_def by (auto simp: solid_def)

lemma key_name_word: "s \<noteq> [] \<Longrightarrow> set s \<subseteq> set word_chars \<Longrightarrow> key_name (ascii s)"
proof -
  assume s: "s \<noteq> []" "set s \<subseteq> set word_chars"
  have w: "solid b \<and> b \<noteq> 61 \<and> b \<noteq> 35 \<and> b \<noteq> 91" if "b \<in> set (ascii s)" for b
  proof -
    from that obtain c where c: "b = of_char c" "c \<in> set s" by (auto simp: ascii_def)
    with s(2) have "c \<in> set word_chars" by (rule_tac subsetD)
    from word_chars_solid [OF this] c(1) show ?thesis by simp
  qed
  have n: "ascii s \<noteq> []" using s(1) by (cases s) simp_all
  show ?thesis unfolding key_name_def using n w w [OF hd_in_set [OF n]] by simp
qed

lemma common_keys:
  "key_name (ascii ''kind'')" "key_name (ascii ''author'')" "key_name (ascii ''ts'')" "key_name (ascii ''body'')"
  "key_name (ascii ''add'')" "key_name (ascii ''remove'')" "key_name (ascii ''reason'')" "key_name (ascii ''schema_version'')"
  "key_name (ascii ''number'')" "key_name (ascii ''title'')" "key_name (ascii ''state'')" "key_name (ascii ''created_ts'')"
  "key_name (ascii ''labels'')" "key_name (ascii ''assignees'')" "key_name (ascii ''mentions'')"
  by (rule key_name_word; simp add: word_chars_def)+

lemma schema_version_line:
  "value_ok (to_radix 10 SCHEMA_VERSION)" "parse_uint 10 U32_LIMIT (to_radix 10 SCHEMA_VERSION) = Some SCHEMA_VERSION"
  using number_line_value [of 1] parse_uint_to_radix [of 10 1 U32_LIMIT] by (simp_all add: SCHEMA_VERSION_def U32_LIMIT_def)

lemmas toml_line_simps = toml_line_field toml_line_event toml_line_blank toml_line_comment common_keys schema_version_line
  debug_str_value string_array_value print_i64_value number_line_value u64_array_value
  parse_debug_str parse_string_array parse_u64_array parse_ts_print parse_u64_print

section \<open>Characters that are lost\<close>

text \<open>A \<open>\u\<close> escape is written but not read.\<close>

lemma hex_digit_solid: "d < 16 \<Longrightarrow> solid (hex_digit d)"
  by (simp add: hex_digit_def solid_def word_le_nat_alt unat_word_ariths unat_of_nat)

lemma to_hex_nat_solid: "b \<in> set (to_hex_nat n) \<Longrightarrow> solid b"
proof (induction n rule: to_hex_nat.induct)
  case (1 n)
  then show ?case
    by (subst (asm) to_hex_nat.simps) (auto simp: hex_digit_solid split: if_splits)
qed

definition escaped_text :: "bytes \<Rightarrow> bytes" where
  "escaped_text c = 34 # unicode_escape c @ [34]"

lemma escaped_text_value: "value_ok (escaped_text c)"
proof -
  have "\<forall>b \<in> set (escaped_text c). solid b"
    using to_hex_nat_solid by (auto simp: escaped_text_def unicode_escape_def solid_def)
  then have b: "\<forall>b \<in> set (escaped_text c). b \<noteq> NL \<and> b < 0x80" using solid_line by blast
  then have "valid_utf8 (escaped_text c)" by (intro valid_utf8_ascii) blast
  with b show ?thesis by (auto simp: value_ok_def escaped_text_def solid_def)
qed

lemma parse_escaped_text: "parse_toml_string (escaped_text c) = Inl (ERefs ''blob: unsupported escape'')"
proof -
  have "trim (escaped_text c) = escaped_text c" by (rule trim_solid) (simp_all add: escaped_text_def solid_def)
  then show ?thesis by (simp add: parse_toml_string_def escaped_text_def unicode_escape_def escaped_def)
qed

lemma debug_escaped: "chars s = [c] \<Longrightarrow> wide c \<Longrightarrow> U c \<Longrightarrow> debug_str U s = escaped_text c"
proof -
  assume c: "chars s = [c]" "wide c" "U c"
  have "\<not> hd c < 0x80" using wide_bytes(2) [OF c(2)] by (simp add: linorder_not_less)
  moreover have n: "b \<notin> set c" if "b < 0x80" for b using wide_bytes(1) [OF c(2), of b] that by (auto simp: linorder_not_le [symmetric])
  have "c \<noteq> [0]" "c \<noteq> [TAB]" "c \<noteq> [CR]" "c \<noteq> [NL]" "c \<noteq> [34]" "c \<noteq> [BSLASH]"
    using n [of 0] n [of TAB] n [of CR] n [of NL] n [of 34] n [of BSLASH] by auto
  ultimately show ?thesis using c by (simp add: debug_str_def escaped_text_def debug_char_def)
qed

end
