(* ===== verification/Metadata.thy ===== *)
theory Metadata
  imports Toml Refs Store_View
begin

text \<open>
  How \<open>src/issues.rs\<close>, \<open>src/prs.rs\<close> and \<open>src/incidents.rs\<close> keep their records: one ref per record that points
  to a blob, and a counter file for the next number. The three files repeat these functions word for word, with
  their own ref prefix, counter path, codec and checks; here they are written once over those arguments and
  each record theory instantiates them.
\<close>

definition next_number :: "bytes \<Rightarrow> fs \<Rightarrow> fpath \<Rightarrow> fpath \<Rightarrow> 64 word res \<times> fs" where
  "next_number nonce fs gyt counter_path =
     (let p = gyt @ counter_path in
      case create_dir_all fs (butlast p) of
        (Inl e, fs1) \<Rightarrow> (Inl e, fs1)
      | (Inr _, fs1) \<Rightarrow>
        (case (if path_exists fs1 p
               then (case read_all fs1 p of
                       Inl e \<Rightarrow> Inl e
                     | Inr body \<Rightarrow>
                       if \<not> valid_utf8 body then Inl (ERefs ''counter is not utf-8'')
                       else (case parse_uint 10 U64_LIMIT (trim body) of
                               None \<Rightarrow> Inl (ERefs ''counter is not a number'')
                             | Some n \<Rightarrow> Inr n))
               else Inr 1) of
           Inl e \<Rightarrow> (Inl e, fs1)
         | Inr next \<Rightarrow>
           if next + 1 \<ge> U64_LIMIT then (Inl (ERefs ''counter overflow''), fs1)
           else (case atomic_write nonce fs1 p (to_radix 10 (next + 1) @ [NL]) of
                   (Inl e, fs2) \<Rightarrow> (Inl e, fs2)
                 | (Inr _, fs2) \<Rightarrow> (Inr (word_of_nat next), fs2))))"

definition ref_name :: "bytes \<Rightarrow> 64 word \<Rightarrow> bytes" where
  "ref_name refs_prefix n = refs_prefix @ [SLASH] @ to_radix 10 (unat n)"

definition read_record_blob :: "reader \<Rightarrow> (bytes \<Rightarrow> 'a res) \<Rightarrow> object_id \<Rightarrow> 'a res" where
  "read_record_blob rd dec i =
     (case rd i of
        Inl e \<Rightarrow> Inl e
      | Inr obj \<Rightarrow> if obj_kind obj \<noteq> Blob then Inl (ERefs ''blob expected'') else dec (obj_payload obj))"

definition read_record ::
  "fs \<Rightarrow> reader \<Rightarrow> fpath \<Rightarrow> bytes \<Rightarrow> (bytes \<Rightarrow> 'a res) \<Rightarrow> ('a \<Rightarrow> 64 word) \<Rightarrow> 64 word \<Rightarrow> 'a res" where
  "read_record fs rd gyt refs_prefix dec number n =
     (case read_ref fs gyt (ref_name refs_prefix n) of
        Inl (ERefs _) \<Rightarrow> Inl (ENotFound ''record'')
      | Inl e \<Rightarrow> Inl e
      | Inr i \<Rightarrow>
        (case read_record_blob rd dec i of
           Inl e \<Rightarrow> Inl e
         | Inr x \<Rightarrow> if number x \<noteq> n then Inl (ERefs ''blob claims another number'') else Inr x))"

definition write_record ::
  "xz_lib \<Rightarrow> (bytes \<Rightarrow> bytes) \<Rightarrow> bytes \<Rightarrow> bytes \<Rightarrow> fs \<Rightarrow> fpath \<Rightarrow> bytes \<Rightarrow> ('a \<Rightarrow> unit res) \<Rightarrow> ('a \<Rightarrow> bytes) \<Rightarrow> ('a \<Rightarrow> 64 word)
     \<Rightarrow> 'a \<Rightarrow> object_id res run \<times> fs" where
  "write_record X H nonce nonce' fs gyt refs_prefix val enc number x =
     (case val x of
        Inl e \<Rightarrow> (Return (Inl e), fs)
      | Inr _ \<Rightarrow>
        (case write_bytes X H nonce fs gyt Blob (enc x) of
           (Return (Inr i), fs1) \<Rightarrow>
             (case write_ref nonce' fs1 gyt (ref_name refs_prefix (number x)) i of
                (Inl e, fs2) \<Rightarrow> (Return (Inl e), fs2)
              | (Inr _, fs2) \<Rightarrow> (Return (Inr i), fs2))
         | r \<Rightarrow> r))"

fun read_records :: "reader \<Rightarrow> (bytes \<Rightarrow> 'a res) \<Rightarrow> (bytes \<times> object_id) list \<Rightarrow> 'a list" where
  "read_records rd dec [] = []"
| "read_records rd dec ((_, i) # refs) =
     (case read_record_blob rd dec i of Inl _ \<Rightarrow> read_records rd dec refs | Inr x \<Rightarrow> x # read_records rd dec refs)"

definition list_records ::
  "fs \<Rightarrow> reader \<Rightarrow> fpath \<Rightarrow> bytes \<Rightarrow> (bytes \<Rightarrow> 'a res) \<Rightarrow> ('a \<Rightarrow> 64 word) \<Rightarrow> 'a list res" where
  "list_records fs rd gyt refs_prefix dec number =
     (case list_refs fs gyt refs_prefix of
        Inl e \<Rightarrow> Inl e
      | Inr refs \<Rightarrow> Inr (sort_key (unat \<circ> number) (read_records rd dec refs)))"

section \<open>Reading back a written record\<close>

lemma path_for_not_ref: "prefix (ascii ''refs/'') name \<Longrightarrow> path_for gyt i \<noteq> join_name gyt name"
  and path_for_not_ref_tmp: "prefix (ascii ''refs/'') name \<Longrightarrow> path_for gyt i \<noteq> tmp_path (join_name gyt name) nonce"
proof -
  assume "prefix (ascii ''refs/'') name"
  then obtain rest where n: "name = ascii ''refs'' @ SLASH # rest" by (auto simp: prefix_def)
  have s: "split_char SLASH name = ascii ''refs'' # split_char SLASH rest"
    unfolding n by (rule split_char_append) simp
  then show "path_for gyt i \<noteq> join_name gyt name" by (simp add: path_for_def join_name_def Let_def)
  have "tmp_path (join_name gyt name) nonce
      = gyt @ ascii ''refs'' # butlast (split_char SLASH rest) @ [tmp_name (last (split_char SLASH rest)) nonce]"
    by (simp add: tmp_path_def join_name_def s butlast_append del: ascii_Cons)
  then show "path_for gyt i \<noteq> tmp_path (join_name gyt name) nonce" by (simp add: path_for_def Let_def)
qed

lemma write_ref_keeps_objects:
  assumes "write_ref nonce fs gyt name i = (Inr u, fs')" "prefix (ascii ''refs/'') name" "fs_get fs (path_for gyt j) \<noteq> None"
  shows "fs_get fs' (path_for gyt j) = fs_get fs (path_for gyt j)"
proof -
  have w: "atomic_write_with_mode nonce fs (join_name gyt name) (to_hex i @ [NL]) (default_mode_for (join_name gyt name)) = (Inr u, fs')"
    using assms(1) by (auto simp: write_ref_def ref_path_def atomic_write_def split: sum.splits)
  from atomic_write_ok(2) [OF w join_name_nonempty path_for_not_ref [OF assms(2), of gyt j] path_for_not_ref_tmp [OF assms(2), of gyt j]] assms(3)
  show ?thesis by auto
qed

lemma write_ref_reads:
  assumes "write_ref nonce fs gyt name i = (Inr u, fs')" "wf_id i"
  shows "read_ref fs' gyt name = Inr i"
proof -
  have v: "validate_ref_name name = Inr ()"
    and w: "atomic_write_with_mode nonce fs (join_name gyt name) (to_hex i @ [NL]) (default_mode_for (join_name gyt name)) = (Inr u, fs')"
    using assms(1) by (auto simp: write_ref_def ref_path_def atomic_write_def split: sum.splits)
  from atomic_write_ok(1) [OF w join_name_nonempty] v assms(2) show ?thesis by (simp add: read_ref_Inr ref_text)
qed

text \<open>The interface of a kind of record: its codec, its checks, its number and its append-only rule.\<close>

locale ledger =
  fixes val :: "'a \<Rightarrow> unit res" and enc :: "'a \<Rightarrow> bytes" and dec :: "bytes \<Rightarrow> 'a res"
    and number :: "'a \<Rightarrow> 64 word" and readable :: "'a \<Rightarrow> bool"
    and ext :: "'a \<Rightarrow> 'a \<Rightarrow> unit res" and evs :: "'a \<Rightarrow> 'e list"
  assumes dec_enc: "val x = Inr () \<Longrightarrow> readable x \<Longrightarrow> dec (enc x) = Inr x"
    and dec_val: "dec b = Inr x \<Longrightarrow> val x = Inr ()"
    and ext_number: "ext x y = Inr () \<Longrightarrow> number y = number x"
    and ext_prefix: "ext x y = Inr () \<Longrightarrow> prefix (evs x) (evs y)"
begin

lemma write_read:
  assumes "xz_lossless X" "digest32 H" "length (build_raw Blob (enc x)) \<le> MAX_DECOMPRESSED_BYTES"
    "\<not> path_exists fs (path_for gyt (hash_bytes H (build_raw Blob (enc x))))"
    "prefix (ascii ''refs/'') pre" "readable x"
    "write_record X H nonce nonce' fs gyt pre val enc number x = (Return (Inr i), fs')"
  shows "read_record fs' (store_read E X H fs' gyt) gyt pre dec number (number x) = Inr x"
proof -
  let ?n = "ref_name pre (number x)"
  from assms(7) obtain fs1 where v: "val x = Inr ()"
    and b: "write_bytes X H nonce fs gyt Blob (enc x) = (Return (Inr i), fs1)"
    and r: "write_ref nonce' fs1 gyt ?n i = (Inr (), fs')"
    by (auto simp: write_record_def split: sum.splits prod.splits run.splits)
  note h = write_bytes_holds [OF assms(1,3,4) b]
  have p: "prefix (ascii ''refs/'') ?n" using assms(5) by (auto simp: ref_name_def prefix_def)
  have "holds_object X H fs' gyt Blob (enc x)"
    using h(2) write_ref_keeps_objects [OF r p] by (rule holds_object_keep)
  then have "store_read E X H fs' gyt i = Inr (Object_new H Blob (enc x))" unfolding h(1) by (rule holds_object_read)
  moreover have "read_ref fs' gyt ?n = Inr i"
    using r assms(2) h(1) by (intro write_ref_reads) (simp_all add: wf_hash_bytes)
  ultimately show ?thesis using dec_enc [OF v assms(6)] by (simp add: read_record_def read_record_blob_def Object_new_def)
qed

lemma history_prefix:
  "(\<lambda>a b. ext a b = Inr ())\<^sup>*\<^sup>* x y \<Longrightarrow> number y = number x \<and> prefix (evs x) (evs y)"
  by (induction rule: rtranclp_induct) (auto dest: ext_number ext_prefix prefix_order.trans)

end

section \<open>Numbers are not given twice\<close>

lemma next_number_file:
  assumes "next_number nonce fs gyt c = (Inr n, fs')" "c \<noteq> []"
  obtains m where "fs_get fs' (gyt @ c) = Some (File (to_radix 10 (unat n + 1) @ [NL]) m)" "unat n + 1 < U64_LIMIT"
proof -
  let ?p = "gyt @ c"
  from assms(1) obtain fs1 nx where n: "nx + 1 < U64_LIMIT" "n = word_of_nat nx"
    and w: "atomic_write nonce fs1 ?p (to_radix 10 (nx + 1) @ [NL]) = (Inr (), fs')"
    by (auto simp: next_number_def Let_def linorder_not_le split: prod.splits sum.splits if_splits)
  have "unat n = nx" using n by (simp add: U64_LIMIT_def unat_of_nat)
  with atomic_write_ok(1) [OF w [unfolded atomic_write_def]] assms(2) n(1) that show thesis by simp
qed

lemma counter_text: "graphic (to_radix 10 n)" "valid_utf8 (to_radix 10 n @ [NL])" "trim (to_radix 10 n @ [NL]) = to_radix 10 n"
proof -
  have d: "\<forall>b \<in> set (to_radix 10 n). 48 \<le> b \<and> b \<le> 57" by (rule to_radix_digits) simp_all
  have "33 \<le> b \<and> b \<le> 126" if "b \<in> set (to_radix 10 n)" for b
    using d that order_trans [of 33 48 b] order_trans [of b 57 126] by simp
  then show g: "graphic (to_radix 10 n)" by (simp add: graphic_def)
  then show "trim (to_radix 10 n @ [NL]) = to_radix 10 n" by (rule trim_graphic_nl) simp
  have "b < 0x80" if "b \<in> set (to_radix 10 n)" for b
    using d that order_le_less_trans [of b 57 "0x80"] by simp
  then have "valid_utf8 (to_radix 10 n)" by (intro valid_utf8_ascii) blast
  then show "valid_utf8 (to_radix 10 n @ [NL])" by (simp add: valid_utf8_append valid_utf8_low)
qed

lemma next_number_counts:
  assumes "next_number nonce fs gyt c = (Inr n, fs1)" "c \<noteq> []" "next_number nonce' fs1 gyt c = (Inr k, fs2)"
  shows "unat k = unat n + 1"
proof -
  let ?p = "gyt @ c"
  obtain m where f: "fs_get fs1 ?p = Some (File (to_radix 10 (unat n + 1) @ [NL]) m)" and n: "unat n + 1 < U64_LIMIT"
    by (rule next_number_file [OF assms(1,2)])
  obtain fs3 where c: "create_dir_all fs1 (butlast ?p) = (Inr (), fs3)"
    using assms(3) by (auto simp: next_number_def Let_def split: prod.splits sum.splits)
  have "fs_get fs3 ?p = fs_get fs1 ?p" by (rule create_dir_all_leaf [OF c]) (simp add: assms(2))
  with f have g: "path_exists fs3 ?p" "read_all fs3 ?p = Inr (to_radix 10 (unat n + 1) @ [NL])"
    by (simp_all add: path_exists_def deref_file read_all_file)
  have "parse_uint 10 U64_LIMIT (to_radix 10 (unat n + 1)) = Some (unat n + 1)" using n by (intro parse_uint_to_radix) simp_all
  with assms(3) c g have "k = word_of_nat (unat n + 1)"
    by (auto simp: next_number_def Let_def counter_text split: prod.splits sum.splits if_splits)
  with n show ?thesis by (simp add: U64_LIMIT_def unat_of_nat unat_word_ariths)
qed

end
