(* ===== verification/Issues.thy ===== *)
theory Issues
  imports Metadata
begin

text \<open>
  \<open>src/issues.rs\<close>: issues and discussions. The record and its codec, the checks at both ends, the
  append-only rule for updates that arrive over the wire, storage under \<open>refs/issues\<close>, and the extraction of
  \<open>#N\<close> mentions.
\<close>

datatype issue_kind = IssueKind_Issue | IssueKind_Discussion
datatype issue_state = IssueState_Open | IssueState_Closed
datatype event_kind = Event_Open | Event_Comment | Event_Close | Event_Reopen | Event_Label | Event_Assign

definition issue_kind_str :: "issue_kind \<Rightarrow> bytes" where
  "issue_kind_str k = (case k of IssueKind_Issue \<Rightarrow> ascii ''issue'' | IssueKind_Discussion \<Rightarrow> ascii ''discussion'')"

definition issue_kind_parse :: "bytes \<Rightarrow> issue_kind res" where
  "issue_kind_parse s =
     (if s = ascii ''issue'' then Inr IssueKind_Issue
      else if s = ascii ''discussion'' then Inr IssueKind_Discussion
      else Inl (ERefs ''unknown issue kind''))"

definition issue_state_str :: "issue_state \<Rightarrow> bytes" where
  "issue_state_str s = (case s of IssueState_Open \<Rightarrow> ascii ''open'' | IssueState_Closed \<Rightarrow> ascii ''closed'')"

definition issue_state_parse :: "bytes \<Rightarrow> issue_state res" where
  "issue_state_parse s =
     (if s = ascii ''open'' then Inr IssueState_Open
      else if s = ascii ''closed'' then Inr IssueState_Closed
      else Inl (ERefs ''unknown issue state''))"

definition event_kind_str :: "event_kind \<Rightarrow> bytes" where
  "event_kind_str k =
     (case k of Event_Open \<Rightarrow> ascii ''open'' | Event_Comment \<Rightarrow> ascii ''comment'' | Event_Close \<Rightarrow> ascii ''close''
      | Event_Reopen \<Rightarrow> ascii ''reopen'' | Event_Label \<Rightarrow> ascii ''label'' | Event_Assign \<Rightarrow> ascii ''assign'')"

definition event_kind_parse :: "bytes \<Rightarrow> event_kind res" where
  "event_kind_parse s =
     (if s = ascii ''open'' then Inr Event_Open
      else if s = ascii ''comment'' then Inr Event_Comment
      else if s = ascii ''close'' then Inr Event_Close
      else if s = ascii ''reopen'' then Inr Event_Reopen
      else if s = ascii ''label'' then Inr Event_Label
      else if s = ascii ''assign'' then Inr Event_Assign
      else Inl (ERefs ''unknown event kind''))"

record issue_event =
  ev_kind :: event_kind
  ev_author :: bytes
  ev_ts :: "64 word"
  ev_body :: bytes
  ev_add :: "bytes list"
  ev_remove :: "bytes list"
  ev_reason :: bytes

record issue =
  is_number :: "64 word"
  is_kind :: issue_kind
  is_title :: bytes
  is_state :: issue_state
  is_author :: bytes
  is_created_ts :: "64 word"
  is_labels :: "bytes list"
  is_assignees :: "bytes list"
  is_mentions :: "64 word list"
  is_events :: "issue_event list"

section \<open>Checks\<close>

definition issue_event_checks :: "issue_event \<Rightarrow> unit res list" where
  "issue_event_checks e =
     [check_text_field (ev_author e) AUTHOR_MAX_BYTES, check_text_field (ev_body e) BODY_MAX_BYTES,
      check_text_field (ev_reason e) REASON_MAX_BYTES, check_ts (ev_ts e),
      check_array (ev_add e) ARRAY_MAX_ENTRIES ARRAY_ENTRY_MAX_BYTES,
      check_array (ev_remove e) ARRAY_MAX_ENTRIES ARRAY_ENTRY_MAX_BYTES]"

definition issue_validate :: "issue \<Rightarrow> unit res" where
  "issue_validate i = all_checks
     ([check_text_field (is_title i) TITLE_MAX_BYTES, check_text_field (is_author i) AUTHOR_MAX_BYTES,
       check_ts (is_created_ts i),
       check_array (is_labels i) ARRAY_MAX_ENTRIES ARRAY_ENTRY_MAX_BYTES,
       check_array (is_assignees i) ARRAY_MAX_ENTRIES ARRAY_ENTRY_MAX_BYTES,
       if length (is_mentions i) > MENTIONS_MAX_ENTRIES then Inl (ERefs ''mentions too long'') else Inr (),
       if length (is_events i) > EVENTS_MAX then Inl (ERefs ''events too long'') else Inr ()]
      @ concat (map issue_event_checks (is_events i)))"

section \<open>Codec\<close>

definition issue_event_lines :: "(bytes \<Rightarrow> bool) \<Rightarrow> issue_event \<Rightarrow> bytes list" where
  "issue_event_lines U e =
     [ascii ''[[event]]'',
      field_line (ascii ''kind'') (debug_str U (event_kind_str (ev_kind e))),
      field_line (ascii ''author'') (debug_str U (ev_author e)),
      field_line (ascii ''ts'') (print_i64 (ev_ts e)),
      field_line (ascii ''body'') (debug_str U (ev_body e)),
      field_line (ascii ''add'') (toml_string_array U (ev_add e)),
      field_line (ascii ''remove'') (toml_string_array U (ev_remove e)),
      field_line (ascii ''reason'') (debug_str U (ev_reason e)),
      []]"

definition issue_header_lines :: "(bytes \<Rightarrow> bool) \<Rightarrow> issue \<Rightarrow> bytes list" where
  "issue_header_lines U i =
     [ascii ''# generated by gyt; canonical ordering matters'',
      field_line (ascii ''schema_version'') (to_radix 10 SCHEMA_VERSION),
      field_line (ascii ''kind'') (debug_str U (issue_kind_str (is_kind i))),
      field_line (ascii ''number'') (to_radix 10 (unat (is_number i))),
      field_line (ascii ''title'') (debug_str U (is_title i)),
      field_line (ascii ''state'') (debug_str U (issue_state_str (is_state i))),
      field_line (ascii ''author'') (debug_str U (is_author i)),
      field_line (ascii ''created_ts'') (print_i64 (is_created_ts i)),
      field_line (ascii ''labels'') (toml_string_array U (is_labels i)),
      field_line (ascii ''assignees'') (toml_string_array U (is_assignees i)),
      field_line (ascii ''mentions'') (toml_u64_array (is_mentions i)),
      []]"

definition issue_encode :: "(bytes \<Rightarrow> bool) \<Rightarrow> issue \<Rightarrow> bytes" where
  "issue_encode U i = text_lines (issue_header_lines U i @ concat (map (issue_event_lines U) (is_events i)))"

record issue_parser =
  ip_number :: "64 word option"
  ip_kind :: "issue_kind option"
  ip_title :: bytes
  ip_state :: "issue_state option"
  ip_author :: bytes
  ip_created_ts :: "64 word"
  ip_labels :: "bytes list"
  ip_assignees :: "bytes list"
  ip_mentions :: "64 word list"
  ip_schema_seen :: bool
  ip_events :: "issue_event list"
  ip_cur :: "issue_event option"

definition issue_parser_init :: issue_parser where
  "issue_parser_init = \<lparr>ip_number = None, ip_kind = None, ip_title = [], ip_state = None, ip_author = [],
     ip_created_ts = 0, ip_labels = [], ip_assignees = [], ip_mentions = [], ip_schema_seen = False,
     ip_events = [], ip_cur = None\<rparr>"

definition issue_event_new :: issue_event where
  "issue_event_new = \<lparr>ev_kind = Event_Comment, ev_author = [], ev_ts = 0, ev_body = [], ev_add = [],
     ev_remove = [], ev_reason = []\<rparr>"

definition issue_event_field :: "issue_event \<Rightarrow> bytes \<Rightarrow> bytes \<Rightarrow> issue_event res" where
  "issue_event_field e key val =
     (if key = ascii ''kind''
      then (case parse_toml_string val of Inl x \<Rightarrow> Inl x | Inr s \<Rightarrow> map_res (event_kind_parse s) (\<lambda>k. e\<lparr>ev_kind := k\<rparr>))
      else if key = ascii ''author'' then map_res (parse_toml_string val) (\<lambda>s. e\<lparr>ev_author := s\<rparr>)
      else if key = ascii ''ts'' then map_res (parse_ts val) (\<lambda>t. e\<lparr>ev_ts := t\<rparr>)
      else if key = ascii ''body'' then map_res (parse_toml_string val) (\<lambda>s. e\<lparr>ev_body := s\<rparr>)
      else if key = ascii ''add'' then map_res (parse_toml_string_array val) (\<lambda>xs. e\<lparr>ev_add := xs\<rparr>)
      else if key = ascii ''remove'' then map_res (parse_toml_string_array val) (\<lambda>xs. e\<lparr>ev_remove := xs\<rparr>)
      else if key = ascii ''reason'' then map_res (parse_toml_string val) (\<lambda>s. e\<lparr>ev_reason := s\<rparr>)
      else Inl (ERefs ''issue blob: unknown event field''))"

definition issue_header_field :: "issue_parser \<Rightarrow> bytes \<Rightarrow> bytes \<Rightarrow> issue_parser res" where
  "issue_header_field st key val =
     (if key = ascii ''schema_version''
      then (case parse_uint 10 U32_LIMIT val of
              None \<Rightarrow> Inl (ERefs ''issue blob: invalid schema_version'')
            | Some v \<Rightarrow> if v \<noteq> SCHEMA_VERSION then Inl (ERefs ''unsupported issue schema_version'')
                        else Inr (st\<lparr>ip_schema_seen := True\<rparr>))
      else if key = ascii ''kind''
      then (case parse_toml_string val of Inl x \<Rightarrow> Inl x | Inr s \<Rightarrow> map_res (issue_kind_parse s) (\<lambda>k. st\<lparr>ip_kind := Some k\<rparr>))
      else if key = ascii ''number'' then map_res (parse_u64 val) (\<lambda>n. st\<lparr>ip_number := Some n\<rparr>)
      else if key = ascii ''title'' then map_res (parse_toml_string val) (\<lambda>s. st\<lparr>ip_title := s\<rparr>)
      else if key = ascii ''state''
      then (case parse_toml_string val of Inl x \<Rightarrow> Inl x | Inr s \<Rightarrow> map_res (issue_state_parse s) (\<lambda>k. st\<lparr>ip_state := Some k\<rparr>))
      else if key = ascii ''author'' then map_res (parse_toml_string val) (\<lambda>s. st\<lparr>ip_author := s\<rparr>)
      else if key = ascii ''created_ts'' then map_res (parse_ts val) (\<lambda>t. st\<lparr>ip_created_ts := t\<rparr>)
      else if key = ascii ''labels'' then map_res (parse_toml_string_array val) (\<lambda>xs. st\<lparr>ip_labels := xs\<rparr>)
      else if key = ascii ''assignees'' then map_res (parse_toml_string_array val) (\<lambda>xs. st\<lparr>ip_assignees := xs\<rparr>)
      else if key = ascii ''mentions'' then map_res (parse_toml_u64_array val) (\<lambda>xs. st\<lparr>ip_mentions := xs\<rparr>)
      else Inl (ERefs ''issue blob: unknown issue field''))"

definition issue_take_event :: "issue_parser \<Rightarrow> issue_parser" where
  "issue_take_event st = (case ip_cur st of None \<Rightarrow> st | Some e \<Rightarrow> st\<lparr>ip_events := ip_events st @ [e], ip_cur := None\<rparr>)"

definition issue_line :: "issue_parser \<Rightarrow> bytes \<Rightarrow> issue_parser res" where
  "issue_line st raw =
     (case toml_line raw of
        Inl e \<Rightarrow> Inl e
      | Inr Skip \<Rightarrow> Inr st
      | Inr Event_Start \<Rightarrow> Inr ((issue_take_event st)\<lparr>ip_cur := Some issue_event_new\<rparr>)
      | Inr (Field key val) \<Rightarrow>
        (case ip_cur st of
           Some e \<Rightarrow> map_res (issue_event_field e key val) (\<lambda>e'. st\<lparr>ip_cur := Some e'\<rparr>)
         | None \<Rightarrow> issue_header_field st key val))"

fun issue_lines :: "issue_parser \<Rightarrow> bytes list \<Rightarrow> issue_parser res" where
  "issue_lines st [] = Inr st"
| "issue_lines st (raw # raws) = (case issue_line st raw of Inl e \<Rightarrow> Inl e | Inr st' \<Rightarrow> issue_lines st' raws)"

definition issue_finish :: "issue_parser \<Rightarrow> issue res" where
  "issue_finish st0 =
     (let st = issue_take_event st0 in
      if \<not> ip_schema_seen st then Inl (ERefs ''issue blob: invalid missing schema_version'')
      else (case ip_number st of None \<Rightarrow> Inl (ERefs ''issue blob: invalid missing number'') | Some number \<Rightarrow>
           (case ip_kind st of None \<Rightarrow> Inl (ERefs ''issue blob: invalid missing kind'') | Some kind \<Rightarrow>
           (case ip_state st of None \<Rightarrow> Inl (ERefs ''issue blob: invalid missing state'') | Some state \<Rightarrow>
           (let i = \<lparr>is_number = number, is_kind = kind, is_title = ip_title st, is_state = state,
                     is_author = ip_author st, is_created_ts = ip_created_ts st, is_labels = ip_labels st,
                     is_assignees = ip_assignees st, is_mentions = ip_mentions st, is_events = ip_events st\<rparr> in
            case issue_validate i of Inl e \<Rightarrow> Inl e | Inr _ \<Rightarrow> Inr i)))))"

definition issue_decode :: "bytes \<Rightarrow> issue res" where
  "issue_decode b =
     (if \<not> valid_utf8 b then Inl (ERefs ''issue blob is not valid utf-8'')
      else (case issue_lines issue_parser_init (str_lines b) of Inl e \<Rightarrow> Inl e | Inr st \<Rightarrow> issue_finish st))"

section \<open>Updates and storage\<close>

definition issue_extends :: "issue \<Rightarrow> issue \<Rightarrow> unit res" where
  "issue_extends old new =
     (if is_number new \<noteq> is_number old then Inl (ERefs ''issue rewind: number changed'')
      else if is_kind new \<noteq> is_kind old then Inl (ERefs ''issue rewind: kind changed'')
      else if is_created_ts new \<noteq> is_created_ts old then Inl (ERefs ''issue rewind: created_ts changed'')
      else if is_author new \<noteq> is_author old then Inl (ERefs ''issue rewind: author changed'')
      else if is_title new \<noteq> is_title old then Inl (ERefs ''issue rewind: title changed'')
      else events_extend ev_ts (is_events old) (is_events new))"

definition ISSUE_REFS_PREFIX :: bytes where "ISSUE_REFS_PREFIX = ascii ''refs/issues''"
definition ISSUE_COUNTER_PATH :: fpath where "ISSUE_COUNTER_PATH = [ascii ''meta'', ascii ''issues_next'']"

definition issue_next_number :: "bytes \<Rightarrow> fs \<Rightarrow> fpath \<Rightarrow> 64 word res \<times> fs" where
  "issue_next_number nonce fs gyt = next_number nonce fs gyt ISSUE_COUNTER_PATH"

definition issue_read :: "fs \<Rightarrow> reader \<Rightarrow> fpath \<Rightarrow> 64 word \<Rightarrow> issue res" where
  "issue_read fs rd gyt n = read_record fs rd gyt ISSUE_REFS_PREFIX issue_decode is_number n"

definition issue_write_locked ::
  "(bytes \<Rightarrow> bool) \<Rightarrow> xz_lib \<Rightarrow> (bytes \<Rightarrow> bytes) \<Rightarrow> bytes \<Rightarrow> bytes \<Rightarrow> fs \<Rightarrow> fpath \<Rightarrow> issue \<Rightarrow> object_id res run \<times> fs" where
  "issue_write_locked U X H nonce nonce' fs gyt i =
     write_record X H nonce nonce' fs gyt ISSUE_REFS_PREFIX issue_validate (issue_encode U) is_number i"

definition issue_list :: "fs \<Rightarrow> reader \<Rightarrow> fpath \<Rightarrow> issue list res" where
  "issue_list fs rd gyt =
     (case list_refs fs gyt ISSUE_REFS_PREFIX of
        Inl e \<Rightarrow> Inl e
      | Inr refs \<Rightarrow>
        (let named = filter (\<lambda>(name, _). strip_prefix (ISSUE_REFS_PREFIX @ [SLASH]) name \<noteq> None) refs in
         Inr (sort_key (unat \<circ> is_number) (read_records rd issue_decode named))))"

section \<open>Mentions\<close>

definition is_digit :: "byte \<Rightarrow> bool" where
  "is_digit b \<longleftrightarrow> 48 \<le> b \<and> b \<le> 57"

definition is_word_char :: "byte \<Rightarrow> bool" where
  "is_word_char b \<longleftrightarrow> is_digit b \<or> 65 \<le> b \<and> b \<le> 90 \<or> 97 \<le> b \<and> b \<le> 122 \<or> b = 95"

function digits_end :: "bytes \<Rightarrow> nat \<Rightarrow> nat \<Rightarrow> nat" where
  "digits_end s i j = (if j < length s \<and> j - i \<le> 11 \<and> is_digit (s ! j) then digits_end s i (j + 1) else j)"
  by pat_completeness auto
termination by (relation "measure (\<lambda>(s, i, j). length s - j)") auto

declare digits_end.simps [simp del]

lemma digits_end_ge: "j \<le> digits_end s i j"
proof (induction s i j rule: digits_end.induct)
  case (1 s i j)
  then show ?case by (subst digits_end.simps) auto
qed

definition mention_here :: "bytes \<Rightarrow> nat \<Rightarrow> bool" where
  "mention_here s i \<longleftrightarrow> s ! i = 35 \<and> (i = 0 \<or> \<not> is_word_char (s ! (i - 1))) \<and> i + 1 < length s \<and> is_digit (s ! (i + 1))"

function mentions_loop :: "bytes \<Rightarrow> nat \<Rightarrow> 64 word list \<Rightarrow> 64 word list" where
  "mentions_loop s i out =
     (if i < length s then
        (if mention_here s i then
           (let j = digits_end s i (i + 1);
                out' = (if j = length s \<or> \<not> is_word_char (s ! j)
                        then (case parse_uint 10 U64_LIMIT (take (j - (i + 1)) (drop (i + 1) s)) of
                                None \<Rightarrow> out | Some n \<Rightarrow> out @ [word_of_nat n])
                        else out) in
            mentions_loop s j out')
         else mentions_loop s (i + 1) out)
      else out)"
  by pat_completeness auto
termination
proof (relation "measure (\<lambda>(s, i, out). length s - i)", goal_cases)
  case (2 s i out x y)
  then show ?case using digits_end_ge [of "i + 1" s i] by simp
qed auto

declare mentions_loop.simps [simp del]

definition sort_dedup :: "64 word list \<Rightarrow> 64 word list" where
  "sort_dedup xs = remdups_adj (sort xs)"

definition extract_mentions :: "bytes \<Rightarrow> 64 word list" where
  "extract_mentions s = sort_dedup (mentions_loop s 0 [])"

fun merge_loop_mentions :: "64 word list \<Rightarrow> 64 word list \<Rightarrow> 64 word \<Rightarrow> 64 word list" where
  "merge_loop_mentions into [] self_number = into"
| "merge_loop_mentions into (n # new) self_number =
     (if n = self_number then merge_loop_mentions into new self_number
      else merge_loop_mentions (if n \<in> set into then into else into @ [n]) new self_number)"

definition merge_mentions :: "64 word list \<Rightarrow> 64 word list \<Rightarrow> 64 word \<Rightarrow> 64 word list" where
  "merge_mentions into new self_number = sort_dedup (merge_loop_mentions into new self_number)"

section \<open>Decoding what was encoded\<close>

definition issue_event_texts :: "issue_event \<Rightarrow> bytes list" where
  "issue_event_texts e = ev_author e # ev_body e # ev_reason e # ev_add e @ ev_remove e"

definition issue_texts :: "issue \<Rightarrow> bytes list" where
  "issue_texts i = is_title i # is_author i # is_labels i @ is_assignees i @ concat (map issue_event_texts (is_events i))"

lemma issue_words:
  "printable U (issue_kind_str k)" "printable U (issue_state_str s)" "printable U (event_kind_str e)"
  "issue_kind_parse (issue_kind_str k) = Inr k" "issue_state_parse (issue_state_str s) = Inr s"
  "event_kind_parse (event_kind_str e) = Inr e"
  by (cases k; cases s; cases e;
      simp add: issue_kind_str_def issue_state_str_def event_kind_str_def printable_ascii
        issue_kind_parse_def issue_state_parse_def event_kind_parse_def)+

lemmas issue_line_simps = issue_line_def issue_words toml_line_simps

lemma issue_lines_append:
  "issue_lines st (xs @ ys) = (case issue_lines st xs of Inl e \<Rightarrow> Inl e | Inr st' \<Rightarrow> issue_lines st' ys)"
  by (induction xs arbitrary: st) (auto split: sum.splits)

lemma issue_event_round:
  assumes "\<forall>s \<in> set (issue_event_texts e). printable U s"
  shows "issue_lines st (issue_event_lines U e) = Inr ((issue_take_event st)\<lparr>ip_cur := Some e\<rparr>)"
  using assms
  by (simp add: issue_event_lines_def issue_event_texts_def issue_line_simps issue_event_field_def issue_event_new_def
      del: ascii_Cons) 

lemma issue_events_round:
  assumes "\<forall>e \<in> set es. \<forall>s \<in> set (issue_event_texts e). printable U s"
  shows "map_res (issue_lines st (concat (map (issue_event_lines U) es))) issue_take_event
    = Inr ((issue_take_event st)\<lparr>ip_events := ip_events (issue_take_event st) @ es\<rparr>)"
  using assms
proof (induction es arbitrary: st)
  case Nil
  then show ?case by simp
next
  case (Cons e es)
  have "issue_take_event ((issue_take_event st)\<lparr>ip_cur := Some e\<rparr>)
      = (issue_take_event st)\<lparr>ip_events := ip_events (issue_take_event st) @ [e]\<rparr>"
    by (cases st) (simp add: issue_take_event_def split: option.splits)
  with Cons show ?case by (simp add: issue_lines_append issue_event_round)
qed

lemma issue_header_round:
  assumes "\<forall>s \<in> set (issue_texts i). printable U s"
  shows "issue_lines issue_parser_init (issue_header_lines U i) = Inr
    \<lparr>ip_number = Some (is_number i), ip_kind = Some (is_kind i), ip_title = is_title i, ip_state = Some (is_state i),
     ip_author = is_author i, ip_created_ts = is_created_ts i, ip_labels = is_labels i, ip_assignees = is_assignees i,
     ip_mentions = is_mentions i, ip_schema_seen = True, ip_events = [], ip_cur = None\<rparr>"
  using assms
  by (simp add: issue_header_lines_def issue_texts_def issue_line_simps issue_header_field_def issue_parser_init_def
      del: ascii_Cons)

lemma issue_plain_lines:
  assumes "\<forall>s \<in> set (issue_texts i). printable U s"
  shows "\<forall>l \<in> set (issue_header_lines U i @ concat (map (issue_event_lines U) (is_events i))). plain_line l"
proof -
  have "plain_line (ascii ''[[event]]'')" "plain_line (ascii ''# generated by gyt; canonical ordering matters'')"
    by (rule plain_line_ascii, simp)+
  moreover have "\<forall>e \<in> set (is_events i). \<forall>s \<in> set (issue_event_texts e). printable U s"
    using assms by (auto simp: issue_texts_def)
  ultimately have "\<forall>e \<in> set (is_events i). \<forall>l \<in> set (issue_event_lines U e). plain_line l"
    by (simp add: issue_event_lines_def issue_event_texts_def issue_line_simps plain_field_line plain_line_Nil del: ascii_Cons)
  moreover have "\<forall>l \<in> set (issue_header_lines U i). plain_line l"
    using assms \<open>plain_line (ascii ''# generated by gyt; canonical ordering matters'')\<close>
    by (simp add: issue_header_lines_def issue_texts_def issue_line_simps plain_field_line plain_line_Nil del: ascii_Cons)
  ultimately show ?thesis by auto
qed

lemma issue_take_none: "ip_cur st = None \<Longrightarrow> issue_take_event st = st"
  by (simp add: issue_take_event_def)

lemma issue_finish_take: "issue_finish (issue_take_event st) = issue_finish st"
  by (simp add: issue_finish_def issue_take_event_def split: option.splits)

lemma issue_round:
  assumes "issue_validate i = Inr ()" "\<forall>s \<in> set (issue_texts i). printable U s"
  shows "issue_decode (issue_encode U i) = Inr i"
proof -
  let ?ls = "issue_header_lines U i @ concat (map (issue_event_lines U) (is_events i))"
  note p = issue_plain_lines [OF assms(2)]
  have e: "\<forall>e \<in> set (is_events i). \<forall>s \<in> set (issue_event_texts e). printable U s"
    using assms(2) by (auto simp: issue_texts_def)
  obtain st where st: "issue_lines issue_parser_init ?ls = Inr st"
    and "issue_take_event st = \<lparr>ip_number = Some (is_number i), ip_kind = Some (is_kind i), ip_title = is_title i,
      ip_state = Some (is_state i), ip_author = is_author i, ip_created_ts = is_created_ts i, ip_labels = is_labels i,
      ip_assignees = is_assignees i, ip_mentions = is_mentions i, ip_schema_seen = True, ip_events = is_events i, ip_cur = None\<rparr>"
    using issue_events_round [OF e] unfolding issue_lines_append issue_header_round [OF assms(2)]
    by (fastforce simp: map_res_def issue_take_none split: sum.splits)
  then have "issue_finish (issue_take_event st) = Inr i"
    using assms(1) by (cases i) (simp add: issue_finish_def issue_take_none)
  then show ?thesis
    using st p by (simp add: issue_decode_def issue_encode_def valid_text_lines str_lines_text issue_finish_take)
qed

section \<open>Updates only append\<close>

lemma issue_decode_valid: "issue_decode b = Inr i \<Longrightarrow> issue_validate i = Inr ()"
  unfolding issue_decode_def issue_finish_def Let_def res_simps by auto

lemma issue_extends_Inr:
  "issue_extends old new = Inr () \<longleftrightarrow>
     is_number new = is_number old \<and> is_kind new = is_kind old \<and> is_created_ts new = is_created_ts old
     \<and> is_author new = is_author old \<and> is_title new = is_title old
     \<and> prefix (is_events old) (is_events new) \<and> sorted (map (sint \<circ> ev_ts) (is_events new))"
  by (simp add: issue_extends_def events_extend_Inr)

section \<open>Mentions\<close>

lemma distinct_remdups_adj_sorted: "sorted xs \<Longrightarrow> distinct (remdups_adj xs)"
  by (induction xs rule: remdups_adj.induct) (auto simp: order.antisym)

lemma sort_dedup_set: "set (sort_dedup xs) = set xs" "sorted (sort_dedup xs)" "distinct (sort_dedup xs)"
  by (simp_all add: sort_dedup_def distinct_remdups_adj_sorted)

lemma merge_loop_mentions_set: "set (merge_loop_mentions into new self) = set into \<union> (set new - {self})"
  by (induction into new self rule: merge_loop_mentions.induct) auto

lemma merge_mentions_exact:
  "set (merge_mentions into new self) = set into \<union> (set new - {self}) \<and> sorted (merge_mentions into new self)
     \<and> distinct (merge_mentions into new self)"
  by (simp add: merge_mentions_def sort_dedup_set merge_loop_mentions_set)

text \<open>The checks accept a title made of one character that \<open>{:?}\<close> escapes, and the blob written for it is not
  readable.\<close>

lemma issue_title_lost:
  assumes "chars (is_title i) = [c]" "wide c" "U c" "\<forall>s \<in> set (tl (issue_texts i)). printable U s"
  shows "issue_decode (issue_encode U i) = Inl (ERefs ''blob: unsupported escape'')"
proof -
  let ?i = "i\<lparr>is_title := []\<rparr>"
  let ?h = "issue_header_lines U i" and ?e = "concat (map (issue_event_lines U) (is_events i))"
  note d = debug_escaped [of "is_title i" c U, OF assms(1-3)] escaped_text_value parse_escaped_text
  have "printable U []" by (rule printable_ascii) simp
  then have p: "\<forall>s \<in> set (issue_texts ?i). printable U s" using assms(4) by (simp add: issue_texts_def)
  have "\<forall>l \<in> set (?h @ ?e). plain_line l"
    using issue_plain_lines [OF p] d by (auto simp: issue_header_lines_def plain_field_line common_keys simp del: ascii_Cons)
  moreover have "issue_lines issue_parser_init (?h @ ?e) = Inl (ERefs ''blob: unsupported escape'')"
    using assms(4) d
    by (simp add: issue_header_lines_def issue_line_simps issue_header_field_def issue_parser_init_def del: ascii_Cons)
  ultimately show ?thesis by (simp add: issue_decode_def issue_encode_def valid_text_lines str_lines_text)
qed

section \<open>The interface\<close>

interpretation iss: ledger issue_validate "issue_encode U" issue_decode is_number "\<lambda>i. \<forall>s \<in> set (issue_texts i). printable U s"
    issue_extends is_events for U
  by unfold_locales (simp_all add: issue_round issue_decode_valid issue_extends_Inr)


definition sample_event :: issue_event where
  "sample_event = \<lparr>ev_kind = Event_Open, ev_author = ascii ''ann'', ev_ts = 7, ev_body = ascii ''hi'', ev_add = [ascii ''p1''],
     ev_remove = [], ev_reason = []\<rparr>"

definition sample_issue :: issue where
  "sample_issue = \<lparr>is_number = 1, is_kind = IssueKind_Issue, is_title = ascii ''t'', is_state = IssueState_Open,
     is_author = ascii ''ann'', is_created_ts = 7, is_labels = [ascii ''p1''], is_assignees = [], is_mentions = [2, 3],
     is_events = [sample_event]\<rparr>"

lemma sample_issue_ok: "issue_validate sample_issue = Inr ()" "\<forall>s \<in> set (issue_texts sample_issue). printable U s"
proof -
  have [simp]: "sint (7 :: 64 word) = 7" by simp
  show "issue_validate sample_issue = Inr ()"
    by (simp add: issue_validate_def issue_event_checks_def sample_issue_def sample_event_def all_checks_Inr
        check_text_field_def check_array_def check_ts_def TITLE_MAX_BYTES_def AUTHOR_MAX_BYTES_def BODY_MAX_BYTES_def
        REASON_MAX_BYTES_def ARRAY_MAX_ENTRIES_def ARRAY_ENTRY_MAX_BYTES_def MENTIONS_MAX_ENTRIES_def EVENTS_MAX_def
        TS_MIN_def TS_MAX_def)
  show "\<forall>s \<in> set (issue_texts sample_issue). printable U s"
    by (simp add: issue_texts_def issue_event_texts_def sample_issue_def sample_event_def printable_ascii)
qed


end
