(* ===== verification/Prs.thy ===== *)
theory Prs
  imports Metadata
begin

text \<open>
  \<open>src/prs.rs\<close>: pull requests, stored like issues with a source and a target ref. The state may become merged only
  together with a merge event, and never leaves it.
\<close>

datatype pr_state = PrState_Open | PrState_Closed | PrState_Merged
datatype pr_event_kind = PrEvent_Open | PrEvent_Comment | PrEvent_Close | PrEvent_Reopen | PrEvent_Label | PrEvent_Assign
  | PrEvent_Merge | PrEvent_CiRun

definition pr_state_str :: "pr_state \<Rightarrow> bytes" where
  "pr_state_str s =
     (case s of PrState_Open \<Rightarrow> ascii ''open'' | PrState_Closed \<Rightarrow> ascii ''closed'' | PrState_Merged \<Rightarrow> ascii ''merged'')"

definition pr_state_parse :: "bytes \<Rightarrow> pr_state res" where
  "pr_state_parse s =
     (if s = ascii ''open'' then Inr PrState_Open
      else if s = ascii ''closed'' then Inr PrState_Closed
      else if s = ascii ''merged'' then Inr PrState_Merged
      else Inl (ERefs ''unknown pr state''))"

definition pr_event_kind_str :: "pr_event_kind \<Rightarrow> bytes" where
  "pr_event_kind_str k =
     (case k of PrEvent_Open \<Rightarrow> ascii ''open'' | PrEvent_Comment \<Rightarrow> ascii ''comment'' | PrEvent_Close \<Rightarrow> ascii ''close''
      | PrEvent_Reopen \<Rightarrow> ascii ''reopen'' | PrEvent_Label \<Rightarrow> ascii ''label'' | PrEvent_Assign \<Rightarrow> ascii ''assign''
      | PrEvent_Merge \<Rightarrow> ascii ''merge'' | PrEvent_CiRun \<Rightarrow> ascii ''ci_run'')"

definition pr_event_kind_parse :: "bytes \<Rightarrow> pr_event_kind res" where
  "pr_event_kind_parse s =
     (if s = ascii ''open'' then Inr PrEvent_Open
      else if s = ascii ''comment'' then Inr PrEvent_Comment
      else if s = ascii ''close'' then Inr PrEvent_Close
      else if s = ascii ''reopen'' then Inr PrEvent_Reopen
      else if s = ascii ''label'' then Inr PrEvent_Label
      else if s = ascii ''assign'' then Inr PrEvent_Assign
      else if s = ascii ''merge'' then Inr PrEvent_Merge
      else if s = ascii ''ci_run'' then Inr PrEvent_CiRun
      else Inl (ERefs ''unknown pr event''))"

record pr_event =
  pv_kind :: pr_event_kind
  pv_author :: bytes
  pv_ts :: "64 word"
  pv_body :: bytes
  pv_add :: "bytes list"
  pv_remove :: "bytes list"
  pv_reason :: bytes
  pv_result :: bytes

record pr =
  pr_number :: "64 word"
  pr_title :: bytes
  pr_state_of :: pr_state
  pr_source_ref :: bytes
  pr_target_ref :: bytes
  pr_author :: bytes
  pr_created_ts :: "64 word"
  pr_labels :: "bytes list"
  pr_assignees :: "bytes list"
  pr_mentions :: "64 word list"
  pr_events :: "pr_event list"

section \<open>Checks\<close>

definition RESULT_MAX_BYTES :: nat where "RESULT_MAX_BYTES = 4096"
definition REF_MAX_BYTES :: nat where "REF_MAX_BYTES = 255"

definition pr_event_checks :: "pr_event \<Rightarrow> unit res list" where
  "pr_event_checks e =
     [check_text_field (pv_author e) AUTHOR_MAX_BYTES, check_text_field (pv_body e) BODY_MAX_BYTES,
      check_text_field (pv_reason e) REASON_MAX_BYTES, check_text_field (pv_result e) RESULT_MAX_BYTES, check_ts (pv_ts e),
      check_array (pv_add e) ARRAY_MAX_ENTRIES ARRAY_ENTRY_MAX_BYTES,
      check_array (pv_remove e) ARRAY_MAX_ENTRIES ARRAY_ENTRY_MAX_BYTES]"

definition pr_validate :: "pr \<Rightarrow> unit res" where
  "pr_validate p = all_checks
     ([check_text_field (pr_title p) TITLE_MAX_BYTES, check_text_field (pr_author p) AUTHOR_MAX_BYTES,
       check_text_field (pr_source_ref p) REF_MAX_BYTES, check_text_field (pr_target_ref p) REF_MAX_BYTES,
       validate_ref_name (pr_source_ref p), validate_ref_name (pr_target_ref p),
       check_ts (pr_created_ts p),
       check_array (pr_labels p) ARRAY_MAX_ENTRIES ARRAY_ENTRY_MAX_BYTES,
       check_array (pr_assignees p) ARRAY_MAX_ENTRIES ARRAY_ENTRY_MAX_BYTES,
       if length (pr_mentions p) > MENTIONS_MAX_ENTRIES then Inl (ERefs ''mentions too long'') else Inr (),
       if length (pr_events p) > EVENTS_MAX then Inl (ERefs ''events too long'') else Inr ()]
      @ concat (map pr_event_checks (pr_events p)))"

section \<open>Codec\<close>

definition pr_event_lines :: "(bytes \<Rightarrow> bool) \<Rightarrow> pr_event \<Rightarrow> bytes list" where
  "pr_event_lines U e =
     [ascii ''[[event]]'',
      field_line (ascii ''kind'') (debug_str U (pr_event_kind_str (pv_kind e))),
      field_line (ascii ''author'') (debug_str U (pv_author e)),
      field_line (ascii ''ts'') (print_i64 (pv_ts e)),
      field_line (ascii ''body'') (debug_str U (pv_body e)),
      field_line (ascii ''add'') (toml_string_array U (pv_add e)),
      field_line (ascii ''remove'') (toml_string_array U (pv_remove e)),
      field_line (ascii ''reason'') (debug_str U (pv_reason e)),
      field_line (ascii ''result'') (debug_str U (pv_result e)),
      []]"

definition pr_header_lines :: "(bytes \<Rightarrow> bool) \<Rightarrow> pr \<Rightarrow> bytes list" where
  "pr_header_lines U p =
     [ascii ''# generated by gyt; canonical ordering matters'',
      field_line (ascii ''schema_version'') (to_radix 10 SCHEMA_VERSION),
      field_line (ascii ''kind'') (debug_str U (ascii ''pr'')),
      field_line (ascii ''number'') (to_radix 10 (unat (pr_number p))),
      field_line (ascii ''title'') (debug_str U (pr_title p)),
      field_line (ascii ''state'') (debug_str U (pr_state_str (pr_state_of p))),
      field_line (ascii ''source_ref'') (debug_str U (pr_source_ref p)),
      field_line (ascii ''target_ref'') (debug_str U (pr_target_ref p)),
      field_line (ascii ''author'') (debug_str U (pr_author p)),
      field_line (ascii ''created_ts'') (print_i64 (pr_created_ts p)),
      field_line (ascii ''labels'') (toml_string_array U (pr_labels p)),
      field_line (ascii ''assignees'') (toml_string_array U (pr_assignees p)),
      field_line (ascii ''mentions'') (toml_u64_array (pr_mentions p)),
      []]"

definition pr_encode :: "(bytes \<Rightarrow> bool) \<Rightarrow> pr \<Rightarrow> bytes" where
  "pr_encode U p = text_lines (pr_header_lines U p @ concat (map (pr_event_lines U) (pr_events p)))"

record pr_parser =
  pp_number :: "64 word option"
  pp_title :: bytes
  pp_state :: "pr_state option"
  pp_source_ref :: bytes
  pp_target_ref :: bytes
  pp_author :: bytes
  pp_created_ts :: "64 word"
  pp_labels :: "bytes list"
  pp_assignees :: "bytes list"
  pp_mentions :: "64 word list"
  pp_schema_seen :: bool
  pp_kind_seen :: bool
  pp_events :: "pr_event list"
  pp_cur :: "pr_event option"

definition pr_parser_init :: pr_parser where
  "pr_parser_init = \<lparr>pp_number = None, pp_title = [], pp_state = None, pp_source_ref = [], pp_target_ref = [],
     pp_author = [], pp_created_ts = 0, pp_labels = [], pp_assignees = [], pp_mentions = [], pp_schema_seen = False,
     pp_kind_seen = False, pp_events = [], pp_cur = None\<rparr>"

definition pr_event_new :: pr_event where
  "pr_event_new = \<lparr>pv_kind = PrEvent_Comment, pv_author = [], pv_ts = 0, pv_body = [], pv_add = [],
     pv_remove = [], pv_reason = [], pv_result = []\<rparr>"

definition pr_event_field :: "pr_event \<Rightarrow> bytes \<Rightarrow> bytes \<Rightarrow> pr_event res" where
  "pr_event_field e key val =
     (if key = ascii ''kind''
      then (case parse_toml_string val of Inl x \<Rightarrow> Inl x | Inr s \<Rightarrow> map_res (pr_event_kind_parse s) (\<lambda>k. e\<lparr>pv_kind := k\<rparr>))
      else if key = ascii ''author'' then map_res (parse_toml_string val) (\<lambda>s. e\<lparr>pv_author := s\<rparr>)
      else if key = ascii ''ts'' then map_res (parse_ts val) (\<lambda>t. e\<lparr>pv_ts := t\<rparr>)
      else if key = ascii ''body'' then map_res (parse_toml_string val) (\<lambda>s. e\<lparr>pv_body := s\<rparr>)
      else if key = ascii ''add'' then map_res (parse_toml_string_array val) (\<lambda>xs. e\<lparr>pv_add := xs\<rparr>)
      else if key = ascii ''remove'' then map_res (parse_toml_string_array val) (\<lambda>xs. e\<lparr>pv_remove := xs\<rparr>)
      else if key = ascii ''reason'' then map_res (parse_toml_string val) (\<lambda>s. e\<lparr>pv_reason := s\<rparr>)
      else if key = ascii ''result'' then map_res (parse_toml_string val) (\<lambda>s. e\<lparr>pv_result := s\<rparr>)
      else Inl (ERefs ''pr blob: unknown event field''))"

definition pr_header_field :: "pr_parser \<Rightarrow> bytes \<Rightarrow> bytes \<Rightarrow> pr_parser res" where
  "pr_header_field st key val =
     (if key = ascii ''schema_version''
      then (case parse_uint 10 U32_LIMIT val of
              None \<Rightarrow> Inl (ERefs ''pr blob: invalid schema_version'')
            | Some v \<Rightarrow> if v \<noteq> SCHEMA_VERSION then Inl (ERefs ''unsupported pr schema_version'')
                        else Inr (st\<lparr>pp_schema_seen := True\<rparr>))
      else if key = ascii ''kind''
      then (case parse_toml_string val of
              Inl x \<Rightarrow> Inl x
            | Inr s \<Rightarrow> if s \<noteq> ascii ''pr'' then Inl (ERefs ''pr blob: invalid kind'') else Inr (st\<lparr>pp_kind_seen := True\<rparr>))
      else if key = ascii ''number'' then map_res (parse_u64 val) (\<lambda>n. st\<lparr>pp_number := Some n\<rparr>)
      else if key = ascii ''title'' then map_res (parse_toml_string val) (\<lambda>s. st\<lparr>pp_title := s\<rparr>)
      else if key = ascii ''state''
      then (case parse_toml_string val of Inl x \<Rightarrow> Inl x | Inr s \<Rightarrow> map_res (pr_state_parse s) (\<lambda>k. st\<lparr>pp_state := Some k\<rparr>))
      else if key = ascii ''source_ref'' then map_res (parse_toml_string val) (\<lambda>s. st\<lparr>pp_source_ref := s\<rparr>)
      else if key = ascii ''target_ref'' then map_res (parse_toml_string val) (\<lambda>s. st\<lparr>pp_target_ref := s\<rparr>)
      else if key = ascii ''author'' then map_res (parse_toml_string val) (\<lambda>s. st\<lparr>pp_author := s\<rparr>)
      else if key = ascii ''created_ts'' then map_res (parse_ts val) (\<lambda>t. st\<lparr>pp_created_ts := t\<rparr>)
      else if key = ascii ''labels'' then map_res (parse_toml_string_array val) (\<lambda>xs. st\<lparr>pp_labels := xs\<rparr>)
      else if key = ascii ''assignees'' then map_res (parse_toml_string_array val) (\<lambda>xs. st\<lparr>pp_assignees := xs\<rparr>)
      else if key = ascii ''mentions'' then map_res (parse_toml_u64_array val) (\<lambda>xs. st\<lparr>pp_mentions := xs\<rparr>)
      else Inl (ERefs ''pr blob: unknown pr field''))"

definition pr_take_event :: "pr_parser \<Rightarrow> pr_parser" where
  "pr_take_event st = (case pp_cur st of None \<Rightarrow> st | Some e \<Rightarrow> st\<lparr>pp_events := pp_events st @ [e], pp_cur := None\<rparr>)"

definition pr_line :: "pr_parser \<Rightarrow> bytes \<Rightarrow> pr_parser res" where
  "pr_line st raw =
     (case toml_line raw of
        Inl e \<Rightarrow> Inl e
      | Inr Skip \<Rightarrow> Inr st
      | Inr Event_Start \<Rightarrow> Inr ((pr_take_event st)\<lparr>pp_cur := Some pr_event_new\<rparr>)
      | Inr (Field key val) \<Rightarrow>
        (case pp_cur st of
           Some e \<Rightarrow> map_res (pr_event_field e key val) (\<lambda>e'. st\<lparr>pp_cur := Some e'\<rparr>)
         | None \<Rightarrow> pr_header_field st key val))"

fun pr_lines :: "pr_parser \<Rightarrow> bytes list \<Rightarrow> pr_parser res" where
  "pr_lines st [] = Inr st"
| "pr_lines st (raw # raws) = (case pr_line st raw of Inl e \<Rightarrow> Inl e | Inr st' \<Rightarrow> pr_lines st' raws)"

definition pr_finish :: "pr_parser \<Rightarrow> pr res" where
  "pr_finish st0 =
     (let st = pr_take_event st0 in
      if \<not> pp_schema_seen st then Inl (ERefs ''pr blob: invalid missing schema_version'')
      else if \<not> pp_kind_seen st then Inl (ERefs ''pr blob: invalid missing kind'')
      else (case pp_number st of None \<Rightarrow> Inl (ERefs ''pr blob: invalid missing number'') | Some number \<Rightarrow>
           (case pp_state st of None \<Rightarrow> Inl (ERefs ''pr blob: invalid missing state'') | Some state \<Rightarrow>
           (let p = \<lparr>pr_number = number, pr_title = pp_title st, pr_state_of = state, pr_source_ref = pp_source_ref st,
                     pr_target_ref = pp_target_ref st, pr_author = pp_author st, pr_created_ts = pp_created_ts st,
                     pr_labels = pp_labels st, pr_assignees = pp_assignees st, pr_mentions = pp_mentions st,
                     pr_events = pp_events st\<rparr> in
            case pr_validate p of Inl e \<Rightarrow> Inl e | Inr _ \<Rightarrow> Inr p))))"

definition pr_decode :: "bytes \<Rightarrow> pr res" where
  "pr_decode b =
     (if \<not> valid_utf8 b then Inl (ERefs ''pr blob is not valid utf-8'')
      else (case pr_lines pr_parser_init (str_lines b) of Inl e \<Rightarrow> Inl e | Inr st \<Rightarrow> pr_finish st))"

section \<open>Updates and storage\<close>

definition pr_transition :: "pr \<Rightarrow> pr \<Rightarrow> unit res" where
  "pr_transition old new =
     (case (pr_state_of old, pr_state_of new) of
        (PrState_Open, PrState_Open) \<Rightarrow> Inr ()
      | (PrState_Closed, PrState_Closed) \<Rightarrow> Inr ()
      | (PrState_Merged, PrState_Merged) \<Rightarrow> Inr ()
      | (PrState_Open, PrState_Closed) \<Rightarrow> Inr ()
      | (PrState_Closed, PrState_Open) \<Rightarrow> Inr ()
      | (PrState_Merged, _) \<Rightarrow> Inl (ERefs ''pr rewind: cannot transition out of merged state'')
      | (_, PrState_Merged) \<Rightarrow>
          if list_ex (\<lambda>e. pv_kind e = PrEvent_Merge) (drop (length (pr_events old)) (pr_events new)) then Inr ()
          else Inl (ERefs ''pr rewind: state -> merged requires a matching merge event''))"

definition pr_extends :: "pr \<Rightarrow> pr \<Rightarrow> unit res" where
  "pr_extends old new =
     (if pr_number new \<noteq> pr_number old then Inl (ERefs ''pr rewind: number changed'')
      else if pr_created_ts new \<noteq> pr_created_ts old then Inl (ERefs ''pr rewind: created_ts changed'')
      else if pr_author new \<noteq> pr_author old then Inl (ERefs ''pr rewind: author changed'')
      else if pr_title new \<noteq> pr_title old then Inl (ERefs ''pr rewind: title changed'')
      else if pr_source_ref new \<noteq> pr_source_ref old then Inl (ERefs ''pr rewind: source_ref changed'')
      else if pr_target_ref new \<noteq> pr_target_ref old then Inl (ERefs ''pr rewind: target_ref changed'')
      else (case events_extend pv_ts (pr_events old) (pr_events new) of
              Inl e \<Rightarrow> Inl e
            | Inr _ \<Rightarrow> pr_transition old new))"

definition PR_REFS_PREFIX :: bytes where "PR_REFS_PREFIX = ascii ''refs/prs''"
definition PR_COUNTER_PATH :: fpath where "PR_COUNTER_PATH = [ascii ''meta'', ascii ''prs_next'']"

definition pr_next_number :: "bytes \<Rightarrow> fs \<Rightarrow> fpath \<Rightarrow> 64 word res \<times> fs" where
  "pr_next_number nonce fs gyt = next_number nonce fs gyt PR_COUNTER_PATH"

definition pr_read :: "fs \<Rightarrow> reader \<Rightarrow> fpath \<Rightarrow> 64 word \<Rightarrow> pr res" where
  "pr_read fs rd gyt n = read_record fs rd gyt PR_REFS_PREFIX pr_decode pr_number n"

definition pr_write_locked ::
  "(bytes \<Rightarrow> bool) \<Rightarrow> xz_lib \<Rightarrow> (bytes \<Rightarrow> bytes) \<Rightarrow> bytes \<Rightarrow> bytes \<Rightarrow> fs \<Rightarrow> fpath \<Rightarrow> pr \<Rightarrow> object_id res run \<times> fs" where
  "pr_write_locked U X H nonce nonce' fs gyt p =
     write_record X H nonce nonce' fs gyt PR_REFS_PREFIX pr_validate (pr_encode U) pr_number p"

definition pr_list :: "fs \<Rightarrow> reader \<Rightarrow> fpath \<Rightarrow> pr list res" where
  "pr_list fs rd gyt = list_records fs rd gyt PR_REFS_PREFIX pr_decode pr_number"

section \<open>Decoding what was encoded\<close>

definition pr_event_texts :: "pr_event \<Rightarrow> bytes list" where
  "pr_event_texts e = pv_author e # pv_body e # pv_reason e # pv_result e # pv_add e @ pv_remove e"

definition pr_texts :: "pr \<Rightarrow> bytes list" where
  "pr_texts p = pr_title p # pr_author p # pr_source_ref p # pr_target_ref p # pr_labels p @ pr_assignees p
     @ concat (map pr_event_texts (pr_events p))"

lemma pr_keys: "key_name (ascii ''result'')" "key_name (ascii ''source_ref'')" "key_name (ascii ''target_ref'')"
  by (rule key_name_word; simp add: word_chars_def)+

lemma pr_words:
  "printable U (ascii ''pr'')" "printable U (pr_state_str s)" "printable U (pr_event_kind_str e)"
  "pr_state_parse (pr_state_str s) = Inr s" "pr_event_kind_parse (pr_event_kind_str e) = Inr e"
  by (cases s; cases e;
      simp add: pr_state_str_def pr_event_kind_str_def printable_ascii pr_state_parse_def pr_event_kind_parse_def)+

lemmas pr_line_simps = pr_line_def pr_words pr_keys toml_line_simps

lemma pr_lines_append:
  "pr_lines st (xs @ ys) = (case pr_lines st xs of Inl e \<Rightarrow> Inl e | Inr st' \<Rightarrow> pr_lines st' ys)"
  by (induction xs arbitrary: st) (auto split: sum.splits)

lemma pr_event_round:
  assumes "\<forall>s \<in> set (pr_event_texts e). printable U s"
  shows "pr_lines st (pr_event_lines U e) = Inr ((pr_take_event st)\<lparr>pp_cur := Some e\<rparr>)"
  using assms
  by (simp add: pr_event_lines_def pr_event_texts_def pr_line_simps pr_event_field_def pr_event_new_def del: ascii_Cons)

lemma pr_events_round:
  assumes "\<forall>e \<in> set es. \<forall>s \<in> set (pr_event_texts e). printable U s"
  shows "map_res (pr_lines st (concat (map (pr_event_lines U) es))) pr_take_event
    = Inr ((pr_take_event st)\<lparr>pp_events := pp_events (pr_take_event st) @ es\<rparr>)"
  using assms
proof (induction es arbitrary: st)
  case Nil
  then show ?case by simp
next
  case (Cons e es)
  have "pr_take_event ((pr_take_event st)\<lparr>pp_cur := Some e\<rparr>)
      = (pr_take_event st)\<lparr>pp_events := pp_events (pr_take_event st) @ [e]\<rparr>"
    by (cases st) (simp add: pr_take_event_def split: option.splits)
  with Cons show ?case by (simp add: pr_lines_append pr_event_round)
qed

definition pr_parsed :: "pr \<Rightarrow> pr_event list \<Rightarrow> pr_parser" where
  "pr_parsed p es = \<lparr>pp_number = Some (pr_number p), pp_title = pr_title p, pp_state = Some (pr_state_of p),
     pp_source_ref = pr_source_ref p, pp_target_ref = pr_target_ref p, pp_author = pr_author p,
     pp_created_ts = pr_created_ts p, pp_labels = pr_labels p, pp_assignees = pr_assignees p,
     pp_mentions = pr_mentions p, pp_schema_seen = True, pp_kind_seen = True, pp_events = es, pp_cur = None\<rparr>"

lemma pr_header_round:
  assumes "\<forall>s \<in> set (pr_texts p). printable U s"
  shows "pr_lines pr_parser_init (pr_header_lines U p) = Inr (pr_parsed p [])"
  using assms
  by (simp add: pr_header_lines_def pr_texts_def pr_line_simps pr_header_field_def pr_parser_init_def pr_parsed_def
      del: ascii_Cons)

lemma pr_plain_lines:
  assumes "\<forall>s \<in> set (pr_texts p). printable U s"
  shows "\<forall>l \<in> set (pr_header_lines U p @ concat (map (pr_event_lines U) (pr_events p))). plain_line l"
proof -
  have "plain_line (ascii ''[[event]]'')" and c: "plain_line (ascii ''# generated by gyt; canonical ordering matters'')"
    by (rule plain_line_ascii, simp)+
  moreover have "\<forall>e \<in> set (pr_events p). \<forall>s \<in> set (pr_event_texts e). printable U s"
    using assms by (auto simp: pr_texts_def)
  ultimately have "\<forall>e \<in> set (pr_events p). \<forall>l \<in> set (pr_event_lines U e). plain_line l"
    by (simp add: pr_event_lines_def pr_event_texts_def pr_line_simps plain_field_line plain_line_Nil del: ascii_Cons)
  moreover have "\<forall>l \<in> set (pr_header_lines U p). plain_line l"
    using assms c
    by (simp add: pr_header_lines_def pr_texts_def pr_line_simps plain_field_line plain_line_Nil del: ascii_Cons)
  ultimately show ?thesis by auto
qed

lemma pr_take_none: "pp_cur st = None \<Longrightarrow> pr_take_event st = st"
  by (simp add: pr_take_event_def)

lemma pr_finish_take: "pr_finish (pr_take_event st) = pr_finish st"
  by (simp add: pr_finish_def pr_take_event_def split: option.splits)

lemma pr_round:
  assumes "pr_validate p = Inr ()" "\<forall>s \<in> set (pr_texts p). printable U s"
  shows "pr_decode (pr_encode U p) = Inr p"
proof -
  let ?ls = "pr_header_lines U p @ concat (map (pr_event_lines U) (pr_events p))"
  have e: "\<forall>e \<in> set (pr_events p). \<forall>s \<in> set (pr_event_texts e). printable U s"
    using assms(2) by (auto simp: pr_texts_def)
  have "pr_take_event (pr_parsed p []) = pr_parsed p []" by (rule pr_take_none) (simp add: pr_parsed_def)
  then obtain st where st: "pr_lines pr_parser_init ?ls = Inr st" and t: "pr_take_event st = pr_parsed p (pr_events p)"
    using pr_events_round [OF e, of "pr_parsed p []"] unfolding pr_lines_append pr_header_round [OF assms(2)]
    by (auto simp: map_res_def pr_parsed_def split: sum.splits)
  have "pr_finish (pr_take_event st) = Inr p"
    unfolding t using assms(1) by (cases p) (simp add: pr_finish_def pr_take_none pr_parsed_def)
  then show ?thesis
    using st pr_plain_lines [OF assms(2)]
    by (simp add: pr_decode_def pr_encode_def valid_text_lines str_lines_text pr_finish_take)
qed

section \<open>Updates only append\<close>

lemma pr_decode_valid: "pr_decode b = Inr p \<Longrightarrow> pr_validate p = Inr ()"
  unfolding pr_decode_def pr_finish_def Let_def res_simps by auto

lemma pr_transition_Inr:
  "pr_transition old new = Inr () \<longleftrightarrow>
     pr_state_of new = pr_state_of old
     \<or> pr_state_of old \<noteq> PrState_Merged
       \<and> (pr_state_of new = PrState_Merged \<longrightarrow>
            (\<exists>e \<in> set (drop (length (pr_events old)) (pr_events new)). pv_kind e = PrEvent_Merge))"
  by (cases "pr_state_of old"; cases "pr_state_of new") (simp_all add: pr_transition_def list_ex_iff)

lemma pr_extends_Inr:
  "pr_extends old new = Inr () \<longleftrightarrow>
     pr_number new = pr_number old \<and> pr_created_ts new = pr_created_ts old \<and> pr_author new = pr_author old
     \<and> pr_title new = pr_title old \<and> pr_source_ref new = pr_source_ref old \<and> pr_target_ref new = pr_target_ref old
     \<and> prefix (pr_events old) (pr_events new) \<and> sorted (map (sint \<circ> pv_ts) (pr_events new))
     \<and> pr_transition old new = Inr ()"
  using events_extend_Inr [of pv_ts "pr_events old" "pr_events new"]
  by (cases "events_extend pv_ts (pr_events old) (pr_events new)") (auto simp: pr_extends_def)

interpretation prs: ledger pr_validate "pr_encode U" pr_decode pr_number "\<lambda>p. \<forall>s \<in> set (pr_texts p). printable U s"
    pr_extends pr_events for U
  by unfold_locales (simp_all add: pr_round pr_decode_valid pr_extends_Inr)

text \<open>C33: a pull request that was merged stays merged and keeps its merge on record. Along any chain of accepted
  updates the number, the refs and the recorded events are kept; the merged state is never left; and a request that
  was not merged at the start and is merged at the end has a merge event among those appended in between.\<close>
theorem pr_merged_forever:
  assumes "(\<lambda>a b. pr_extends a b = Inr ())\<^sup>*\<^sup>* p q"
  shows "pr_number q = pr_number p \<and> pr_source_ref q = pr_source_ref p \<and> pr_target_ref q = pr_target_ref p
    \<and> prefix (pr_events p) (pr_events q)
    \<and> (pr_state_of p = PrState_Merged \<longrightarrow> pr_state_of q = PrState_Merged)
    \<and> (pr_state_of p \<noteq> PrState_Merged \<and> pr_state_of q = PrState_Merged \<longrightarrow>
         (\<exists>e \<in> set (drop (length (pr_events p)) (pr_events q)). pv_kind e = PrEvent_Merge))"
  using assms
proof (induction rule: rtranclp_induct)
  case base
  then show ?case by simp
next
  case (step q r)
  note h = prs.history_prefix [OF step.hyps(1)]
  from step.hyps(2) have x: "pr_extends q r = Inr ()" .
  then have t: "pr_transition q r = Inr ()" and pre: "prefix (pr_events q) (pr_events r)" by (simp_all add: pr_extends_Inr)
  obtain u v where u: "pr_events q = pr_events p @ u" and v: "pr_events r = pr_events q @ v"
    using h pre by (auto simp: prefix_def)
  show ?case
    using step.IH x t u v by (auto simp: pr_extends_Inr pr_transition_Inr)
qed

definition sample_pr :: pr where
  "sample_pr = \<lparr>pr_number = 1, pr_title = ascii ''t'', pr_state_of = PrState_Open, pr_source_ref = ascii ''refs/heads/a'',
     pr_target_ref = ascii ''refs/heads/b'', pr_author = ascii ''ann'', pr_created_ts = 7, pr_labels = [], pr_assignees = [],
     pr_mentions = [], pr_events = []\<rparr>"

definition sample_merge :: pr_event where
  "sample_merge = pr_event_new\<lparr>pv_kind := PrEvent_Merge, pv_ts := 9\<rparr>"

theorem pr_merged_forever_witness:
  "(\<lambda>a b. pr_extends a b = Inr ())\<^sup>*\<^sup>* sample_pr (sample_pr\<lparr>pr_state_of := PrState_Merged, pr_events := [sample_merge]\<rparr>)
     \<and> (\<exists>e \<in> set [sample_merge]. pv_kind e = PrEvent_Merge)"
proof -
  let ?q = "sample_pr\<lparr>pr_state_of := PrState_Merged, pr_events := [sample_merge]\<rparr>"
  have "pr_extends sample_pr ?q = Inr ()"
    by (simp add: pr_extends_Inr pr_transition_Inr sample_pr_def sample_merge_def)
  then have c: "(\<lambda>a b. pr_extends a b = Inr ())\<^sup>*\<^sup>* sample_pr ?q" by (rule r_into_rtranclp)
  with pr_merged_forever [OF c] show ?thesis by (simp add: sample_pr_def)
qed

end
