(* ===== verification/Incidents.thy ===== *)
theory Incidents
  imports Metadata
begin

text \<open>
  \<open>src/incidents.rs\<close>: operational incidents, stored like issues, with a severity, a table of custom fields and a
  state machine. The table is a \<open>BTreeMap\<close>: a list of pairs with strictly ascending keys.
\<close>

datatype inc_state = Inc_Detected | Inc_Investigating | Inc_Mitigated | Inc_Resolved
datatype severity = Sev1 | Sev2 | Sev3 | Sev4
datatype inc_event_kind = IncEvent_Open | IncEvent_Comment | IncEvent_Transition | IncEvent_Severity | IncEvent_Label
  | IncEvent_Assign | IncEvent_SetField | IncEvent_Resolve | IncEvent_Reopen

definition inc_state_str :: "inc_state \<Rightarrow> bytes" where
  "inc_state_str s =
     (case s of Inc_Detected \<Rightarrow> ascii ''detected'' | Inc_Investigating \<Rightarrow> ascii ''investigating''
      | Inc_Mitigated \<Rightarrow> ascii ''mitigated'' | Inc_Resolved \<Rightarrow> ascii ''resolved'')"

definition inc_state_parse :: "bytes \<Rightarrow> inc_state res" where
  "inc_state_parse s =
     (if s = ascii ''detected'' then Inr Inc_Detected
      else if s = ascii ''investigating'' then Inr Inc_Investigating
      else if s = ascii ''mitigated'' then Inr Inc_Mitigated
      else if s = ascii ''resolved'' then Inr Inc_Resolved
      else Inl (ERefs ''unknown incident state''))"

definition severity_str :: "severity \<Rightarrow> bytes" where
  "severity_str s = (case s of Sev1 \<Rightarrow> ascii ''sev1'' | Sev2 \<Rightarrow> ascii ''sev2'' | Sev3 \<Rightarrow> ascii ''sev3'' | Sev4 \<Rightarrow> ascii ''sev4'')"

definition severity_parse :: "bytes \<Rightarrow> severity res" where
  "severity_parse s =
     (if s \<in> {ascii ''sev1'', ascii ''SEV1'', ascii ''1''} then Inr Sev1
      else if s \<in> {ascii ''sev2'', ascii ''SEV2'', ascii ''2''} then Inr Sev2
      else if s \<in> {ascii ''sev3'', ascii ''SEV3'', ascii ''3''} then Inr Sev3
      else if s \<in> {ascii ''sev4'', ascii ''SEV4'', ascii ''4''} then Inr Sev4
      else Inl (ERefs ''unknown severity''))"

definition inc_event_kind_str :: "inc_event_kind \<Rightarrow> bytes" where
  "inc_event_kind_str k =
     (case k of IncEvent_Open \<Rightarrow> ascii ''open'' | IncEvent_Comment \<Rightarrow> ascii ''comment''
      | IncEvent_Transition \<Rightarrow> ascii ''transition'' | IncEvent_Severity \<Rightarrow> ascii ''severity'' | IncEvent_Label \<Rightarrow> ascii ''label''
      | IncEvent_Assign \<Rightarrow> ascii ''assign'' | IncEvent_SetField \<Rightarrow> ascii ''set_field'' | IncEvent_Resolve \<Rightarrow> ascii ''resolve''
      | IncEvent_Reopen \<Rightarrow> ascii ''reopen'')"

definition inc_event_kind_parse :: "bytes \<Rightarrow> inc_event_kind res" where
  "inc_event_kind_parse s =
     (if s = ascii ''open'' then Inr IncEvent_Open
      else if s = ascii ''comment'' then Inr IncEvent_Comment
      else if s = ascii ''transition'' then Inr IncEvent_Transition
      else if s = ascii ''severity'' then Inr IncEvent_Severity
      else if s = ascii ''label'' then Inr IncEvent_Label
      else if s = ascii ''assign'' then Inr IncEvent_Assign
      else if s = ascii ''set_field'' then Inr IncEvent_SetField
      else if s = ascii ''resolve'' then Inr IncEvent_Resolve
      else if s = ascii ''reopen'' then Inr IncEvent_Reopen
      else Inl (ERefs ''unknown incident event''))"

record inc_event =
  iv_kind :: inc_event_kind
  iv_author :: bytes
  iv_ts :: "64 word"
  iv_body :: bytes
  iv_add :: "bytes list"
  iv_remove :: "bytes list"
  iv_reason :: bytes
  iv_new_state :: bytes
  iv_new_severity :: bytes
  iv_field_key :: bytes
  iv_field_value :: bytes

record incident =
  in_number :: "64 word"
  in_title :: bytes
  in_state :: inc_state
  in_severity :: severity
  in_type :: bytes
  in_author :: bytes
  in_created_ts :: "64 word"
  in_labels :: "bytes list"
  in_assignees :: "bytes list"
  in_mentions :: "64 word list"
  in_fields :: "(bytes \<times> bytes) list"
  in_events :: "inc_event list"

section \<open>Checks\<close>

definition TYPE_MAX_BYTES :: nat where "TYPE_MAX_BYTES = 128"
definition STATE_STR_MAX_BYTES :: nat where "STATE_STR_MAX_BYTES = 64"
definition FIELD_KEY_MAX_BYTES :: nat where "FIELD_KEY_MAX_BYTES = 128"
definition FIELD_VAL_MAX_BYTES :: nat where "FIELD_VAL_MAX_BYTES = 4096"
definition FIELDS_MAX_ENTRIES :: nat where "FIELDS_MAX_ENTRIES = 256"

definition inc_event_checks :: "inc_event \<Rightarrow> unit res list" where
  "inc_event_checks e =
     [check_text_field (iv_author e) AUTHOR_MAX_BYTES, check_text_field (iv_body e) BODY_MAX_BYTES,
      check_text_field (iv_reason e) REASON_MAX_BYTES, check_text_field (iv_new_state e) STATE_STR_MAX_BYTES,
      check_text_field (iv_new_severity e) STATE_STR_MAX_BYTES, check_text_field (iv_field_key e) FIELD_KEY_MAX_BYTES,
      check_text_field (iv_field_value e) FIELD_VAL_MAX_BYTES, check_ts (iv_ts e),
      check_array (iv_add e) ARRAY_MAX_ENTRIES ARRAY_ENTRY_MAX_BYTES,
      check_array (iv_remove e) ARRAY_MAX_ENTRIES ARRAY_ENTRY_MAX_BYTES]"

definition inc_validate :: "incident \<Rightarrow> unit res" where
  "inc_validate i = all_checks
     ([check_text_field (in_title i) TITLE_MAX_BYTES, check_text_field (in_type i) TYPE_MAX_BYTES,
       check_text_field (in_author i) AUTHOR_MAX_BYTES, check_ts (in_created_ts i),
       check_array (in_labels i) ARRAY_MAX_ENTRIES ARRAY_ENTRY_MAX_BYTES,
       check_array (in_assignees i) ARRAY_MAX_ENTRIES ARRAY_ENTRY_MAX_BYTES,
       if length (in_mentions i) > MENTIONS_MAX_ENTRIES then Inl (ERefs ''mentions too long'') else Inr (),
       if length (in_fields i) > FIELDS_MAX_ENTRIES then Inl (ERefs ''fields too many'') else Inr ()]
      @ concat (map (\<lambda>(k, v). [check_text_field k FIELD_KEY_MAX_BYTES, check_text_field v FIELD_VAL_MAX_BYTES]) (in_fields i))
      @ [if length (in_events i) > EVENTS_MAX then Inl (ERefs ''events too long'') else Inr ()]
      @ concat (map inc_event_checks (in_events i)))"

section \<open>The table of custom fields\<close>

definition table_entry :: "(bytes \<Rightarrow> bool) \<Rightarrow> bytes \<times> bytes \<Rightarrow> bytes" where
  "table_entry U kv = debug_str U (fst kv) @ [SP, 61, SP] @ debug_str U (snd kv)"

definition toml_string_map :: "(bytes \<Rightarrow> bool) \<Rightarrow> (bytes \<times> bytes) list \<Rightarrow> bytes" where
  "toml_string_map U m =
     (if m = [] then [123, 125] else [123, SP] @ join [44, SP] (map (table_entry U) m) @ [SP, 125])"

fun table_loop :: "bytes \<Rightarrow> bool \<Rightarrow> bool \<Rightarrow> bytes \<Rightarrow> bytes list \<Rightarrow> bytes list" where
  "table_loop [] in_str escape buf entries = (if trim buf = [] then entries else entries @ [trim buf])"
| "table_loop (c # cs) in_str escape buf entries =
     (if escape then table_loop cs in_str False (buf @ [c]) entries
      else if in_str then table_loop cs (c \<noteq> 34) (c = BSLASH) (buf @ [c]) entries
      else if c = 34 then table_loop cs True False (buf @ [c]) entries
      else if c = 44 then table_loop cs False False [] (if trim buf = [] then entries else entries @ [trim buf])
      else table_loop cs False False (buf @ [c]) entries)"

fun table_entries :: "bytes list \<Rightarrow> (bytes \<times> bytes) list \<Rightarrow> (bytes \<times> bytes) list res" where
  "table_entries [] m = Inr m"
| "table_entries (ent # ents) m =
     (case split_once [61] ent of
        None \<Rightarrow> Inl (ERefs ''incident blob: bad table entry'')
      | Some (k, v) \<Rightarrow>
        (case parse_toml_string (trim k) of
           Inl e \<Rightarrow> Inl e
         | Inr key \<Rightarrow>
           (case parse_toml_string (trim v) of
              Inl e \<Rightarrow> Inl e
            | Inr val \<Rightarrow> table_entries ents (btree_insert key val m))))"

definition parse_toml_string_map :: "bytes \<Rightarrow> (bytes \<times> bytes) list res" where
  "parse_toml_string_map s0 =
     (let s = trim s0 in
      if s = [123, 125] then Inr []
      else if s = [] \<or> hd s \<noteq> 123 \<or> last s \<noteq> 125 then Inl (ERefs ''incident blob: not a table'')
      else table_entries (table_loop (butlast (tl s)) False False [] []) [])"

section \<open>Codec\<close>

definition inc_event_lines :: "(bytes \<Rightarrow> bool) \<Rightarrow> inc_event \<Rightarrow> bytes list" where
  "inc_event_lines U e =
     [ascii ''[[event]]'',
      field_line (ascii ''kind'') (debug_str U (inc_event_kind_str (iv_kind e))),
      field_line (ascii ''author'') (debug_str U (iv_author e)),
      field_line (ascii ''ts'') (print_i64 (iv_ts e)),
      field_line (ascii ''body'') (debug_str U (iv_body e)),
      field_line (ascii ''add'') (toml_string_array U (iv_add e)),
      field_line (ascii ''remove'') (toml_string_array U (iv_remove e)),
      field_line (ascii ''reason'') (debug_str U (iv_reason e)),
      field_line (ascii ''new_state'') (debug_str U (iv_new_state e)),
      field_line (ascii ''new_severity'') (debug_str U (iv_new_severity e)),
      field_line (ascii ''field_key'') (debug_str U (iv_field_key e)),
      field_line (ascii ''field_value'') (debug_str U (iv_field_value e)),
      []]"

definition inc_header_lines :: "(bytes \<Rightarrow> bool) \<Rightarrow> incident \<Rightarrow> bytes list" where
  "inc_header_lines U p =
     [ascii ''# generated by gyt; canonical ordering matters'',
      field_line (ascii ''schema_version'') (to_radix 10 SCHEMA_VERSION),
      field_line (ascii ''kind'') (debug_str U (ascii ''incident'')),
      field_line (ascii ''number'') (to_radix 10 (unat (in_number p))),
      field_line (ascii ''title'') (debug_str U (in_title p)),
      field_line (ascii ''state'') (debug_str U (inc_state_str (in_state p))),
      field_line (ascii ''severity'') (debug_str U (severity_str (in_severity p))),
      field_line (ascii ''incident_type'') (debug_str U (in_type p)),
      field_line (ascii ''author'') (debug_str U (in_author p)),
      field_line (ascii ''created_ts'') (print_i64 (in_created_ts p)),
      field_line (ascii ''labels'') (toml_string_array U (in_labels p)),
      field_line (ascii ''assignees'') (toml_string_array U (in_assignees p)),
      field_line (ascii ''mentions'') (toml_u64_array (in_mentions p)),
      field_line (ascii ''fields'') (toml_string_map U (in_fields p)),
      []]"

definition inc_encode :: "(bytes \<Rightarrow> bool) \<Rightarrow> incident \<Rightarrow> bytes" where
  "inc_encode U p = text_lines (inc_header_lines U p @ concat (map (inc_event_lines U) (in_events p)))"

record inc_parser =
  np_number :: "64 word option"
  np_title :: bytes
  np_state :: "inc_state option"
  np_severity :: "severity option"
  np_type :: bytes
  np_author :: bytes
  np_created_ts :: "64 word"
  np_labels :: "bytes list"
  np_assignees :: "bytes list"
  np_mentions :: "64 word list"
  np_fields :: "(bytes \<times> bytes) list"
  np_schema_seen :: bool
  np_kind_seen :: bool
  np_events :: "inc_event list"
  np_cur :: "inc_event option"

definition inc_parser_init :: inc_parser where
  "inc_parser_init = \<lparr>np_number = None, np_title = [], np_state = None, np_severity = None, np_type = [],
     np_author = [], np_created_ts = 0, np_labels = [], np_assignees = [], np_mentions = [], np_fields = [], np_schema_seen = False,
     np_kind_seen = False, np_events = [], np_cur = None\<rparr>"

definition inc_event_new :: inc_event where
  "inc_event_new = \<lparr>iv_kind = IncEvent_Comment, iv_author = [], iv_ts = 0, iv_body = [], iv_add = [],
     iv_remove = [], iv_reason = [], iv_new_state = [], iv_new_severity = [], iv_field_key = [], iv_field_value = []\<rparr>"

definition inc_event_field :: "inc_event \<Rightarrow> bytes \<Rightarrow> bytes \<Rightarrow> inc_event res" where
  "inc_event_field e key val =
     (if key = ascii ''kind''
      then (case parse_toml_string val of Inl x \<Rightarrow> Inl x | Inr s \<Rightarrow> map_res (inc_event_kind_parse s) (\<lambda>k. e\<lparr>iv_kind := k\<rparr>))
      else if key = ascii ''author'' then map_res (parse_toml_string val) (\<lambda>s. e\<lparr>iv_author := s\<rparr>)
      else if key = ascii ''ts'' then map_res (parse_ts val) (\<lambda>t. e\<lparr>iv_ts := t\<rparr>)
      else if key = ascii ''body'' then map_res (parse_toml_string val) (\<lambda>s. e\<lparr>iv_body := s\<rparr>)
      else if key = ascii ''add'' then map_res (parse_toml_string_array val) (\<lambda>xs. e\<lparr>iv_add := xs\<rparr>)
      else if key = ascii ''remove'' then map_res (parse_toml_string_array val) (\<lambda>xs. e\<lparr>iv_remove := xs\<rparr>)
      else if key = ascii ''reason'' then map_res (parse_toml_string val) (\<lambda>s. e\<lparr>iv_reason := s\<rparr>)
      else if key = ascii ''new_state'' then map_res (parse_toml_string val) (\<lambda>s. e\<lparr>iv_new_state := s\<rparr>)
      else if key = ascii ''new_severity'' then map_res (parse_toml_string val) (\<lambda>s. e\<lparr>iv_new_severity := s\<rparr>)
      else if key = ascii ''field_key'' then map_res (parse_toml_string val) (\<lambda>s. e\<lparr>iv_field_key := s\<rparr>)
      else if key = ascii ''field_value'' then map_res (parse_toml_string val) (\<lambda>s. e\<lparr>iv_field_value := s\<rparr>)
      else Inl (ERefs ''incident blob: unknown event field''))"

definition inc_header_field :: "inc_parser \<Rightarrow> bytes \<Rightarrow> bytes \<Rightarrow> inc_parser res" where
  "inc_header_field st key val =
     (if key = ascii ''schema_version''
      then (case parse_uint 10 U32_LIMIT val of
              None \<Rightarrow> Inl (ERefs ''incident blob: invalid schema_version'')
            | Some v \<Rightarrow> if v \<noteq> SCHEMA_VERSION then Inl (ERefs ''unsupported incident schema_version'')
                        else Inr (st\<lparr>np_schema_seen := True\<rparr>))
      else if key = ascii ''kind''
      then (case parse_toml_string val of
              Inl x \<Rightarrow> Inl x
            | Inr s \<Rightarrow> if s \<noteq> ascii ''incident'' then Inl (ERefs ''incident blob: invalid kind'') else Inr (st\<lparr>np_kind_seen := True\<rparr>))
      else if key = ascii ''number'' then map_res (parse_u64 val) (\<lambda>n. st\<lparr>np_number := Some n\<rparr>)
      else if key = ascii ''title'' then map_res (parse_toml_string val) (\<lambda>s. st\<lparr>np_title := s\<rparr>)
      else if key = ascii ''state''
      then (case parse_toml_string val of Inl x \<Rightarrow> Inl x | Inr s \<Rightarrow> map_res (inc_state_parse s) (\<lambda>k. st\<lparr>np_state := Some k\<rparr>))
      else if key = ascii ''severity''
      then (case parse_toml_string val of Inl x \<Rightarrow> Inl x | Inr s \<Rightarrow> map_res (severity_parse s) (\<lambda>k. st\<lparr>np_severity := Some k\<rparr>))
      else if key = ascii ''incident_type'' then map_res (parse_toml_string val) (\<lambda>s. st\<lparr>np_type := s\<rparr>)
      else if key = ascii ''author'' then map_res (parse_toml_string val) (\<lambda>s. st\<lparr>np_author := s\<rparr>)
      else if key = ascii ''created_ts'' then map_res (parse_ts val) (\<lambda>t. st\<lparr>np_created_ts := t\<rparr>)
      else if key = ascii ''labels'' then map_res (parse_toml_string_array val) (\<lambda>xs. st\<lparr>np_labels := xs\<rparr>)
      else if key = ascii ''assignees'' then map_res (parse_toml_string_array val) (\<lambda>xs. st\<lparr>np_assignees := xs\<rparr>)
      else if key = ascii ''mentions'' then map_res (parse_toml_u64_array val) (\<lambda>xs. st\<lparr>np_mentions := xs\<rparr>)
      else if key = ascii ''fields'' then map_res (parse_toml_string_map val) (\<lambda>m. st\<lparr>np_fields := m\<rparr>)
      else Inl (ERefs ''incident blob: unknown incident field''))"

definition inc_take_event :: "inc_parser \<Rightarrow> inc_parser" where
  "inc_take_event st = (case np_cur st of None \<Rightarrow> st | Some e \<Rightarrow> st\<lparr>np_events := np_events st @ [e], np_cur := None\<rparr>)"

definition inc_line :: "inc_parser \<Rightarrow> bytes \<Rightarrow> inc_parser res" where
  "inc_line st raw =
     (case toml_line raw of
        Inl e \<Rightarrow> Inl e
      | Inr Skip \<Rightarrow> Inr st
      | Inr Event_Start \<Rightarrow> Inr ((inc_take_event st)\<lparr>np_cur := Some inc_event_new\<rparr>)
      | Inr (Field key val) \<Rightarrow>
        (case np_cur st of
           Some e \<Rightarrow> map_res (inc_event_field e key val) (\<lambda>e'. st\<lparr>np_cur := Some e'\<rparr>)
         | None \<Rightarrow> inc_header_field st key val))"

fun inc_lines :: "inc_parser \<Rightarrow> bytes list \<Rightarrow> inc_parser res" where
  "inc_lines st [] = Inr st"
| "inc_lines st (raw # raws) = (case inc_line st raw of Inl e \<Rightarrow> Inl e | Inr st' \<Rightarrow> inc_lines st' raws)"

definition inc_finish :: "inc_parser \<Rightarrow> incident res" where
  "inc_finish st0 =
     (let st = inc_take_event st0 in
      if \<not> np_schema_seen st then Inl (ERefs ''incident blob: invalid missing schema_version'')
      else if \<not> np_kind_seen st then Inl (ERefs ''incident blob: invalid missing kind'')
      else (case np_number st of None \<Rightarrow> Inl (ERefs ''incident blob: invalid missing number'') | Some number \<Rightarrow>
           (case np_state st of None \<Rightarrow> Inl (ERefs ''incident blob: invalid missing state'') | Some state \<Rightarrow>
           (case np_severity st of None \<Rightarrow> Inl (ERefs ''incident blob: invalid missing severity'') | Some sev \<Rightarrow>
           (let p = \<lparr>in_number = number, in_title = np_title st, in_state = state, in_severity = sev, in_type = np_type st,
                     in_author = np_author st, in_created_ts = np_created_ts st, in_labels = np_labels st,
                     in_assignees = np_assignees st, in_mentions = np_mentions st, in_fields = np_fields st,
                     in_events = np_events st\<rparr> in
            case inc_validate p of Inl e \<Rightarrow> Inl e | Inr _ \<Rightarrow> Inr p)))))"

definition inc_decode :: "bytes \<Rightarrow> incident res" where
  "inc_decode b =
     (if \<not> valid_utf8 b then Inl (ERefs ''incident blob is not valid utf-8'')
      else (case inc_lines inc_parser_init (str_lines b) of Inl e \<Rightarrow> Inl e | Inr st \<Rightarrow> inc_finish st))"

section \<open>Updates and storage\<close>

definition is_allowed_transition :: "inc_state \<Rightarrow> inc_state \<Rightarrow> bool" where
  "is_allowed_transition old new =
     (case (old, new) of
        (Inc_Detected, Inc_Investigating) \<Rightarrow> True | (Inc_Detected, Inc_Mitigated) \<Rightarrow> True | (Inc_Detected, Inc_Resolved) \<Rightarrow> True
      | (Inc_Investigating, Inc_Detected) \<Rightarrow> True | (Inc_Investigating, Inc_Mitigated) \<Rightarrow> True
      | (Inc_Investigating, Inc_Resolved) \<Rightarrow> True
      | (Inc_Mitigated, Inc_Investigating) \<Rightarrow> True | (Inc_Mitigated, Inc_Resolved) \<Rightarrow> True
      | (Inc_Resolved, Inc_Investigating) \<Rightarrow> True
      | _ \<Rightarrow> False)"

definition inc_extends :: "incident \<Rightarrow> incident \<Rightarrow> unit res" where
  "inc_extends old new =
     (if in_number new \<noteq> in_number old then Inl (ERefs ''incident rewind: number changed'')
      else if in_created_ts new \<noteq> in_created_ts old then Inl (ERefs ''incident rewind: created_ts changed'')
      else if in_author new \<noteq> in_author old then Inl (ERefs ''incident rewind: author changed'')
      else if in_title new \<noteq> in_title old then Inl (ERefs ''incident rewind: title changed'')
      else if in_type new \<noteq> in_type old then Inl (ERefs ''incident rewind: incident_type changed'')
      else (case events_extend iv_ts (in_events old) (in_events new) of
              Inl e \<Rightarrow> Inl e
            | Inr _ \<Rightarrow>
                if in_state old \<noteq> in_state new \<and> \<not> is_allowed_transition (in_state old) (in_state new)
                then Inl (ERefs ''incident rewind: invalid state transition'') else Inr ()))"

definition INCIDENT_REFS_PREFIX :: bytes where "INCIDENT_REFS_PREFIX = ascii ''refs/incidents''"
definition INCIDENT_COUNTER_PATH :: fpath where "INCIDENT_COUNTER_PATH = [ascii ''meta'', ascii ''incidents_next'']"

definition inc_next_number :: "bytes \<Rightarrow> fs \<Rightarrow> fpath \<Rightarrow> 64 word res \<times> fs" where
  "inc_next_number nonce fs gyt = next_number nonce fs gyt INCIDENT_COUNTER_PATH"

definition inc_read :: "fs \<Rightarrow> reader \<Rightarrow> fpath \<Rightarrow> 64 word \<Rightarrow> incident res" where
  "inc_read fs rd gyt n = read_record fs rd gyt INCIDENT_REFS_PREFIX inc_decode in_number n"

definition inc_write_locked ::
  "(bytes \<Rightarrow> bool) \<Rightarrow> xz_lib \<Rightarrow> (bytes \<Rightarrow> bytes) \<Rightarrow> bytes \<Rightarrow> bytes \<Rightarrow> fs \<Rightarrow> fpath \<Rightarrow> incident \<Rightarrow> object_id res run \<times> fs" where
  "inc_write_locked U X H nonce nonce' fs gyt p =
     write_record X H nonce nonce' fs gyt INCIDENT_REFS_PREFIX inc_validate (inc_encode U) in_number p"

definition inc_list :: "fs \<Rightarrow> reader \<Rightarrow> fpath \<Rightarrow> incident list res" where
  "inc_list fs rd gyt = list_records fs rd gyt INCIDENT_REFS_PREFIX inc_decode in_number"

section \<open>Round trip of the table\<close>

lemma trim_sp_cons: "trim (SP # s) = trim s"
proof -
  have "ws_len (SP # s) = 1" by (simp add: ws_len_def byte_in_def)
  then have "trim_start (SP # s) = trim_start s" by (subst trim_start.simps) simp
  then show ?thesis by (simp add: trim_def)
qed

lemma table_plain:
  "BSLASH \<notin> set c \<Longrightarrow> 34 \<notin> set c \<Longrightarrow> table_loop (c @ rest) True False buf out = table_loop rest True False (buf @ c) out"
  by (induction c arbitrary: buf) auto

lemma table_char:
  "good_char U c \<Longrightarrow> table_loop (debug_char U c @ rest) True False buf out = table_loop rest True False (buf @ debug_char U c) out"
  by (erule debug_char_good) (simp_all add: table_plain)

lemma table_text:
  "\<forall>c \<in> set cs. good_char U c \<Longrightarrow>
     table_loop (concat (map (debug_char U) cs) @ rest) True False buf out =
     table_loop rest True False (buf @ concat (map (debug_char U) cs)) out"
  by (induction cs arbitrary: buf) (simp_all add: table_char)

lemma table_quoted:
  "printable U s \<Longrightarrow> table_loop (debug_str U s @ rest) False False buf out = table_loop rest False False (buf @ debug_str U s) out"
  by (simp add: debug_str_def table_text printable_good)

lemma table_entry_scan:
  "printable U k \<Longrightarrow> printable U v \<Longrightarrow>
     table_loop (table_entry U (k, v) @ rest) False False buf out = table_loop rest False False (buf @ table_entry U (k, v)) out"
  by (simp add: table_entry_def table_quoted)

lemma table_entry_ends: "table_entry U kv \<noteq> []" "solid (hd (table_entry U kv))" "solid (last (table_entry U kv))"
  using debug_str_ends by (simp_all add: table_entry_def)

lemma trim_table_entry: "trim (SP # table_entry U kv) = table_entry U kv" "trim (SP # table_entry U kv @ [SP]) = table_entry U kv"
  by (simp_all add: trim_sp_cons trim_solid trim_sp_right table_entry_ends)

lemma table_items:
  "m \<noteq> [] \<Longrightarrow> \<forall>kv \<in> set m. printable U (fst kv) \<and> printable U (snd kv) \<Longrightarrow>
     table_loop (join [44, SP] (map (table_entry U) m) @ [SP]) False False [SP] out = out @ map (table_entry U) m"
proof (induction m arbitrary: out rule: induct_list012)
  case (2 kv)
  then show ?case
    using table_entry_scan [of U "fst kv" "snd kv" "[SP]" "[SP]" out] by (simp add: trim_table_entry table_entry_ends)
next
  case (3 kv kw m)
  then show ?case
    using table_entry_scan [of U "fst kv" "snd kv" "44 # SP # join [44, SP] (map (table_entry U) (kw # m)) @ [SP]" "[SP]" out]
    by (simp add: trim_table_entry table_entry_ends)
qed simp

definition table_ok :: "(bytes \<times> bytes) list \<Rightarrow> bool" where
  \<comment> \<open>a table in key order whose keys contain no equals sign\<close>
  "table_ok m \<longleftrightarrow> sorted_wrt (<) (map fst m) \<and> (\<forall>kv \<in> set m. 61 \<notin> set (fst kv))"

lemma debug_no_eq: "printable U s \<Longrightarrow> 61 \<notin> set s \<Longrightarrow> 61 \<notin> set (debug_str U s)"
proof -
  assume p: "printable U s" "61 \<notin> set s"
  have "61 \<notin> set (debug_char U c)" if c: "c \<in> set (chars s)" for c
  proof -
    have n: "61 \<notin> set c" using c p(2) concat_chars [of s] by (metis UN_I set_concat)
    show ?thesis using printable_good [OF p(1) c]
      by (rule debug_char_good) (use n in \<open>auto simp: escaped_def split: if_splits\<close>)
  qed
  then show ?thesis by (auto simp: debug_str_def)
qed

lemma table_entry_split:
  "printable U k \<Longrightarrow> 61 \<notin> set k \<Longrightarrow> split_once [61] (table_entry U (k, v)) = Some (debug_str U k @ [SP], SP # debug_str U v)"
  using split_once_char [of 61 "debug_str U k @ [SP]" "SP # debug_str U v"] debug_no_eq [of U k]
  by (simp add: table_entry_def)

lemma table_entries_round:
  "\<forall>kv \<in> set m'. printable U (fst kv) \<and> printable U (snd kv) \<Longrightarrow> table_ok (m @ m') \<Longrightarrow>
     table_entries (map (table_entry U) m') m = Inr (m @ m')"
proof (induction m' arbitrary: m)
  case (Cons kv m')
  obtain k v where kv: "kv = (k, v)" by fastforce
  have p: "printable U k" "printable U v" "61 \<notin> set k" using Cons.prems kv by (auto simp: table_ok_def)
  have t: "trim (debug_str U k @ [SP]) = debug_str U k" "trim (SP # debug_str U v) = debug_str U v"
    using debug_str_ends by (simp_all add: trim_sp_right trim_sp_left)
  have "btree_insert k v m = m @ [(k, v)]"
    using Cons.prems(2) kv by (intro btree_insert_last) (auto simp: table_ok_def sorted_wrt_append)
  with p t kv Cons.IH [of "m @ [(k, v)]"] Cons.prems show ?case
    by (simp add: table_entry_split parse_debug_str)
qed simp

lemma braced: "trim (123 # s @ [125]) = 123 # s @ [125]"
  by (rule trim_solid) (simp_all add: solid_def)

lemma parse_string_map:
  assumes "\<forall>s \<in> set (map fst m). printable U s" "\<forall>s \<in> set (map snd m). printable U s" "table_ok m"
  shows "parse_toml_string_map (toml_string_map U m) = Inr m"
proof (cases "m = []")
  case True
  then show ?thesis using braced [of "[]"] by (simp add: parse_toml_string_map_def toml_string_map_def)
next
  case False
  let ?j = "join [44, SP] (map (table_entry U) m)"
  have p: "\<forall>kv \<in> set m. printable U (fst kv) \<and> printable U (snd kv)" using assms(1,2) by simp
  have "toml_string_map U m = 123 # (SP # ?j @ [SP]) @ [125]" using False by (simp add: toml_string_map_def)
  then show ?thesis
    using braced [of "SP # ?j @ [SP]"] table_items [OF False p, of "[]"] table_entries_round [OF p, of "[]"] assms(3)
    by (simp add: parse_toml_string_map_def butlast_append)
qed

lemma string_map_value:
  assumes "\<forall>s \<in> set (map fst m). printable U s" "\<forall>s \<in> set (map snd m). printable U s"
  shows "value_ok (toml_string_map U m)"
proof -
  have "\<forall>x \<in> set (map (table_entry U) m). NL \<notin> set x \<and> valid_utf8 x"
    using assms debug_str_value by (fastforce simp: table_entry_def value_ok_def valid_utf8_append valid_utf8_low)
  from join_valid [OF this] show ?thesis
    by (simp add: toml_string_map_def value_ok_def solid_def valid_utf8_append valid_utf8_low)
qed

section \<open>Decoding what was encoded\<close>

definition inc_event_texts :: "inc_event \<Rightarrow> bytes list" where
  "inc_event_texts e = iv_author e # iv_body e # iv_reason e # iv_new_state e # iv_new_severity e # iv_field_key e # iv_field_value e # iv_add e @ iv_remove e"

definition inc_texts :: "incident \<Rightarrow> bytes list" where
  "inc_texts p = in_title p # in_author p # in_type p # map fst (in_fields p) @ map snd (in_fields p) @ in_labels p @ in_assignees p
     @ concat (map inc_event_texts (in_events p))"

lemma inc_keys:
  "key_name (ascii ''severity'')" "key_name (ascii ''incident_type'')" "key_name (ascii ''fields'')" "key_name (ascii ''new_state'')"
  "key_name (ascii ''new_severity'')" "key_name (ascii ''field_key'')" "key_name (ascii ''field_value'')"
  by (rule key_name_word; simp add: word_chars_def)+

lemma inc_state_words: "printable U (inc_state_str s) \<and> inc_state_parse (inc_state_str s) = Inr s"
  by (cases s) (simp_all add: inc_state_str_def printable_ascii inc_state_parse_def)

lemma severity_words: "printable U (severity_str s) \<and> severity_parse (severity_str s) = Inr s"
  by (cases s) (simp_all add: severity_str_def printable_ascii severity_parse_def)

lemma inc_event_words: "printable U (inc_event_kind_str e) \<and> inc_event_kind_parse (inc_event_kind_str e) = Inr e"
  by (cases e) (simp_all add: inc_event_kind_str_def printable_ascii inc_event_kind_parse_def)

lemma incident_word: "printable U (ascii ''incident'')"
  by (rule printable_ascii) simp

lemmas inc_words = inc_state_words severity_words inc_event_words incident_word

lemmas inc_line_simps = inc_line_def inc_words inc_keys toml_line_simps string_map_value parse_string_map

lemma inc_lines_append:
  "inc_lines st (xs @ ys) = (case inc_lines st xs of Inl e \<Rightarrow> Inl e | Inr st' \<Rightarrow> inc_lines st' ys)"
  by (induction xs arbitrary: st) (auto split: sum.splits)

lemma inc_event_round:
  assumes "\<forall>s \<in> set (inc_event_texts e). printable U s"
  shows "inc_lines st (inc_event_lines U e) = Inr ((inc_take_event st)\<lparr>np_cur := Some e\<rparr>)"
  using assms
  by (simp add: inc_event_lines_def inc_event_texts_def inc_line_simps inc_event_field_def inc_event_new_def del: ascii_Cons)

lemma inc_events_round:
  assumes "\<forall>e \<in> set es. \<forall>s \<in> set (inc_event_texts e). printable U s"
  shows "map_res (inc_lines st (concat (map (inc_event_lines U) es))) inc_take_event
    = Inr ((inc_take_event st)\<lparr>np_events := np_events (inc_take_event st) @ es\<rparr>)"
  using assms
proof (induction es arbitrary: st)
  case Nil
  then show ?case by simp
next
  case (Cons e es)
  have "inc_take_event ((inc_take_event st)\<lparr>np_cur := Some e\<rparr>)
      = (inc_take_event st)\<lparr>np_events := np_events (inc_take_event st) @ [e]\<rparr>"
    by (cases st) (simp add: inc_take_event_def split: option.splits)
  with Cons show ?case by (simp add: inc_lines_append inc_event_round)
qed

definition inc_parsed :: "incident \<Rightarrow> inc_event list \<Rightarrow> inc_parser" where
  "inc_parsed p es = \<lparr>np_number = Some (in_number p), np_title = in_title p, np_state = Some (in_state p),
     np_severity = Some (in_severity p), np_type = in_type p, np_author = in_author p,
     np_created_ts = in_created_ts p, np_labels = in_labels p, np_assignees = in_assignees p,
     np_mentions = in_mentions p, np_fields = in_fields p, np_schema_seen = True, np_kind_seen = True,
     np_events = es, np_cur = None\<rparr>"

lemma inc_header_round:
  assumes "\<forall>s \<in> set (inc_texts p). printable U s" "table_ok (in_fields p)"
  shows "inc_lines inc_parser_init (inc_header_lines U p) = Inr (inc_parsed p [])"
  using assms
  by (simp add: inc_header_lines_def inc_texts_def inc_line_simps inc_header_field_def inc_parser_init_def inc_parsed_def
      del: ascii_Cons)

lemma inc_plain_lines:
  assumes "\<forall>s \<in> set (inc_texts p). printable U s"
  shows "\<forall>l \<in> set (inc_header_lines U p @ concat (map (inc_event_lines U) (in_events p))). plain_line l"
proof -
  have "plain_line (ascii ''[[event]]'')" and c: "plain_line (ascii ''# generated by gyt; canonical ordering matters'')"
    by (rule plain_line_ascii, simp)+
  moreover have "\<forall>e \<in> set (in_events p). \<forall>s \<in> set (inc_event_texts e). printable U s"
    using assms by (auto simp: inc_texts_def)
  ultimately have "\<forall>e \<in> set (in_events p). \<forall>l \<in> set (inc_event_lines U e). plain_line l"
    by (simp add: inc_event_lines_def inc_event_texts_def inc_line_simps plain_field_line plain_line_Nil del: ascii_Cons)
  moreover have "\<forall>l \<in> set (inc_header_lines U p). plain_line l"
    using assms c
    by (simp add: inc_header_lines_def inc_texts_def inc_line_simps plain_field_line plain_line_Nil del: ascii_Cons)
  ultimately show ?thesis by auto
qed

lemma inc_take_none: "np_cur st = None \<Longrightarrow> inc_take_event st = st"
  by (simp add: inc_take_event_def)

lemma inc_finish_take: "inc_finish (inc_take_event st) = inc_finish st"
  by (simp add: inc_finish_def inc_take_event_def split: option.splits)

lemma inc_round:
  assumes "inc_validate p = Inr ()" "\<forall>s \<in> set (inc_texts p). printable U s" "table_ok (in_fields p)"
  shows "inc_decode (inc_encode U p) = Inr p"
proof -
  let ?ls = "inc_header_lines U p @ concat (map (inc_event_lines U) (in_events p))"
  have e: "\<forall>e \<in> set (in_events p). \<forall>s \<in> set (inc_event_texts e). printable U s"
    using assms(2) by (auto simp: inc_texts_def)
  have "inc_take_event (inc_parsed p []) = inc_parsed p []" by (rule inc_take_none) (simp add: inc_parsed_def)
  then obtain st where st: "inc_lines inc_parser_init ?ls = Inr st" and t: "inc_take_event st = inc_parsed p (in_events p)"
    using inc_events_round [OF e, of "inc_parsed p []"] unfolding inc_lines_append inc_header_round [OF assms(2,3)]
    by (auto simp: map_res_def inc_parsed_def split: sum.splits)
  have "inc_finish (inc_take_event st) = Inr p"
    unfolding t using assms(1) by (cases p) (simp add: inc_finish_def inc_take_none inc_parsed_def)
  then show ?thesis
    using st inc_plain_lines [OF assms(2)]
    by (simp add: inc_decode_def inc_encode_def valid_text_lines str_lines_text inc_finish_take)
qed

section \<open>Updates only append\<close>

lemma inc_decode_valid: "inc_decode b = Inr p \<Longrightarrow> inc_validate p = Inr ()"
  unfolding inc_decode_def inc_finish_def Let_def res_simps by auto

lemma inc_extends_Inr:
  "inc_extends old new = Inr () \<longleftrightarrow>
     in_number new = in_number old \<and> in_created_ts new = in_created_ts old \<and> in_author new = in_author old
     \<and> in_title new = in_title old \<and> in_type new = in_type old
     \<and> prefix (in_events old) (in_events new) \<and> sorted (map (sint \<circ> iv_ts) (in_events new))
     \<and> (in_state new = in_state old \<or> is_allowed_transition (in_state old) (in_state new))"
  using events_extend_Inr [of iv_ts "in_events old" "in_events new"]
  by (cases "events_extend iv_ts (in_events old) (in_events new)") (auto simp: inc_extends_def)

interpretation incs: ledger inc_validate "inc_encode U" inc_decode in_number
    "\<lambda>p. (\<forall>s \<in> set (inc_texts p). printable U s) \<and> table_ok (in_fields p)" inc_extends in_events for U
  by unfold_locales (simp_all add: inc_round inc_decode_valid inc_extends_Inr)

text \<open>The checks accept a field name that contains an equals sign, and the table written for it is not readable.\<close>

lemma table_key_lost:
  "parse_toml_string_map (toml_string_map U [(ascii ''a=b'', ascii ''c'')]) = Inl (ERefs ''blob: not a quoted string'')"
proof -
  let ?e = "table_entry U (ascii ''a=b'', ascii ''c'')"
  have p: "printable U (ascii ''a=b'')" "printable U (ascii ''c'')" by (rule printable_ascii, simp)+
  have "toml_string_map U [(ascii ''a=b'', ascii ''c'')] = 123 # (SP # ?e @ [SP]) @ [125]" by (simp add: toml_string_map_def)
  moreover have "table_loop (SP # ?e @ [SP]) False False [] [] = [?e]"
    using table_entry_scan [OF p, of "[SP]" "[SP]" "[]"] by (simp add: trim_table_entry table_entry_ends del: ascii_Cons)
  moreover have "split_once [61] ?e = Some ([34, 97], 98 # 34 # SP # 61 # SP # debug_str U (ascii ''c''))"
    by (simp add: table_entry_def debug_str_def chars_ascii debug_char_def)
  moreover have "trim [34, 97] = [34, 97]" by (rule trim_solid) (simp_all add: solid_def)
  ultimately show ?thesis
    using braced [of "SP # ?e @ [SP]"] by (simp add: parse_toml_string_map_def parse_toml_string_def butlast_append del: ascii_Cons)
qed

section \<open>The state machine\<close>


definition sample_incident :: incident where
  "sample_incident = \<lparr>in_number = 1, in_title = ascii ''t'', in_state = Inc_Detected, in_severity = Sev1, in_type = [],
     in_author = ascii ''ann'', in_created_ts = 7, in_labels = [], in_assignees = [], in_mentions = [], in_fields = [],
     in_events = []\<rparr>"


end
