(* ===== verification/Graph.thy ===== *)
theory Graph
  imports Store_View
begin

text \<open>
  Walks over the commit graph: \<open>is_ancestor\<close>, \<open>merge_base\<close> and \<open>ancestors_inclusive\<close> of \<open>src/cmd/merge.rs\<close>,
  \<open>is_ancestor\<close> of \<open>src/cmd/branch.rs\<close>, \<open>commits_between\<close> of \<open>src/cmd/rebase.rs\<close> and \<open>ahead_behind\<close> of
  \<open>src/cmd/status.rs\<close>. Each is a \<open>while\<close> loop over a work list and a set of visited ids; its turn is a function and
  \<open>loop\<close> runs it. A stack is a list with its top first, a queue a list with its front first. The locale
  \<open>traversal\<close> says what such a turn does to the work list and to the visited set, and shows once that the loop ends
  and has visited exactly what can be reached.
\<close>

section \<open>Reachability\<close>

text \<open>What can be reached from \<open>A\<close> along \<open>succs\<close> without entering \<open>Z\<close>.\<close>

inductive reach :: "('a \<Rightarrow> 'a list) \<Rightarrow> 'a set \<Rightarrow> 'a set \<Rightarrow> 'a \<Rightarrow> bool" for succs A Z where
  reach_start: "a \<in> A \<Longrightarrow> a \<notin> Z \<Longrightarrow> reach succs A Z a"
| reach_next: "reach succs A Z x \<Longrightarrow> y \<in> set (succs x) \<Longrightarrow> y \<notin> Z \<Longrightarrow> reach succs A Z y"

lemma reach_avoids: "reach succs A Z x \<Longrightarrow> x \<notin> Z"
  by (erule reach.cases) simp_all

lemma reach_weaken: "reach succs A Z x \<Longrightarrow> reach succs A {} x"
  by (induction rule: reach.induct) (auto intro: reach.intros)

lemma reach_antimono: "reach succs A Z x \<Longrightarrow> Z' \<subseteq> Z \<Longrightarrow> reach succs A Z' x"
  by (induction rule: reach.induct) (auto intro: reach.intros)

lemma reach_mono: "reach succs A Z x \<Longrightarrow> A \<subseteq> B \<Longrightarrow> reach succs B Z x"
  by (induction rule: reach.induct) (auto intro: reach.intros)

lemma reach_trans: "reach succs {y} {} z \<Longrightarrow> reach succs A {} y \<Longrightarrow> reach succs A {} z"
  by (induction rule: reach.induct) (auto intro: reach.intros)

lemma reach_outside:
  assumes "\<And>x y. x \<in> Z \<Longrightarrow> y \<in> set (succs x) \<Longrightarrow> y \<in> Z"
  shows "reach succs A Z x \<longleftrightarrow> reach succs A {} x \<and> x \<notin> Z"
proof
  show "reach succs A {} x \<and> x \<notin> Z \<Longrightarrow> reach succs A Z x"
  proof (erule conjE, induction rule: reach.induct)
    case (reach_next x y)
    then show ?case using assms by (blast intro: reach.reach_next)
  qed (blast intro: reach_start)
qed (blast dest: reach_weaken reach_avoids)

text \<open>The state of a walk that started with the work list \<open>A\<close> and the visited set \<open>Z\<close>: everything it has
  visited or still has to visit can be reached, and every successor of a visited point is visited or waiting.\<close>

definition covers :: "('a \<Rightarrow> 'a list) \<Rightarrow> 'a set \<Rightarrow> 'a set \<Rightarrow> 'a set \<Rightarrow> 'a set \<Rightarrow> bool" where
  "covers succs A Z seen work \<longleftrightarrow>
     Z \<subseteq> seen \<and> A \<subseteq> seen \<union> work \<and> seen \<subseteq> Z \<union> Collect (reach succs A Z) \<and> work \<subseteq> Z \<union> Collect (reach succs A Z)
     \<and> (\<forall>x \<in> seen - Z. set (succs x) \<subseteq> seen \<union> work)"

lemma covers_start: "covers succs A Z Z A"
  by (auto simp: covers_def intro: reach_start)

lemma covers_done:
  assumes "covers succs A Z seen {}"
  shows "seen = Z \<union> Collect (reach succs A Z)"
proof -
  have "x \<in> seen" if "reach succs A Z x" for x
    using that assms by (induction rule: reach.induct) (auto simp: covers_def dest: reach_avoids)
  with assms show ?thesis by (auto simp: covers_def)
qed

lemma covers_skip: "covers succs A Z seen (insert x work) \<Longrightarrow> x \<in> seen \<Longrightarrow> covers succs A Z seen work"
  unfolding covers_def by blast

lemma covers_visit:
  assumes "covers succs A Z seen (insert x work)" "x \<notin> seen"
    "work \<subseteq> work' \<union> insert x seen" "work' \<subseteq> work \<union> set (succs x)" "set (succs x) \<subseteq> work' \<union> insert x seen"
  shows "covers succs A Z (insert x seen) work'"
proof -
  have c: "Z \<subseteq> seen" "A \<subseteq> seen \<union> insert x work" "seen \<subseteq> Z \<union> Collect (reach succs A Z)"
    "insert x work \<subseteq> Z \<union> Collect (reach succs A Z)" "\<forall>y \<in> seen - Z. set (succs y) \<subseteq> seen \<union> insert x work"
    using assms(1) by (simp_all add: covers_def)
  have x: "reach succs A Z x" using c(1,4) assms(2) by blast
  have "work' \<subseteq> Z \<union> Collect (reach succs A Z)" using c(4) x assms(4) by (blast intro: reach_next)
  moreover have "A \<subseteq> insert x seen \<union> work'" using c(2) assms(3) by blast
  moreover have "set (succs y) \<subseteq> insert x seen \<union> work'" if "y \<in> insert x seen - Z" for y
  proof (cases "y = x")
    case True
    with assms(5) show ?thesis by blast
  next
    case False
    with that c(5) have "set (succs y) \<subseteq> seen \<union> insert x work" by simp
    with assms(3) show ?thesis by blast
  qed
  ultimately show ?thesis using x c(1,3) by (simp add: covers_def subset_insertI2)
qed

section \<open>Work-list loops\<close>

definition walk_left :: "'a set \<Rightarrow> 'a set \<Rightarrow> 'a list \<Rightarrow> nat \<times> nat" where
  "walk_left R seen work = (card (R - seen), length work)"

locale traversal =
  fixes step :: "'s \<Rightarrow> 's + 'r" and work :: "'s \<Rightarrow> 'a list" and seen :: "'s \<Rightarrow> 'a set" and succs :: "'a \<Rightarrow> 'a list"
  assumes advance: "step s = Inl s' \<Longrightarrow> \<exists>x w. work s = x # w \<and>
    (x \<in> seen s \<and> seen s' = seen s \<and> work s' = w
     \<or> x \<notin> seen s \<and> seen s' = insert x (seen s) \<and> set w \<subseteq> set (work s') \<union> seen s'
       \<and> set (work s') \<subseteq> set w \<union> set (succs x) \<and> set (succs x) \<subseteq> set (work s') \<union> seen s')"
begin

lemma tracks_step:
  assumes "step s = Inl s'" "covers succs A Z (seen s) (set (work s))"
  shows "covers succs A Z (seen s') (set (work s'))"
  using advance [OF assms(1)]
proof (elim exE conjE disjE)
  fix x w assume "work s = x # w" "x \<in> seen s" "seen s' = seen s" "work s' = w"
  with assms(2) covers_skip [of succs A Z "seen s" x "set w"] show ?thesis by simp
next
  fix x w assume "work s = x # w" "x \<notin> seen s" "seen s' = insert x (seen s)" "set w \<subseteq> set (work s') \<union> seen s'"
    "set (work s') \<subseteq> set w \<union> set (succs x)" "set (succs x) \<subseteq> set (work s') \<union> seen s'"
  with assms(2) covers_visit [of succs A Z "seen s" x "set w" "set (work s')"] show ?thesis by simp
qed

lemma progress_step:
  assumes "step s = Inl s'" "covers succs A Z (seen s) (set (work s))" "finite (Collect (reach succs A Z))"
  shows "(walk_left (Collect (reach succs A Z)) (seen s') (work s'), walk_left (Collect (reach succs A Z)) (seen s) (work s))
    \<in> less_than <*lex*> less_than"
proof -
  let ?R = "Collect (reach succs A Z)"
  from advance [OF assms(1)] obtain x w where w: "work s = x # w"
    and c: "x \<in> seen s \<and> seen s' = seen s \<and> work s' = w \<or> x \<notin> seen s \<and> seen s' = insert x (seen s)" by blast
  have "x \<in> Z \<union> ?R" "Z \<subseteq> seen s" using assms(2) w by (auto simp: covers_def)
  with c have "work s' = w \<and> seen s' = seen s \<or> ?R - seen s' \<subset> ?R - seen s" by blast
  with w assms(3) show ?thesis by (auto simp: walk_left_def intro!: psubset_card_mono)
qed

lemma run:
  assumes "finite (Collect (reach succs A Z))" "set (work s) = A" "seen s = Z" "J s"
    and "\<And>s s'. step s = Inl s' \<Longrightarrow> covers succs A Z (seen s) (set (work s)) \<Longrightarrow> J s \<Longrightarrow> J s'"
  obtains t r where "loop step s = Some r" "step t = Inr r" "covers succs A Z (seen t) (set (work t))" "J t"
proof -
  let ?Q = "\<lambda>r. \<exists>t. step t = Inr r \<and> covers succs A Z (seen t) (set (work t)) \<and> J t"
  have e: "\<exists>r. loop step s = Some r \<and> ?Q r"
  proof (rule loop_rule [where I = "\<lambda>s. covers succs A Z (seen s) (set (work s)) \<and> J s" and s = s
        and R = "inv_image (less_than <*lex*> less_than) (\<lambda>s. walk_left (Collect (reach succs A Z)) (seen s) (work s))"])
    show "covers succs A Z (seen s) (set (work s)) \<and> J s" using assms(2,3,4) covers_start by simp
  next
    fix s r assume "covers succs A Z (seen s) (set (work s)) \<and> J s" "step s = Inr r"
    then show "?Q r" by blast
  next
    fix s s' assume c: "covers succs A Z (seen s) (set (work s)) \<and> J s" and st: "step s = Inl s'"
    from tracks_step [OF st conjunct1 [OF c]] progress_step [OF st conjunct1 [OF c] assms(1)] assms(5) [OF st conjunct1 [OF c] conjunct2 [OF c]]
    show "(covers succs A Z (seen s') (set (work s')) \<and> J s') \<and> (s', s) \<in> inv_image (less_than <*lex*> less_than)
       (\<lambda>s. walk_left (Collect (reach succs A Z)) (seen s) (work s))" by (simp add: in_inv_image)
  qed (simp add: wf_inv_image wf_lex_prod)
  then obtain r where r: "loop step s = Some r \<and> ?Q r" ..
  then obtain t where "step t = Inr r \<and> covers succs A Z (seen t) (set (work t)) \<and> J t" by blast
  with r show thesis by (intro that [of r t]) simp_all
qed

end

section \<open>The commit graph\<close>

definition commit_parents :: "reader \<Rightarrow> object_id \<Rightarrow> object_id list" where
  "commit_parents rd i = (case commit_read rd i of Inl _ \<Rightarrow> [] | Inr c \<Rightarrow> c_parents c)"

definition ancestor :: "reader \<Rightarrow> object_id \<Rightarrow> object_id \<Rightarrow> bool" where
  \<comment> \<open>the first commit is the second one or an ancestor of it\<close>
  "ancestor rd a d \<longleftrightarrow> reach (commit_parents rd) {d} {} a"

lemma commit_decode_ids: "commit_decode p = Inr c \<Longrightarrow> wf_id (c_tree c) \<and> list_all wf_id (c_parents c)"
proof -
  assume "commit_decode p = Inr c"
  then obtain header message st where l: "commit_lines commit_parse_init (str_lines header) = Inr st"
    and f: "commit_finish st message = Inr c"
    by (auto simp: commit_decode_def split: if_splits option.splits prod.splits sum.splits)
  have "commit_ids commit_parse_init" by (simp add: commit_ids_def commit_parse_init_def)
  then have "commit_ids st" using l by (rule commit_lines_ids)
  with f show ?thesis by (auto simp: commit_finish_def commit_ids_def split: if_splits option.splits)
qed

lemma commit_parents_wf: "p \<in> set (commit_parents rd i) \<Longrightarrow> wf_id p"
proof (cases "commit_read rd i")
  case (Inr c)
  then obtain b where "commit_decode b = Inr c" by (cases "rd i") (auto simp: commit_read_def split: if_splits)
  from commit_decode_ids [OF this] show "p \<in> set (commit_parents rd i) \<Longrightarrow> wf_id p"
    by (simp add: commit_parents_def list_all_iff Inr)
qed (simp add: commit_parents_def)

lemma commit_parents_cases:
  "commit_read rd i = Inr c \<Longrightarrow> commit_parents rd i = c_parents c"
  "commit_read rd i = Inl e \<Longrightarrow> commit_parents rd i = []"
  "rd i = Inr obj \<Longrightarrow> obj_kind obj \<noteq> Commit \<Longrightarrow> commit_parents rd i = []"
  by (simp_all add: commit_parents_def commit_read_def)

lemma commit_read_kind: "rd i = Inr obj \<Longrightarrow> commit_read rd i = Inr c \<Longrightarrow> obj_kind obj = Commit"
  by (simp add: commit_read_def split: if_splits)

lemma finite_wf_ids: "finite {i. wf_id i}"
proof -
  have "{i. wf_id i} \<subseteq> ObjectId ` {b. set b \<subseteq> UNIV \<and> length b = HASH_LEN}"
    by (force simp: wf_id_def image_iff intro: object_id.collapse [symmetric])
  moreover have "finite {b :: bytes. set b \<subseteq> UNIV \<and> length b = HASH_LEN}" by (rule finite_lists_length_eq) simp
  ultimately show ?thesis by (rule finite_subset [OF _ finite_imageI])
qed

lemma finite_reach_ids:
  assumes "\<And>x p. p \<in> set (succs x) \<Longrightarrow> wf_id p" "finite A"
  shows "finite (Collect (reach succs A Z))"
proof -
  have "x \<in> A \<union> {i. wf_id i}" if "reach succs A Z x" for x
    using that assms(1) by (induction rule: reach.induct) auto
  then have "Collect (reach succs A Z) \<subseteq> A \<union> {i. wf_id i}" by blast
  then show ?thesis using assms(2) finite_wf_ids finite_subset by blast
qed

lemma finite_reach_commits: "finite A \<Longrightarrow> finite (Collect (reach (commit_parents rd) A Z))"
  by (rule finite_reach_ids) (rule commit_parents_wf)

subsection \<open>\<open>src/cmd/merge.rs\<close>\<close>

type_synonym walk = "object_id list \<times> object_id set"

definition is_ancestor_step :: "reader \<Rightarrow> object_id \<Rightarrow> walk \<Rightarrow> walk + bool res" where
  "is_ancestor_step rd anc = (\<lambda>(stack, seen).
     case stack of
       [] \<Rightarrow> Inr (Inr False)
     | i # stack \<Rightarrow>
       if i \<in> seen then Inl (stack, seen)
       else (let seen = insert i seen in
             if i = anc then Inr (Inr True)
             else (case commit_read rd i of
                     Inl _ \<Rightarrow> Inl (stack, seen)
                   | Inr c \<Rightarrow> Inl (rev (c_parents c) @ stack, seen))))"

definition is_ancestor :: "reader \<Rightarrow> object_id \<Rightarrow> object_id \<Rightarrow> bool res option" where
  "is_ancestor rd anc d = (if anc = d then Some (Inr True) else loop (is_ancestor_step rd anc) ([d], {}))"

definition ancestors_step :: "reader \<Rightarrow> walk \<Rightarrow> walk + object_id set" where
  "ancestors_step rd = (\<lambda>(stack, out).
     case stack of
       [] \<Rightarrow> Inr out
     | cur # stack \<Rightarrow>
       if cur \<in> out then Inl (stack, out)
       else (let out = insert cur out in
             case commit_read rd cur of
               Inl _ \<Rightarrow> Inl (stack, out)
             | Inr c \<Rightarrow> Inl (rev (c_parents c) @ stack, out)))"

definition ancestors_inclusive :: "reader \<Rightarrow> object_id \<Rightarrow> object_id set option" where
  "ancestors_inclusive rd i = loop (ancestors_step rd) ([i], {})"

definition merge_base_step :: "reader \<Rightarrow> object_id set \<Rightarrow> walk \<Rightarrow> walk + object_id option" where
  "merge_base_step rd a_anc = (\<lambda>(queue, seen).
     case queue of
       [] \<Rightarrow> Inr None
     | i # queue \<Rightarrow>
       if i \<in> seen then Inl (queue, seen)
       else (let seen = insert i seen in
             if i \<in> a_anc then Inr (Some i)
             else (case commit_read rd i of
                     Inl _ \<Rightarrow> Inl (queue, seen)
                   | Inr c \<Rightarrow> Inl (queue @ c_parents c, seen))))"

definition merge_base :: "reader \<Rightarrow> object_id \<Rightarrow> object_id \<Rightarrow> object_id option res option" where
  "merge_base rd a b =
     (case ancestors_inclusive rd a of
        None \<Rightarrow> None
      | Some a_anc \<Rightarrow> map_option Inr (loop (merge_base_step rd a_anc) ([b], {})))"

subsection \<open>\<open>src/cmd/branch.rs\<close>\<close>

definition branch_is_ancestor_step :: "reader \<Rightarrow> object_id \<Rightarrow> walk \<Rightarrow> walk + bool res" where
  "branch_is_ancestor_step rd anc = (\<lambda>(stack, seen).
     case stack of
       [] \<Rightarrow> Inr (Inr False)
     | i # stack \<Rightarrow>
       if i = anc then Inr (Inr True)
       else if i \<in> seen then Inl (stack, seen)
       else (let seen = insert i seen in
             case rd i of
               Inl e \<Rightarrow> Inr (Inl e)
             | Inr obj \<Rightarrow>
               if obj_kind obj = Commit
               then (case commit_read rd i of
                       Inl e \<Rightarrow> Inr (Inl e)
                     | Inr c \<Rightarrow> Inl (rev (c_parents c) @ stack, seen))
               else Inl (stack, seen)))"

definition branch_is_ancestor :: "reader \<Rightarrow> object_id \<Rightarrow> object_id \<Rightarrow> bool res option" where
  "branch_is_ancestor rd anc d = loop (branch_is_ancestor_step rd anc) ([d], {})"

subsection \<open>\<open>src/cmd/status.rs\<close>\<close>

definition reachable :: "reader \<Rightarrow> object_id \<Rightarrow> object_id set option" where
  "reachable rd tip = loop (ancestors_step rd) ([tip], {})"

definition ahead_behind :: "reader \<Rightarrow> object_id \<Rightarrow> object_id \<Rightarrow> (nat \<times> nat) option" where
  "ahead_behind rd local remote =
     (if local = remote then Some (0, 0)
      else (case reachable rd local of
              None \<Rightarrow> None
            | Some local_set \<Rightarrow>
              (case reachable rd remote of
                 None \<Rightarrow> None
               | Some remote_set \<Rightarrow> Some (card (local_set - remote_set), card (remote_set - local_set)))))"

subsection \<open>\<open>src/cmd/rebase.rs\<close>\<close>

definition between_step :: "reader \<Rightarrow> object_id set \<Rightarrow> walk \<times> object_id list \<Rightarrow> walk \<times> object_id list + object_id list" where
  "between_step rd excluded = (\<lambda>((stack, seen), newest_first).
     case stack of
       [] \<Rightarrow> Inr newest_first
     | i # stack \<Rightarrow>
       if i \<in> excluded then Inl ((stack, seen), newest_first)
       else if i \<in> seen then Inl ((stack, seen), newest_first)
       else (let seen = insert i seen in
             case commit_read rd i of
               Inl _ \<Rightarrow> Inl ((stack, seen), newest_first)
             | Inr c \<Rightarrow> Inl ((rev (c_parents c) @ stack, seen), newest_first @ [i])))"

definition commits_between :: "reader \<Rightarrow> object_id \<Rightarrow> object_id \<Rightarrow> object_id list res option" where
  "commits_between rd base tip =
     (case loop (ancestors_step rd) ([base], {}) of
        None \<Rightarrow> None
      | Some excluded \<Rightarrow>
        (case loop (between_step rd excluded) (([tip], {}), []) of
           None \<Rightarrow> None
         | Some newest_first \<Rightarrow> Some (Inr (rev newest_first))))"

section \<open>The walks end and visit what can be reached\<close>

interpretation ances: traversal "ancestors_step rd" fst snd "commit_parents rd" for rd
  by unfold_locales (auto simp: ancestors_step_def commit_parents_def Let_def split: list.splits sum.splits if_splits)

interpretation isanc: traversal "is_ancestor_step rd a" fst snd "commit_parents rd" for rd a
  by unfold_locales (auto simp: is_ancestor_step_def commit_parents_def Let_def split: list.splits sum.splits if_splits)

interpretation mbase: traversal "merge_base_step rd anc" fst snd "commit_parents rd" for rd anc
  by unfold_locales (auto simp: merge_base_step_def commit_parents_def Let_def split: list.splits sum.splits if_splits)

interpretation branc: traversal "branch_is_ancestor_step rd a" fst snd "commit_parents rd" for rd a
  by unfold_locales (auto simp: branch_is_ancestor_step_def commit_parents_cases Let_def dest: commit_read_kind
      split: list.splits sum.splits if_splits)

interpretation betw: traversal "between_step rd excl" "fst \<circ> fst" "\<lambda>s. excl \<union> snd (fst s)" "commit_parents rd" for rd excl
  by unfold_locales (auto simp: between_step_def commit_parents_def Let_def split: list.splits sum.splits if_splits)

lemma ancestors_walk: "loop (ancestors_step rd) ([i], {}) = Some {a. ancestor rd a i}"
proof -
  obtain t r where l: "loop (ancestors_step rd) ([i], {}) = Some r" "ancestors_step rd t = Inr r"
    and c: "covers (commit_parents rd) {i} {} (snd t) (set (fst t))"
    by (rule ances.run [of rd "{i}" "{}" "([i], {})" "\<lambda>_. True"]) (simp_all add: finite_reach_commits)
  have "fst t = [] \<and> r = snd t" using l(2) by (auto simp: ancestors_step_def Let_def split: list.splits sum.splits if_splits prod.splits)
  with c l(1) covers_done [of "commit_parents rd" "{i}" "{}" "snd t"] show ?thesis by (simp add: ancestor_def)
qed

lemma ancestors_closed: "ancestor rd x i \<Longrightarrow> y \<in> set (commit_parents rd x) \<Longrightarrow> ancestor rd y i"
  by (simp add: ancestor_def reach_next)

lemma ancestor_refl [simp]: "ancestor rd i i"
  by (simp add: ancestor_def reach_start)

lemma ancestor_trans: "ancestor rd a b \<Longrightarrow> ancestor rd b c \<Longrightarrow> ancestor rd a c"
  unfolding ancestor_def by (rule reach_trans)

lemma is_ancestor_walk: "loop (is_ancestor_step rd a) ([d], {}) = Some (Inr (ancestor rd a d))"
proof -
  obtain t r where l: "loop (is_ancestor_step rd a) ([d], {}) = Some r" "is_ancestor_step rd a t = Inr r"
    and c: "covers (commit_parents rd) {d} {} (snd t) (set (fst t))" and n: "a \<notin> snd t"
    by (rule isanc.run [of rd "{d}" "{}" "([d], {})" "\<lambda>s. a \<notin> snd s" a])
      (auto simp: finite_reach_commits is_ancestor_step_def Let_def split: list.splits sum.splits if_splits prod.splits)
  show ?thesis
  proof (cases "fst t")
    case Nil
    then have "r = Inr False" using l(2) by (simp add: is_ancestor_step_def split: prod.splits)
    with c n l(1) Nil covers_done [of "commit_parents rd" "{d}" "{}" "snd t"] show ?thesis by (simp add: ancestor_def)
  next
    case (Cons i st)
    with l(2) have "r = Inr True" "i = a"
      by (auto simp: is_ancestor_step_def Let_def split: sum.splits if_splits prod.splits)
    with c l(1) Cons show ?thesis by (simp add: covers_def ancestor_def)
  qed
qed

lemma is_ancestor_exact: "is_ancestor rd a d = Some (Inr (ancestor rd a d))"
  by (simp add: is_ancestor_def is_ancestor_walk)

subsection \<open>Merge base\<close>

lemma merge_base_inv:
  assumes "merge_base_step rd Z s = Inl s'" "snd s \<inter> Z = {}" "\<forall>y \<in> snd s \<union> set (fst s). reach (commit_parents rd) A (Z - {y}) y"
  shows "snd s' \<inter> Z = {} \<and> (\<forall>y \<in> snd s' \<union> set (fst s'). reach (commit_parents rd) A (Z - {y}) y)"
proof -
  obtain i q seen where s: "s = (i # q, seen)"
    using assms(1) by (cases s) (auto simp: merge_base_step_def split: list.splits)
  show ?thesis
  proof (cases "i \<in> seen")
    case True
    with assms s show ?thesis by (auto simp: merge_base_step_def)
  next
    case False
    with assms(1) s have i: "i \<notin> Z" and s': "s' = (q @ commit_parents rd i, insert i seen)"
      by (auto simp: merge_base_step_def commit_parents_def Let_def split: if_splits sum.splits)
    have "reach (commit_parents rd) A Z i" using assms(3) i s by auto
    then have "reach (commit_parents rd) A (Z - {y}) i" for y by (rule reach_antimono) blast
    then have "reach (commit_parents rd) A (Z - {y}) y" if "y \<in> set (commit_parents rd i)" for y
      using that by (rule reach_next) simp
    with assms(2,3) i s s' show ?thesis by auto
  qed
qed

lemma merge_base_walk:
  obtains r where "loop (merge_base_step rd Z) ([b], {}) = Some r"
    "r = None \<longleftrightarrow> (\<nexists>m. m \<in> Z \<and> ancestor rd m b)"
    "\<forall>m. r = Some m \<longrightarrow> m \<in> Z \<and> reach (commit_parents rd) {b} (Z - {m}) m"
proof -
  let ?J = "\<lambda>s. snd s \<inter> Z = {} \<and> (\<forall>y \<in> snd s \<union> set (fst s). reach (commit_parents rd) {b} (Z - {y}) y)"
  obtain t r where l: "loop (merge_base_step rd Z) ([b], {}) = Some r" "merge_base_step rd Z t = Inr r"
    and c: "covers (commit_parents rd) {b} {} (snd t) (set (fst t))" and j: "?J t"
  proof (rule mbase.run [of rd "{b}" "{}" "([b], {})" ?J Z])
    fix s s' assume "merge_base_step rd Z s = Inl s'" "?J s"
    then show "?J s'" using merge_base_inv by blast
  qed (auto simp: finite_reach_commits intro: reach_start)
  show thesis
  proof (cases "fst t")
    case Nil
    then have "r = None" using l(2) by (simp add: merge_base_step_def split: prod.splits)
    moreover have "snd t = {m. ancestor rd m b}" using c Nil covers_done [of "commit_parents rd" "{b}" "{}" "snd t"] by (simp add: ancestor_def)
    ultimately show thesis using that [of r] l(1) j by blast
  next
    case (Cons i q)
    with l(2) have "r = Some i" "i \<in> Z"
      by (auto simp: merge_base_step_def Let_def split: sum.splits if_splits prod.splits)
    moreover have "ancestor rd i b" using c Cons by (simp add: covers_def ancestor_def)
    ultimately show thesis using that [of r] l(1) j Cons by auto
  qed
qed

text \<open>C35: the merge base is a common ancestor. The search always ends; it answers none exactly when the two commits
  have no common ancestor (with themselves counted), and otherwise a common ancestor that is reached from the second
  commit through commits that are not ancestors of the first.\<close>
theorem merge_base_common:
  "\<exists>r. merge_base rd a b = Some (Inr r)
     \<and> (r = None \<longleftrightarrow> \<not> (\<exists>m. ancestor rd m a \<and> ancestor rd m b))
     \<and> (\<forall>m. r = Some m \<longrightarrow> ancestor rd m a \<and> reach (commit_parents rd) {b} ({x. ancestor rd x a} - {m}) m)"
proof -
  let ?Z = "{x. ancestor rd x a}"
  obtain r where "loop (merge_base_step rd ?Z) ([b], {}) = Some r"
    "r = None \<longleftrightarrow> (\<nexists>m. m \<in> ?Z \<and> ancestor rd m b)"
    "\<forall>m. r = Some m \<longrightarrow> m \<in> ?Z \<and> reach (commit_parents rd) {b} (?Z - {m}) m"
    by (rule merge_base_walk [of rd ?Z b])
  then show ?thesis by (simp add: merge_base_def ancestors_inclusive_def ancestors_walk)
qed

subsection \<open>Deleting a branch\<close>

lemma branch_is_ancestor_exact:
  obtains r where "branch_is_ancestor rd a d = Some r"
    "r = Inr True \<Longrightarrow> ancestor rd a d"
    "r = Inr False \<Longrightarrow> \<not> ancestor rd a d \<and> (\<forall>c. ancestor rd c d \<longrightarrow> (\<exists>obj. rd c = Inr obj))"
    "\<And>e. r = Inl e \<Longrightarrow> \<exists>c. ancestor rd c d \<and> (rd c = Inl e \<or> commit_read rd c = Inl e)"
proof -
  let ?J = "\<lambda>s :: walk. a \<notin> snd s \<and> (\<forall>c \<in> snd s. \<exists>obj. rd c = Inr obj)"
  obtain t r where l: "loop (branch_is_ancestor_step rd a) ([d], {}) = Some r" "branch_is_ancestor_step rd a t = Inr r"
    and c: "covers (commit_parents rd) {d} {} (snd t) (set (fst t))" and j: "?J t"
    by (rule branc.run [of rd "{d}" "{}" "([d], {})" ?J a])
      (auto simp: finite_reach_commits branch_is_ancestor_step_def Let_def split: list.splits sum.splits if_splits prod.splits)
  show thesis
  proof (cases "fst t")
    case Nil
    then have "r = Inr False" using l(2) by (simp add: branch_is_ancestor_step_def split: prod.splits)
    moreover have "snd t = {m. ancestor rd m d}" using c Nil covers_done [of "commit_parents rd" "{d}" "{}" "snd t"] by (simp add: ancestor_def)
    ultimately show thesis using that [of r] l(1) j by (auto simp: branch_is_ancestor_def)
  next
    case (Cons i q)
    have i: "ancestor rd i d" using c Cons by (simp add: covers_def ancestor_def)
    have "r = Inr True \<and> i = a \<or> (\<exists>e. r = Inl e \<and> (rd i = Inl e \<or> commit_read rd i = Inl e))"
      using l(2) Cons by (auto simp: branch_is_ancestor_step_def Let_def split: sum.splits if_splits prod.splits)
    then show thesis using that [of r] l(1) i by (auto simp: branch_is_ancestor_def)
  qed
qed

subsection \<open>Counting commits\<close>

text \<open>The two numbers that \<open>status\<close> prints are the number of commits reachable from the local tip and not from the
  remote one, and the other way round, for every history.\<close>
theorem ahead_behind_exact:
  "ahead_behind rd local remote =
     Some (card {c. ancestor rd c local \<and> \<not> ancestor rd c remote}, card {c. ancestor rd c remote \<and> \<not> ancestor rd c local})"
  by (auto simp: ahead_behind_def reachable_def ancestors_walk set_diff_eq)

subsection \<open>Commits to replay\<close>

lemma excluded_reach:
  "reach (commit_parents rd) {tip} {c. ancestor rd c base} x \<longleftrightarrow> ancestor rd x tip \<and> \<not> ancestor rd x base"
  using reach_outside [of "{c. ancestor rd c base}" "commit_parents rd" "{tip}" x] ancestors_closed
  by (auto simp: ancestor_def)

lemma between_step_cases:
  assumes "between_step rd excl s = Inl s'"
  obtains (skip) i st seen nf where "s = ((i # st, seen), nf)" "s' = ((st, seen), nf)"
  | (gone) i st seen nf e where "s = ((i # st, seen), nf)" "i \<notin> excl" "i \<notin> seen" "commit_read rd i = Inl e" "s' = ((st, insert i seen), nf)"
  | (visit) i st seen nf c where "s = ((i # st, seen), nf)" "i \<notin> excl" "i \<notin> seen" "commit_read rd i = Inr c"
      "s' = ((rev (c_parents c) @ st, insert i seen), nf @ [i])"
proof -
  obtain i st seen nf where s: "s = ((i # st, seen), nf)"
    using assms by (cases s) (auto simp: between_step_def split: list.splits prod.splits)
  show thesis
  proof (cases "i \<in> excl \<or> i \<in> seen")
    case True
    with assms s have "s' = ((st, seen), nf)" by (auto simp: between_step_def split: if_splits)
    with s show thesis by (rule skip)
  next
    case False
    with assms s gone visit show thesis by (cases "commit_read rd i") (auto simp: between_step_def Let_def)
  qed
qed

lemma excluded_set:
  "Collect (reach (commit_parents rd) {tip} {c. ancestor rd c base}) = {c. ancestor rd c tip \<and> \<not> ancestor rd c base}"
  using excluded_reach by blast

definition between_inv :: "reader \<Rightarrow> object_id set \<Rightarrow> walk \<times> object_id list \<Rightarrow> bool" where
  "between_inv rd excl = (\<lambda>((stack, seen), nf).
     seen \<inter> excl = {} \<and> distinct nf \<and> set nf = {c \<in> seen. \<exists>k. commit_read rd c = Inr k})"

lemma between_inv_step: "between_step rd excl s = Inl s' \<Longrightarrow> between_inv rd excl s \<Longrightarrow> between_inv rd excl s'"
proof (erule between_step_cases)
  fix i st seen nf c assume "s = ((i # st, seen), nf)" "i \<notin> excl" "i \<notin> seen" "commit_read rd i = Inr c"
    "s' = ((rev (c_parents c) @ st, insert i seen), nf @ [i])" "between_inv rd excl s"
  moreover from this have "{x \<in> insert i seen. \<exists>k. commit_read rd x = Inr k} = insert i {x \<in> seen. \<exists>k. commit_read rd x = Inr k}" by blast
  ultimately show "between_inv rd excl s'" by (simp add: between_inv_def)
qed (auto simp: between_inv_def)

definition line_inv :: "reader \<Rightarrow> object_id \<Rightarrow> walk \<times> object_id list \<Rightarrow> bool" where
  "line_inv rd tip = (\<lambda>((stack, seen), nf). length stack \<le> 1 \<and> successively (\<lambda>x y. commit_parents rd x = [y]) nf
     \<and> (stack = [] \<or> nf = [] \<and> stack = [tip] \<or> nf \<noteq> [] \<and> stack = commit_parents rd (last nf)))"

lemma line_inv_step:
  assumes "between_step rd excl s = Inl s'" "line_inv rd tip s" "\<forall>c \<in> set (fst (fst s)) - excl. length (commit_parents rd c) \<le> 1"
  shows "line_inv rd tip s'"
  using assms(1)
proof (cases rule: between_step_cases)
  case (visit i st seen nf c)
  have st: "st = []" "commit_parents rd (last nf) = [i] \<or> nf = []" and "successively (\<lambda>x y. commit_parents rd x = [y]) nf"
    using assms(2) visit(1) by (auto simp: line_inv_def)
  then have "successively (\<lambda>x y. commit_parents rd x = [y]) (nf @ [i])" by (auto simp: successively_append_iff)
  moreover have p: "commit_parents rd i = c_parents c" using visit(4) by (rule commit_parents_cases)
  moreover have "length (commit_parents rd i) \<le> 1" using bspec [OF assms(3), of i] visit(1,2) by simp
  ultimately show ?thesis using visit(5) st(1) p by (cases "c_parents c") (simp_all add: line_inv_def)
qed (use assms(2) in \<open>auto simp: line_inv_def\<close>)

lemma commits_between_walk:
  obtains nf where "commits_between rd base tip = Some (Inr (rev nf))" "distinct nf"
    "set nf = {c. ancestor rd c tip \<and> \<not> ancestor rd c base \<and> (\<exists>k. commit_read rd c = Inr k)}"
    "(\<forall>c. ancestor rd c tip \<and> \<not> ancestor rd c base \<longrightarrow> length (commit_parents rd c) \<le> 1) \<longrightarrow>
       successively (\<lambda>x y. commit_parents rd x = [y]) nf"
proof -
  let ?Z = "{c. ancestor rd c base}"
  let ?lin = "\<forall>c. ancestor rd c tip \<and> \<not> ancestor rd c base \<longrightarrow> length (commit_parents rd c) \<le> 1"
  let ?J = "\<lambda>s. between_inv rd ?Z s \<and> (?lin \<longrightarrow> line_inv rd tip s)"
  have st: "?J s'" if "between_step rd ?Z s = Inl s'"
    "covers (commit_parents rd) {tip} ?Z (?Z \<union> snd (fst s)) (set ((fst \<circ> fst) s))" "?J s" for s s'
  proof -
    have "ancestor rd c tip \<and> \<not> ancestor rd c base" if "c \<in> set (fst (fst s)) - ?Z" for c
      using that \<open>covers _ _ _ _ _\<close> by (auto simp: covers_def excluded_reach)
    then show ?thesis using between_inv_step [OF that(1)] line_inv_step [OF that(1), of tip] that(3) by blast
  qed
  obtain t r where l: "loop (between_step rd ?Z) (([tip], {}), []) = Some r" "between_step rd ?Z t = Inr r"
    and c: "covers (commit_parents rd) {tip} ?Z (?Z \<union> snd (fst t)) (set ((fst \<circ> fst) t))" and j: "?J t"
    by (rule betw.run [of rd "{tip}" ?Z "(([tip], {}), [])" ?Z ?J])
      (use st in \<open>simp_all add: finite_reach_commits between_inv_def line_inv_def\<close>)
  obtain seen nf where t: "t = (([], seen), nf)" "r = nf"
    using l(2) by (auto simp: between_step_def Let_def split: prod.splits list.splits sum.splits if_splits)
  have "?Z \<union> seen = ?Z \<union> {c. ancestor rd c tip \<and> \<not> ancestor rd c base}"
    using c t covers_done [of "commit_parents rd" "{tip}" ?Z "?Z \<union> seen"] by (simp add: excluded_set)
  moreover have "seen \<inter> ?Z = {}" using j t by (simp add: between_inv_def)
  ultimately have "seen = {c. ancestor rd c tip \<and> \<not> ancestor rd c base}" by blast
  then have "set nf = {c. ancestor rd c tip \<and> \<not> ancestor rd c base \<and> (\<exists>k. commit_read rd c = Inr k)}"
    using j t by (auto simp: between_inv_def)
  then show thesis
    using that [of nf] l(1) t j by (simp add: commits_between_def ancestors_walk between_inv_def line_inv_def)
qed

subsection \<open>A small history\<close>

text \<open>A store that holds the given commits, for examples.\<close>

definition graph_reader :: "(object_id \<times> object_id list) list \<Rightarrow> reader" where
  "graph_reader g i =
     (case map_of g i of
        None \<Rightarrow> Inl (EIo ''not found'')
      | Some ps \<Rightarrow> Inr \<lparr>obj_id = i, obj_kind = Commit, obj_payload = commit_encode (sample_commit\<lparr>c_parents := ps\<rparr>)\<rparr>)"

definition nth_id :: "byte \<Rightarrow> object_id" where
  "nth_id b = ObjectId (replicate 32 b)"

lemma nth_id_eq [simp]: "nth_id a = nth_id b \<longleftrightarrow> a = b"
  by (simp add: nth_id_def)

lemma graph_read:
  assumes "map_of g i = Some (map nth_id ns)"
  shows "commit_read (graph_reader g) i = Inr (sample_commit\<lparr>c_parents := map nth_id ns\<rparr>)"
proof -
  have "wf_commit (sample_commit\<lparr>c_parents := map nth_id ns\<rparr>)"
    using wf_sample_commit by (simp add: wf_commit_def list_all_iff wf_id_def nth_id_def HASH_LEN_def)
  from commit.dec_enc [OF this] assms show ?thesis by (simp add: commit_read_def graph_reader_def)
qed

lemma graph_read_none: "map_of g i = None \<Longrightarrow> commit_read (graph_reader g) i = Inl (EIo ''not found'')"
  by (simp add: commit_read_def graph_reader_def)

definition line_graph :: "(object_id \<times> object_id list) list" where
  "line_graph = [(nth_id 3, map nth_id [2]), (nth_id 2, map nth_id [1]), (nth_id 1, map nth_id [])]"

definition diamond_graph :: "(object_id \<times> object_id list) list" where
  "diamond_graph = [(nth_id 5, map nth_id [3, 4]), (nth_id 4, map nth_id [2]), (nth_id 3, map nth_id [2]),
     (nth_id 2, map nth_id [1]), (nth_id 1, map nth_id [])]"

lemma diamond_reads:
  "commit_read (graph_reader diamond_graph) (nth_id 5) = Inr (sample_commit\<lparr>c_parents := map nth_id [3, 4]\<rparr>)"
  "commit_read (graph_reader diamond_graph) (nth_id 4) = Inr (sample_commit\<lparr>c_parents := map nth_id [2]\<rparr>)"
  "commit_read (graph_reader diamond_graph) (nth_id 3) = Inr (sample_commit\<lparr>c_parents := map nth_id [2]\<rparr>)"
  "commit_read (graph_reader diamond_graph) (nth_id 2) = Inr (sample_commit\<lparr>c_parents := map nth_id [1]\<rparr>)"
  "commit_read (graph_reader diamond_graph) (nth_id 1) = Inr (sample_commit\<lparr>c_parents := map nth_id []\<rparr>)"
  by (rule graph_read; simp add: diamond_graph_def)+

text \<open>The commits to replay are not always in an order in which parents come first: with a merge commit 5 of 3
  and 4, both made on 2, the list from 1 is 3, 2, 4, 5.\<close>

lemma commits_between_child_first:
  "commits_between (graph_reader diamond_graph) (nth_id 1) (nth_id 5) = Some (Inr (map nth_id [3, 2, 4, 5]))"
proof -
  let ?rd = "graph_reader diamond_graph"
  have "loop (ancestors_step ?rd) ([nth_id 1], {}) = Some {nth_id 1}"
    by (simp add: loop.simps ancestors_step_def diamond_reads)
  moreover have "loop (between_step ?rd {nth_id 1}) (([nth_id 5], {}), []) = Some (map nth_id [5, 4, 2, 3])"
    by (simp add: loop.simps between_step_def diamond_reads)
  ultimately show ?thesis by (simp add: commits_between_def)
qed

text \<open>The merge base is not always a lowest common ancestor, even without a criss-cross merge: commit 5 is made on 3,
  3 on 1, 4 on 3, and 6 merges 4 into 1. The common ancestors of 5 and 6 are 3 and its ancestor 1, and the answer is 1.\<close>

definition skew_graph :: "(object_id \<times> object_id list) list" where
  "skew_graph = [(nth_id 6, map nth_id [1, 4]), (nth_id 5, map nth_id [3]), (nth_id 4, map nth_id [3]),
     (nth_id 3, map nth_id [1]), (nth_id 1, map nth_id [])]"

lemma skew_reads:
  "commit_read (graph_reader skew_graph) (nth_id 6) = Inr (sample_commit\<lparr>c_parents := map nth_id [1, 4]\<rparr>)"
  "commit_read (graph_reader skew_graph) (nth_id 5) = Inr (sample_commit\<lparr>c_parents := map nth_id [3]\<rparr>)"
  "commit_read (graph_reader skew_graph) (nth_id 4) = Inr (sample_commit\<lparr>c_parents := map nth_id [3]\<rparr>)"
  "commit_read (graph_reader skew_graph) (nth_id 3) = Inr (sample_commit\<lparr>c_parents := map nth_id [1]\<rparr>)"
  "commit_read (graph_reader skew_graph) (nth_id 1) = Inr (sample_commit\<lparr>c_parents := map nth_id []\<rparr>)"
  by (rule graph_read; simp add: skew_graph_def)+

lemma merge_base_not_lowest:
  "merge_base (graph_reader skew_graph) (nth_id 5) (nth_id 6) = Some (Inr (Some (nth_id 1)))"
  "ancestor (graph_reader skew_graph) (nth_id 3) (nth_id 5)" "ancestor (graph_reader skew_graph) (nth_id 3) (nth_id 6)"
  "ancestor (graph_reader skew_graph) (nth_id 1) (nth_id 3)"
proof -
  let ?rd = "graph_reader skew_graph"
  have "loop (ancestors_step ?rd) ([nth_id 5], {}) = Some {nth_id 1, nth_id 3, nth_id 5}"
    by (simp add: loop.simps ancestors_step_def skew_reads)
  moreover have "loop (merge_base_step ?rd {nth_id 1, nth_id 3, nth_id 5}) ([nth_id 6], {}) = Some (Some (nth_id 1))"
    by (simp add: loop.simps merge_base_step_def skew_reads)
  ultimately show "merge_base ?rd (nth_id 5) (nth_id 6) = Some (Inr (Some (nth_id 1)))"
    by (simp add: merge_base_def ancestors_inclusive_def)
  have p: "ancestor ?rd (nth_id k) (nth_id j)" if "nth_id k \<in> set (commit_parents ?rd (nth_id i))" "ancestor ?rd (nth_id i) (nth_id j)" for i j k
    using that ancestors_closed by blast
  show "ancestor ?rd (nth_id 3) (nth_id 5)" by (rule p [of _ 5]) (simp_all add: commit_parents_cases skew_reads)
  have "ancestor ?rd (nth_id 4) (nth_id 6)" by (rule p [of _ 6]) (simp_all add: commit_parents_cases skew_reads)
  then show "ancestor ?rd (nth_id 3) (nth_id 6)" by (rule p [rotated]) (simp add: commit_parents_cases skew_reads)
  show "ancestor ?rd (nth_id 1) (nth_id 3)" by (rule p [of _ 3]) (simp_all add: commit_parents_cases skew_reads)
qed

theorem merge_base_common_witness:
  "ancestor (graph_reader skew_graph) (nth_id 1) (nth_id 5)
   \<and> reach (commit_parents (graph_reader skew_graph)) {nth_id 6}
       ({x. ancestor (graph_reader skew_graph) x (nth_id 5)} - {nth_id 1}) (nth_id 1)"
  using merge_base_common [of "graph_reader skew_graph" "nth_id 5" "nth_id 6"] merge_base_not_lowest(1) by simp

section \<open>Replaying\<close>

text \<open>C36: the commits that \<open>rebase\<close> replays are, each once, the readable commits reachable from the tip and not from
  the base; and where each of them has at most one parent, every commit of the list is the parent of the next one.\<close>
theorem commits_between_exact:
  "\<exists>l. commits_between rd base tip = Some (Inr l) \<and> distinct l
     \<and> set l = {c. ancestor rd c tip \<and> \<not> ancestor rd c base \<and> (\<exists>k. commit_read rd c = Inr k)}
     \<and> ((\<forall>c. ancestor rd c tip \<and> \<not> ancestor rd c base \<longrightarrow> length (commit_parents rd c) \<le> 1) \<longrightarrow>
          successively (\<lambda>x y. commit_parents rd y = [x]) l)"
proof -
  obtain nf where "commits_between rd base tip = Some (Inr (rev nf))" "distinct nf"
    "set nf = {c. ancestor rd c tip \<and> \<not> ancestor rd c base \<and> (\<exists>k. commit_read rd c = Inr k)}"
    "(\<forall>c. ancestor rd c tip \<and> \<not> ancestor rd c base \<longrightarrow> length (commit_parents rd c) \<le> 1) \<longrightarrow>
       successively (\<lambda>x y. commit_parents rd x = [y]) nf"
    by (rule commits_between_walk [of rd base tip])
  then show ?thesis by (intro exI [of _ "rev nf"]) simp
qed

lemma line_parents: "length (commit_parents (graph_reader line_graph) c) \<le> 1"
proof -
  have "map_of line_graph c \<in> {Some (map nth_id [2]), Some (map nth_id [1]), Some (map nth_id []), None}"
    by (simp add: line_graph_def)
  then show ?thesis
    using graph_read [of line_graph c "[2]"] graph_read [of line_graph c "[1]"] graph_read [of line_graph c "[]"]
      graph_read_none [of line_graph c] by (auto simp: commit_parents_def)
qed

theorem commits_between_exact_witness:
  "\<exists>l. commits_between (graph_reader line_graph) (nth_id 1) (nth_id 3) = Some (Inr l)
     \<and> successively (\<lambda>x y. commit_parents (graph_reader line_graph) y = [x]) l"
  using commits_between_exact [of "graph_reader line_graph" "nth_id 1" "nth_id 3"] line_parents by blast

end
