(* ===== verification/Signing.thy ===== *)
theory Signing
  imports Commit_Object Fs
begin

text \<open>
  \<open>src/cmd/signing.rs\<close>: the bytes of a commit that are signed, and the base64 form of a signature. The \<open>u32\<close>
  values of the codec stay below \<open>2 ^ 24\<close>, so they are naturals here and shifts and masks are \<open>div\<close> and \<open>mod\<close>.
  The ed25519 library is a parameter: the encoded public keys it accepts, the public key of a secret one, signing and
  strict verification; \<open>ed_correct\<close> is what its documentation promises.
\<close>

unbundle bit_operations_syntax

record ed25519 =
  ed_valid_key :: "bytes \<Rightarrow> bool"
  ed_public :: "bytes \<Rightarrow> bytes"
  ed_sign :: "bytes \<Rightarrow> bytes \<Rightarrow> bytes"
  ed_verify_strict :: "bytes \<Rightarrow> bytes \<Rightarrow> bytes \<Rightarrow> bool"

section \<open>The signed payload\<close>

definition key_line :: "string \<Rightarrow> bytes \<Rightarrow> bytes" where
  "key_line key v = ascii key @ v @ [NL]"

definition commit_payload_without_sig :: "commit \<Rightarrow> bytes" where
  "commit_payload_without_sig c =
     key_line ''tree '' (to_hex (c_tree c))
     @ concat (map (\<lambda>p. key_line ''parent '' (to_hex p)) (c_parents c))
     @ concat (map (key_line ''author '') (c_authors c))
     @ key_line ''committer '' (c_committer c)
     @ concat (map (key_line ''ai '') (c_ai_assists c))
     @ concat (map (key_line ''reviewer '') (c_reviewers c))
     @ [NL] @ c_message c"

lemma payload_is_encoding: "commit_payload_without_sig c = commit_encode (c\<lparr>c_signature := None\<rparr>)"
  by (simp add: commit_payload_without_sig_def commit_encode_def key_line_def [abs_def] del: ascii_Cons)

section \<open>Base64\<close>

definition B64_CHARS :: bytes where
  "B64_CHARS = ascii ''ABCDEFGHIJKLMNOPQRSTUVWXYZabcdefghijklmnopqrstuvwxyz0123456789+/''"

definition PAD :: byte where "PAD = 61"

definition b64_char :: "nat \<Rightarrow> byte" where
  "b64_char n = B64_CHARS ! (n mod 64)"

fun base64_encode :: "bytes \<Rightarrow> bytes" where
  "base64_encode [] = []"
| "base64_encode [b0] =
     (let triple = unat b0 * 2 ^ 16 in
      [b64_char (triple div 2 ^ 18), b64_char (triple div 2 ^ 12), PAD, PAD])"
| "base64_encode [b0, b1] =
     (let triple = unat b0 * 2 ^ 16 + unat b1 * 2 ^ 8 in
      [b64_char (triple div 2 ^ 18), b64_char (triple div 2 ^ 12), b64_char (triple div 2 ^ 6), PAD])"
| "base64_encode (b0 # b1 # b2 # data) =
     (let triple = unat b0 * 2 ^ 16 + unat b1 * 2 ^ 8 + unat b2 in
      [b64_char (triple div 2 ^ 18), b64_char (triple div 2 ^ 12), b64_char (triple div 2 ^ 6), b64_char triple])
     @ base64_encode data"

definition b64_val :: "byte \<Rightarrow> nat option" where
  "b64_val b =
     (if 65 \<le> b \<and> b \<le> 90 then Some (unat b - 65)
      else if 97 \<le> b \<and> b \<le> 122 then Some (unat b - 97 + 26)
      else if 48 \<le> b \<and> b \<le> 57 then Some (unat b - 48 + 52)
      else if b = 43 then Some 62
      else if b = 47 then Some 63
      else None)"

definition pad_count :: "bytes \<Rightarrow> nat" where
  "pad_count s =
     (if s \<noteq> [] \<and> last s = PAD then (if butlast s \<noteq> [] \<and> last (butlast s) = PAD then 2 else 1) else 0)"

fun b64_loop :: "bytes \<Rightarrow> nat \<Rightarrow> nat \<Rightarrow> bytes \<Rightarrow> (bytes \<times> nat) option" where
  "b64_loop [] buf bits out = Some (out, buf)"
| "b64_loop (b # bs) buf bits out =
     (case b64_val b of
        None \<Rightarrow> None
      | Some val \<Rightarrow>
        (let buf = buf * 2 ^ 6 + val; bits = bits + 6 in
         if bits \<ge> 8 then
           (let bits = bits - 8 in b64_loop bs (buf mod 2 ^ bits) bits (out @ [word_of_nat (buf div 2 ^ bits)]))
         else b64_loop bs buf bits out))"

definition base64_decode :: "bytes \<Rightarrow> bytes option" where
  "base64_decode input =
     (let s = trim input in
      if length s mod 4 \<noteq> 0 then None
      else (let body = take (length s - pad_count s) s in
            if PAD \<in> set body then None
            else (case b64_loop body 0 0 [] of
                    None \<Rightarrow> None
                  | Some (out, buf) \<Rightarrow> if buf \<noteq> 0 then None else Some out)))"

section \<open>Keys\<close>

definition enforce_private_mode :: "fs \<Rightarrow> fpath \<Rightarrow> unit res" where
  "enforce_private_mode fs path =
     (case deref ELOOP_MAX fs path of
        Some (File _ m) \<Rightarrow> if m AND 511 AND 63 \<noteq> 0 then Inl (ECi ''private key has insecure mode'') else Inr ()
      | Some _ \<Rightarrow> Inl (ECi ''private key has insecure mode'')
      | None \<Rightarrow> Inl (ECi ''stat''))"

definition load_signing_key :: "fs \<Rightarrow> fpath \<Rightarrow> bytes res" where
  "load_signing_key fs path =
     (case enforce_private_mode fs path of
        Inl e \<Rightarrow> Inl e
      | Inr _ \<Rightarrow>
        (case read_all fs path of
           Inl _ \<Rightarrow> Inl (ECi ''reading signing key'')
         | Inr b \<Rightarrow> if length b \<noteq> 32 then Inl (ECi ''signing key must be exactly 32 bytes'') else Inr b))"

definition load_verifying_key :: "ed25519 \<Rightarrow> fs \<Rightarrow> fpath \<Rightarrow> bytes res" where
  "load_verifying_key E fs path =
     (case read_all fs path of
        Inl _ \<Rightarrow> Inl (ECi ''reading public key'')
      | Inr b \<Rightarrow> if length b \<noteq> 32 then Inl (ECi ''public key must be exactly 32 bytes'')
                 else if ed_valid_key E b then Inr b else Inl (ECi ''ed25519''))"

definition sign_commit :: "ed25519 \<Rightarrow> fs \<Rightarrow> bytes \<Rightarrow> fpath \<Rightarrow> bytes res" where
  "sign_commit E fs payload key_path =
     (case load_signing_key fs key_path of Inl e \<Rightarrow> Inl e | Inr k \<Rightarrow> Inr (base64_encode (ed_sign E k payload)))"

definition maybe_sign_commit :: "ed25519 \<Rightarrow> fs \<Rightarrow> fpath \<Rightarrow> bool \<Rightarrow> bool \<Rightarrow> commit \<Rightarrow> commit res" where
  \<comment> \<open>\<open>sign_required\<close> is that of the loaded configuration\<close>
  "maybe_sign_commit E fs key_path sign_required force_sign c =
     (if \<not> sign_required \<and> \<not> force_sign then Inr c
      else if c_signature c \<noteq> None then Inr c
      else (case sign_commit E fs (commit_payload_without_sig c) key_path of
              Inl e \<Rightarrow> Inl e
            | Inr b64_sig \<Rightarrow> Inr (c\<lparr>c_signature := Some b64_sig\<rparr>)))"

definition verify_signature :: "ed25519 \<Rightarrow> fs \<Rightarrow> bytes \<Rightarrow> bytes \<Rightarrow> fpath \<Rightarrow> bool res" where
  "verify_signature E fs payload b64_sig pub_path =
     (case load_verifying_key E fs pub_path of
        Inl e \<Rightarrow> Inl e
      | Inr k \<Rightarrow>
        (case base64_decode b64_sig of
           None \<Rightarrow> Inl (ECi ''invalid base64 in commit signature'')
         | Some sig \<Rightarrow> if length sig \<noteq> 64 then Inl (ECi ''signature must be 64 bytes'')
                       else Inr (ed_verify_strict E k payload sig)))"

definition ed_correct :: "ed25519 \<Rightarrow> bool" where
  "ed_correct E \<longleftrightarrow> (\<forall>k m. length k = 32 \<longrightarrow> ed_valid_key E (ed_public E k) \<and> length (ed_public E k) = 32
     \<and> length (ed_sign E k m) = 64 \<and> ed_verify_strict E (ed_public E k) m (ed_sign E k m))"

section \<open>The decoder inverts the encoder and accepts nothing else\<close>

lemma b64_chars: "B64_CHARS = map word_of_nat ([65..<91] @ [97..<123] @ [48..<58] @ [43, 47])"
  by (simp add: B64_CHARS_def upt_rec)

lemma unat_b64_char:
  "unat (b64_char n) = (let k = n mod 64 in
     if k < 26 then 65 + k else if k < 52 then 71 + k else if k < 62 then k - 4 else if k = 62 then 43 else 47)"
proof -
  let ?L = "[65..<91] @ [97..<123] @ [48..<58] @ [43, 47]" and ?k = "n mod 64"
  have k: "?k < 64" by simp
  have "unat (b64_char n) = (?L ! ?k) mod 256"
    unfolding b64_char_def b64_chars by (subst nth_map) (simp_all add: unat_of_nat k del: upt_rec_numeral)
  also have "?L ! ?k = (if ?k < 26 then 65 + ?k else if ?k < 52 then 71 + ?k else if ?k < 62 then ?k - 4 else if ?k = 62 then 43 else 47)"
    using k by (auto simp: nth_append simp del: upt_rec_numeral)
  finally show ?thesis using k by (auto simp: Let_def intro!: mod_less)
qed

lemma b64_val_unat:
  "b64_val b = (let k = unat b in
     if 65 \<le> k \<and> k \<le> 90 then Some (k - 65) else if 97 \<le> k \<and> k \<le> 122 then Some (k - 97 + 26)
     else if 48 \<le> k \<and> k \<le> 57 then Some (k - 48 + 52) else if k = 43 then Some 62 else if k = 47 then Some 63 else None)"
proof -
  have "b = 43 \<longleftrightarrow> unat b = 43" "b = 47 \<longleftrightarrow> unat b = 47"
    by (simp_all add: word_unat_eq_iff)
  then show ?thesis by (simp add: b64_val_def word_le_nat_alt Let_def)
qed

lemma b64_val_char: "n < 64 \<Longrightarrow> b64_val (b64_char n) = Some n"
  by (simp add: b64_val_unat unat_b64_char Let_def split: if_splits) arith

lemma b64_char_val: "b64_val c = Some n \<Longrightarrow> n < 64 \<and> b64_char n = c"
proof -
  assume v: "b64_val c = Some n"
  then have n: "n < 64" by (auto simp: b64_val_unat Let_def split: if_splits)
  then have "unat (b64_char n) = unat c" using v by (auto simp: b64_val_unat unat_b64_char Let_def split: if_splits)
  with n show ?thesis by (simp add: word_unat_eq_iff)
qed

lemma b64_not_pad: "b64_char n \<noteq> PAD"
proof -
  have "b64_val (b64_char n) = Some (n mod 64)" using b64_val_char [of "n mod 64"] by (simp add: b64_char_def)
  moreover have "b64_val PAD = None" by (simp add: b64_val_def PAD_def)
  ultimately show ?thesis by auto
qed

lemma b64_step:
  assumes "n < 64"
  shows "b64_loop (b64_char n # bs) buf 0 out = b64_loop bs (buf * 64 + n) 6 out"
    "b64_loop (b64_char n # bs) buf 6 out = b64_loop bs ((buf * 64 + n) mod 16) 4 (out @ [word_of_nat ((buf * 64 + n) div 16)])"
    "b64_loop (b64_char n # bs) buf 4 out = b64_loop bs ((buf * 64 + n) mod 4) 2 (out @ [word_of_nat ((buf * 64 + n) div 4)])"
    "b64_loop (b64_char n # bs) buf 2 out = b64_loop bs ((buf * 64 + n) mod 1) 0 (out @ [word_of_nat (buf * 64 + n)])"
  using b64_val_char [OF assms] by (simp_all add: Let_def)

lemma sextet_split:
  "((a :: nat) * 64 + b) div 16 = a * 4 + b div 16" "(a * 64 + b) mod 16 = b mod 16"
  "(a * 64 + b) div 4 = a * 16 + b div 4" "(a * 64 + b) mod 4 = b mod 4"
proof -
  have *: "a * 64 + b = b + a * 4 * 16" "a * 64 + b = b + a * 16 * 4" by simp_all
  show "(a * 64 + b) div 16 = a * 4 + b div 16" using *(1) by (metis div_mult_self1 zero_neq_numeral)
  show "(a * 64 + b) mod 16 = b mod 16" using *(1) by (metis mod_mult_self1)
  show "(a * 64 + b) div 4 = a * 16 + b div 4" using *(2) by (metis div_mult_self1 zero_neq_numeral)
  show "(a * 64 + b) mod 4 = b mod 4" using *(2) by (metis mod_mult_self1)
qed

lemma sextet_triple:
  "(((a :: nat) * 4 + b div 16) * 2 ^ 16 + (b mod 16 * 16 + c div 4) * 2 ^ 8 + (c mod 4 * 64 + d)) =
     a * 2 ^ 18 + b * 2 ^ 12 + c * 2 ^ 6 + d"
proof -
  have "b = b div 16 * 16 + b mod 16" "c = c div 4 * 4 + c mod 4" by (rule div_mult_mod_eq [symmetric])+
  moreover define p q r s where "p = b div 16" "q = b mod 16" "r = c div 4" "s = c mod 4"
  ultimately have "b = p * 16 + q" "c = r * 4 + s" by simp_all
  then show ?thesis unfolding p_q_r_s_def [symmetric] by simp
qed

lemma triple_sextets:
  assumes "a < (64 :: nat)" "b < 64" "c < 64" "d < 64"
  shows "(a * 2 ^ 18 + b * 2 ^ 12 + c * 2 ^ 6 + d) div 2 ^ 18 = a"
    "(a * 2 ^ 18 + b * 2 ^ 12 + c * 2 ^ 6 + d) div 2 ^ 12 = a * 64 + b"
    "(a * 2 ^ 18 + b * 2 ^ 12 + c * 2 ^ 6 + d) div 2 ^ 6 = (a * 64 + b) * 64 + c"
    "a * 2 ^ 18 + b * 2 ^ 12 + c * 2 ^ 6 + d = (a * 4096 + b * 64 + c) * 64 + d"
  using assms by simp_all

lemma b64_char_low: "b64_char (m * 64 + n) = b64_char n"
  by (simp add: b64_char_def)

lemma b64_quad:
  assumes "a < 64" "b < 64" "c < 64" "d < 64"
  shows "b64_loop (b64_char a # b64_char b # b64_char c # b64_char d # rest) 0 0 out =
    b64_loop rest 0 0 (out @ [word_of_nat (a * 4 + b div 16), word_of_nat (b mod 16 * 16 + c div 4), word_of_nat (c mod 4 * 64 + d)])"
  by (simp only: b64_step [OF assms(1)] b64_step [OF assms(2)] b64_step [OF assms(3)] b64_step [OF assms(4)] sextet_split
      mult_0 add_0 mod_by_1 append_assoc append.simps)

lemma b64_pair:
  assumes "a < 64" "b < 64"
  shows "b64_loop [b64_char a, b64_char b] 0 0 out = Some (out @ [word_of_nat (a * 4 + b div 16)], b mod 16)"
  by (simp only: b64_step [OF assms(1)] b64_step [OF assms(2)] sextet_split mult_0 add_0 b64_loop.simps(1))

lemma b64_triple:
  assumes "a < 64" "b < 64" "c < 64"
  shows "b64_loop [b64_char a, b64_char b, b64_char c] 0 0 out =
    Some (out @ [word_of_nat (a * 4 + b div 16), word_of_nat (b mod 16 * 16 + c div 4)], c mod 4)"
  by (simp only: b64_step [OF assms(1)] b64_step [OF assms(2)] b64_step [OF assms(3)] sextet_split mult_0 add_0
      b64_loop.simps(1) append_assoc append.simps)

lemma unat_low: "n < 256 \<Longrightarrow> unat (word_of_nat n :: byte) = n"
  by (simp add: unat_of_nat)

lemma unat_sextets:
  assumes "a < 64" "b < 64" "c < 64" "d < 64"
  shows "unat (word_of_nat (a * 4 + b div 16) :: byte) = a * 4 + b div 16"
    "unat (word_of_nat (b mod 16 * 16 + c div 4) :: byte) = b mod 16 * 16 + c div 4"
    "unat (word_of_nat (c mod 4 * 64 + d) :: byte) = c mod 4 * 64 + d"
  by (rule unat_low, use assms mod_less_divisor [of 16 b] mod_less_divisor [of 4 c] in linarith)+

lemma encode_quad:
  assumes "a < 64" "b < 64" "c < 64" "d < 64"
  shows "base64_encode (word_of_nat (a * 4 + b div 16) # word_of_nat (b mod 16 * 16 + c div 4) # word_of_nat (c mod 4 * 64 + d) # data) =
    b64_char a # b64_char b # b64_char c # b64_char d # base64_encode data"
  unfolding base64_encode.simps Let_def unat_sextets [OF assms] sextet_triple triple_sextets(1-3) [OF assms]
  by (simp only: b64_char_low append.simps triple_sextets(4) [OF assms])

lemma encode_pair:
  assumes "a < 64" "b < 64" "b mod 16 = 0"
  shows "base64_encode [word_of_nat (a * 4 + b div 16)] = [b64_char a, b64_char b, PAD, PAD]"
proof -
  have "(a * 4 + b div 16) * 2 ^ 16 = a * 2 ^ 18 + b * 2 ^ 12 + 0 * 2 ^ 6 + 0" using sextet_triple [of a b 0 0] assms(3) by simp
  then show ?thesis
    using triple_sextets [of a b 0 0] assms unat_sextets(1) [of a b 0 0] by (simp only: base64_encode.simps Let_def b64_char_low zero_less_numeral)
qed

lemma encode_triple:
  assumes "a < 64" "b < 64" "c < 64" "c mod 4 = 0"
  shows "base64_encode [word_of_nat (a * 4 + b div 16), word_of_nat (b mod 16 * 16 + c div 4)] = [b64_char a, b64_char b, b64_char c, PAD]"
proof -
  have "(a * 4 + b div 16) * 2 ^ 16 + (b mod 16 * 16 + c div 4) * 2 ^ 8 = a * 2 ^ 18 + b * 2 ^ 12 + c * 2 ^ 6 + 0"
    using sextet_triple [of a b c 0] assms(4) by simp
  then show ?thesis
    using triple_sextets [of a b c 0] assms unat_sextets [of a b c 0] by (simp only: base64_encode.simps Let_def b64_char_low zero_less_numeral)
qed

lemma byte_sextets:
  obtains a b where "a < 64" "b < 64" "b mod 16 = 0" "x = (word_of_nat (a * 4 + b div 16) :: byte)"
proof -
  have "unat x < 256" by (rule unat_byte_less)
  then have "unat x div 4 < 64" "unat x mod 4 * 16 < 64" by simp_all
  moreover have "x = word_of_nat (unat x div 4 * 4 + unat x mod 4 * 16 div 16)" by (simp add: word_unat_eq_iff)
  ultimately show thesis using that [of "unat x div 4" "unat x mod 4 * 16"] by simp
qed

lemma two_bytes_sextets:
  obtains a b c where "a < 64" "b < 64" "c < 64" "c mod 4 = 0" "x = (word_of_nat (a * 4 + b div 16) :: byte)"
    "y = (word_of_nat (b mod 16 * 16 + c div 4) :: byte)"
proof -
  obtain a b where a: "a < 64" "b < 64" "b mod 16 = 0" "x = (word_of_nat (a * 4 + b div 16) :: byte)" by (rule byte_sextets [of x])
  have y: "unat y < 256" by (rule unat_byte_less)
  let ?b = "b + unat y div 16" and ?c = "unat y mod 16 * 4"
  have d: "unat y div 16 < 16" using y by simp
  obtain k where k: "b = k * 16" using a(3) by (metis dvd_def mod_eq_0_iff_dvd mult.commute)
  have b: "?b div 16 = b div 16" "?b mod 16 = unat y div 16" using d unfolding k by simp_all
  have "k < 4" using a(2) k by simp
  then have "?b < 64" using d k by linarith
  moreover have "y = word_of_nat (?b mod 16 * 16 + ?c div 4)" using b by (simp add: word_unat_eq_iff)
  ultimately show thesis using that [of a ?b ?c] a b(1) by simp
qed

lemma three_bytes_sextets:
  obtains a b c d where "a < 64" "b < 64" "c < 64" "d < 64" "x = (word_of_nat (a * 4 + b div 16) :: byte)"
    "y = (word_of_nat (b mod 16 * 16 + c div 4) :: byte)" "z = (word_of_nat (c mod 4 * 64 + d) :: byte)"
proof -
  obtain a b c where a: "a < 64" "b < 64" "c < 64" "c mod 4 = 0" "x = (word_of_nat (a * 4 + b div 16) :: byte)"
    "y = (word_of_nat (b mod 16 * 16 + c div 4) :: byte)" by (rule two_bytes_sextets [of x y])
  have z: "unat z < 256" by (rule unat_byte_less)
  let ?c = "c + unat z div 64" and ?d = "unat z mod 64"
  have d: "unat z div 64 < 4" using z by simp
  obtain k where k: "c = k * 4" using a(4) by (metis dvd_def mod_eq_0_iff_dvd mult.commute)
  have c: "?c div 4 = c div 4" "?c mod 4 = unat z div 64" using d unfolding k by simp_all
  have "k < 16" using a(3) k by simp
  then have "?c < 64" using d k by linarith
  moreover have "z = word_of_nat (?c mod 4 * 64 + ?d)" using c by (simp add: word_unat_eq_iff)
  ultimately show thesis using that [of a b ?c ?d] a c(1) by simp
qed

definition b64_shape :: "bytes \<Rightarrow> nat \<Rightarrow> bool" where
  "b64_shape body p \<longleftrightarrow> PAD \<notin> set body \<and> p \<le> 2 \<and> (length body + p) mod 4 = 0"

lemma encode_shape:
  "\<exists>body p. base64_encode b = body @ replicate p PAD \<and> b64_shape body p \<and> (\<forall>out. b64_loop body 0 0 out = Some (out @ b, 0))"
proof (induction b rule: base64_encode.induct)
  case 1
  then show ?case by (intro exI [of _ "[]"] exI [of _ 0]) (simp add: b64_shape_def)
next
  case (2 x)
  obtain a b where "a < 64" "b < 64" "b mod 16 = 0" "x = (word_of_nat (a * 4 + b div 16) :: byte)" by (rule byte_sextets [of x])
  then show ?case
    using encode_pair [of a b] b64_pair [of a b] b64_not_pad [THEN not_sym]
    by (intro exI [of _ "[b64_char a, b64_char b]"] exI [of _ 2]) (simp add: b64_shape_def numeral_2_eq_2 del: base64_encode.simps b64_loop.simps)
next
  case (3 x y)
  obtain a b c where "a < 64" "b < 64" "c < 64" "c mod 4 = 0" "x = (word_of_nat (a * 4 + b div 16) :: byte)"
    "y = (word_of_nat (b mod 16 * 16 + c div 4) :: byte)" by (rule two_bytes_sextets [of x y])
  then show ?case
    using encode_triple [of a b c] b64_triple [of a b c] b64_not_pad [THEN not_sym]
    by (intro exI [of _ "[b64_char a, b64_char b, b64_char c]"] exI [of _ 1]) (simp add: b64_shape_def del: base64_encode.simps b64_loop.simps)
next
  case (4 x y z data)
  then obtain body p where ih: "base64_encode data = body @ replicate p PAD" "b64_shape body p"
    "\<forall>out. b64_loop body 0 0 out = Some (out @ data, 0)" by blast
  obtain a b c d where "a < 64" "b < 64" "c < 64" "d < 64" "x = (word_of_nat (a * 4 + b div 16) :: byte)"
    "y = (word_of_nat (b mod 16 * 16 + c div 4) :: byte)" "z = (word_of_nat (c mod 4 * 64 + d) :: byte)" by (rule three_bytes_sextets [of x y z])
  then show ?case
    using encode_quad [of a b c d data] b64_quad [of a b c d body] b64_not_pad [THEN not_sym] ih
    by (intro exI [of _ "b64_char a # b64_char b # b64_char c # b64_char d # body"] exI [of _ p])
      (simp add: b64_shape_def del: base64_encode.simps b64_loop.simps)
qed

lemma loop_chars: "b64_loop body buf bits out = Some r \<Longrightarrow> x \<in> set body \<Longrightarrow> \<exists>n < 64. x = b64_char n"
proof (induction body buf bits out rule: b64_loop.induct)
  case (2 c cs buf bits out)
  then obtain n where n: "b64_val c = Some n" by (auto split: option.splits)
  then have "n < 64 \<and> c = b64_char n" using b64_char_val by blast
  with 2 n show ?case by (auto simp: Let_def split: if_splits)
qed simp

lemma loop_canonical:
  "b64_loop body 0 0 out = Some (r, 0) \<Longrightarrow> (length body + p) mod 4 = 0 \<Longrightarrow> p \<le> 2 \<Longrightarrow>
     \<exists>b. r = out @ b \<and> body @ replicate p PAD = base64_encode b"
proof (induction "length body" arbitrary: body out rule: less_induct)
  case less
  note v = loop_chars [OF less.prems(1)]
  have p: "p = 0 \<or> p = 1 \<or> p = 2" using less.prems(3) by linarith
  consider "body = []" | x where "body = [x]" | x y where "body = [x, y]" | x y z where "body = [x, y, z]"
    | x y z w rest where "body = x # y # z # w # rest" by (metis list.exhaust)
  then show ?case
  proof cases
    case 1
    with less.prems p show ?thesis by auto
  next
    case 2
    with less.prems p show ?thesis by auto
  next
    case (3 x y)
    with v obtain a b where ab: "a < 64" "b < 64" "x = b64_char a" "y = b64_char b" by (metis list.set_intros)
    with 3 less.prems(1) b64_pair [OF ab(1,2)] have r: "r = out @ [word_of_nat (a * 4 + b div 16)]" "b mod 16 = 0" by auto
    have "length body = 2" using 3 by simp
    with less.prems(2,3) have "p = 2" by presburger
    with encode_pair [OF ab(1,2) r(2)] r(1) ab(3,4) 3 show ?thesis
      by (intro exI [of _ "[word_of_nat (a * 4 + b div 16)]"]) (simp add: numeral_2_eq_2 del: base64_encode.simps)
  next
    case (4 x y z)
    with v obtain a b c where ab: "a < 64" "b < 64" "c < 64" "x = b64_char a" "y = b64_char b" "z = b64_char c" by (metis list.set_intros)
    with 4 less.prems(1) b64_triple [OF ab(1,2,3)]
    have r: "r = out @ [word_of_nat (a * 4 + b div 16), word_of_nat (b mod 16 * 16 + c div 4)]" "c mod 4 = 0" by auto
    have "length body = 3" using 4 by simp
    with less.prems(2,3) have "p = 1" by presburger
    with encode_triple [OF ab(1-3) r(2)] r(1) ab(4-6) 4 show ?thesis
      by (intro exI [of _ "[word_of_nat (a * 4 + b div 16), word_of_nat (b mod 16 * 16 + c div 4)]"]) (simp del: base64_encode.simps)
  next
    case (5 x y z w rest)
    with v obtain a b c d where ab: "a < 64" "b < 64" "c < 64" "d < 64" "x = b64_char a" "y = b64_char b" "z = b64_char c" "w = b64_char d"
      by (metis list.set_intros)
    let ?h = "[word_of_nat (a * 4 + b div 16), word_of_nat (b mod 16 * 16 + c div 4), word_of_nat (c mod 4 * 64 + d)]"
    have "b64_loop rest 0 0 (out @ ?h) = Some (r, 0)" using 5 less.prems(1) b64_quad [OF ab(1-4), of rest out] ab(5-8) by (simp only:)
    moreover have "(length rest + p) mod 4 = 0" using less.prems(2) 5 by simp
    ultimately obtain t where t: "r = (out @ ?h) @ t" "rest @ replicate p PAD = base64_encode t"
      using less.hyps [of rest "out @ ?h"] less.prems(3) 5 by auto
    with encode_quad [OF ab(1-4), of t] ab(5-8) 5 show ?thesis
      by (intro exI [of _ "?h @ t"]) (simp del: base64_encode.simps)
  qed
qed

lemma pad_count_shape: "b64_shape body p \<Longrightarrow> pad_count (body @ replicate p PAD) = p"
proof -
  assume s: "b64_shape body p"
  have "p = 0 \<or> p = 1 \<or> p = 2" "body = [] \<Longrightarrow> p = 0" using s by (auto simp: b64_shape_def)
  moreover have "body \<noteq> [] \<Longrightarrow> last body \<noteq> PAD" using s last_in_set [of body] by (metis b64_shape_def)
  ultimately show ?thesis by (cases "body = []") (auto simp: pad_count_def numeral_2_eq_2 butlast_append)
qed

lemma pad_split: "take (length t - pad_count t) t @ replicate (pad_count t) PAD = t" "pad_count t \<le> 2"
proof -
  have "take (length t - pad_count t) t @ replicate (pad_count t) PAD = t \<and> pad_count t \<le> 2"
  proof (cases t rule: rev_cases)
    case (snoc u x)
    then show ?thesis by (cases u rule: rev_cases) (auto simp: pad_count_def butlast_append numeral_2_eq_2)
  qed (simp add: pad_count_def)
  then show "take (length t - pad_count t) t @ replicate (pad_count t) PAD = t" "pad_count t \<le> 2" by blast+
qed

lemma base64_strict: "base64_decode s = Some b \<longleftrightarrow> trim s = base64_encode b"
proof
  assume e: "trim s = base64_encode b"
  obtain body p where b: "base64_encode b = body @ replicate p PAD" "b64_shape body p" "b64_loop body 0 0 [] = Some (b, 0)"
    using encode_shape [of b] by fastforce
  have "take (length (body @ replicate p PAD) - p) (body @ replicate p PAD) = body" by simp
  with e b pad_count_shape [OF b(2)] show "base64_decode s = Some b"
    by (simp add: base64_decode_def b64_shape_def Let_def del: take_append)
next
  let ?t = "trim s" and ?body = "take (length (trim s) - pad_count (trim s)) (trim s)"
  assume "base64_decode s = Some b"
  then have l: "length ?t mod 4 = 0" "b64_loop ?body 0 0 [] = Some (b, 0)"
    by (auto simp: base64_decode_def Let_def split: if_splits option.splits)
  have "(length ?body + pad_count ?t) mod 4 = 0"
    using l(1) arg_cong [OF pad_split(1) [of ?t], of length] by (simp only: length_append length_replicate)
  from loop_canonical [OF l(2) this pad_split(2)] show "?t = base64_encode b" by (simp add: pad_split(1))
qed

text \<open>C37: base64 decoding is strict. It accepts exactly the encodings, up to white space around the text, so that a
  signature has one text form: no stray characters, no misplaced or missing padding, no ignored low bits.\<close>
theorem base64_canonical: "base64_decode s = Some b \<longleftrightarrow> trim s = base64_encode b"
  by (rule base64_strict)

section \<open>What a signature covers\<close>

text \<open>C38: the signed bytes fix the commit. Two commits with the same signed bytes are equal but for the signature:
  tree, parents, authors, committer, assistants, reviewers and message cannot be changed under a signature.\<close>
theorem signed_payload_fixes_commit:
  assumes "wf_commit c" "wf_commit c'" "commit_payload_without_sig c = commit_payload_without_sig c'"
  shows "c' = c\<lparr>c_signature := c_signature c'\<rparr>"
proof -
  have "wf_commit (c\<lparr>c_signature := None\<rparr>)" "wf_commit (c'\<lparr>c_signature := None\<rparr>)"
    using assms(1,2) by (simp_all add: wf_commit_def)
  then have "c\<lparr>c_signature := None\<rparr> = c'\<lparr>c_signature := None\<rparr>"
    using assms(3) commit.dec_enc unfolding payload_is_encoding by (metis sum.inject(2))
  then show ?thesis by (cases c; cases c') simp
qed

theorem signed_payload_fixes_commit_witness:
  "sample_commit = (sample_commit\<lparr>c_signature := None\<rparr>)\<lparr>c_signature := c_signature sample_commit\<rparr>"
proof (rule signed_payload_fixes_commit)
  show "wf_commit sample_commit" by (rule wf_sample_commit)
  then show "wf_commit (sample_commit\<lparr>c_signature := None\<rparr>)" by (simp add: wf_commit_def)
qed (simp add: payload_is_encoding)

section \<open>Signing and verifying\<close>

lemma solid_b64: "solid (b64_char n)" "solid PAD"
proof -
  have "33 \<le> unat (b64_char n) \<and> unat (b64_char n) \<le> 126" by (simp add: unat_b64_char Let_def) arith
  then show "solid (b64_char n)" by (simp add: solid_def word_le_nat_alt)
qed (simp add: solid_def PAD_def)

lemma solid_encode: "list_all solid (base64_encode b)"
  by (induction b rule: base64_encode.induct) (simp_all add: solid_b64 Let_def)

lemma trim_encode: "trim (base64_encode b) = base64_encode b"
  using solid_encode [of b] by (intro trim_graphic) (simp add: graphic_def list_all_iff solid_def)

lemma b64_decode_encode: "base64_decode (base64_encode b) = Some b"
  by (simp add: base64_strict trim_encode)

lemma load_signing_key_private:
  "load_signing_key fs path = Inr k \<Longrightarrow> \<exists>m. deref ELOOP_MAX fs path = Some (File k m) \<and> m AND 63 = 0 \<and> length k = 32"
  by (auto simp: load_signing_key_def enforce_private_mode_def read_all_def and.assoc split: option.splits node.splits if_splits sum.splits)

text \<open>C39: a commit signed by this program is accepted by its verifier, and only a private key is used. When
  \<open>maybe_sign_commit\<close> signs, the key file is not accessible to group or others, nothing but the signature changes, and
  verifying the new signature with the matching public key says it is good.\<close>
theorem signed_commit_verifies:
  assumes "maybe_sign_commit E fs key_path required force c = Inr c'" "required \<or> force" "c_signature c = None" "ed_correct E"
    "\<And>k. read_all fs key_path = Inr k \<Longrightarrow> read_all fs pub_path = Inr (ed_public E k)"
  shows "\<exists>k m b64. deref ELOOP_MAX fs key_path = Some (File k m) \<and> m AND 63 = 0
    \<and> c' = c\<lparr>c_signature := Some b64\<rparr>
    \<and> verify_signature E fs (commit_payload_without_sig c') b64 pub_path = Inr True"
proof -
  obtain k where k: "load_signing_key fs key_path = Inr k"
    and c': "c' = c\<lparr>c_signature := Some (base64_encode (ed_sign E k (commit_payload_without_sig c)))\<rparr>"
    using assms(1-3) by (auto simp: maybe_sign_commit_def sign_commit_def split: sum.splits if_splits)
  obtain m where m: "deref ELOOP_MAX fs key_path = Some (File k m)" "m AND 63 = 0" "length k = 32"
    using load_signing_key_private [OF k] by blast
  have "read_all fs pub_path = Inr (ed_public E k)" using assms(5) [of k] m(1) by (simp add: read_all_def)
  moreover have "commit_payload_without_sig c' = commit_payload_without_sig c" using c' by (simp add: commit_payload_without_sig_def)
  ultimately show ?thesis
    using m c' assms(4) by (auto simp: verify_signature_def load_verifying_key_def b64_decode_encode ed_correct_def)
qed

definition toy_ed25519 :: ed25519 where
  "toy_ed25519 = \<lparr>ed_valid_key = \<lambda>_. True, ed_public = \<lambda>k. k, ed_sign = \<lambda>k m. replicate 64 (hd k),
     ed_verify_strict = \<lambda>k m s. s = replicate 64 (hd k)\<rparr>"

lemma toy_correct: "ed_correct toy_ed25519"
  by (simp add: ed_correct_def toy_ed25519_def)

definition key_fs :: fs where
  "key_fs = [([ascii ''key''], File (replicate 32 7) 384), ([ascii ''pub''], File (replicate 32 7) 420)]"

lemma key_fs_reads:
  "deref ELOOP_MAX key_fs [ascii ''key''] = Some (File (replicate 32 7) 384)" "read_all key_fs [ascii ''key''] = Inr (replicate 32 7)"
  "read_all key_fs [ascii ''pub''] = Inr (replicate 32 7)"
  by (simp_all add: key_fs_def read_all_def deref_file)

theorem signed_commit_verifies_witness:
  "\<exists>c' b64. maybe_sign_commit toy_ed25519 key_fs [ascii ''key''] True False (sample_commit\<lparr>c_signature := None\<rparr>) = Inr c'
     \<and> verify_signature toy_ed25519 key_fs (commit_payload_without_sig c') b64 [ascii ''pub''] = Inr True"
proof -
  let ?c = "sample_commit\<lparr>c_signature := None\<rparr>"
  obtain c' where c': "maybe_sign_commit toy_ed25519 key_fs [ascii ''key''] True False ?c = Inr c'"
    by (simp add: maybe_sign_commit_def sign_commit_def load_signing_key_def enforce_private_mode_def key_fs_reads del: ascii_Cons)
  have "read_all key_fs [ascii ''key''] = Inr k \<Longrightarrow> read_all key_fs [ascii ''pub''] = Inr (ed_public toy_ed25519 k)" for k
    by (simp add: key_fs_reads toy_ed25519_def del: ascii_Cons)
  from signed_commit_verifies [OF c' _ _ toy_correct this] c' show ?thesis by auto
qed

end
