(* ===== verification/Config.thy ===== *)
theory Config
  imports Toml Hash Fs
begin

text \<open>
  \<open>src/config.rs\<close>: the configuration file. Its parser reads sections of \<open>key = value\<close> lines, its writer prints
  strings with \<open>{:?}\<close> (see \<open>Toml\<close>). A \<open>BTreeMap\<close> is a list of pairs with strictly ascending keys. The environment
  variables and the path of the global file are arguments of \<open>config_load\<close>.
\<close>

datatype ci_concurrency = Ci_Parallel | Ci_Serial
datatype ci_job_mode = Job_Parallel | Job_Queue | Job_Interrupt

record config =
  cf_user_name :: "bytes option"
  cf_user_email :: "bytes option"
  cf_remotes :: "(bytes \<times> bytes) list"
  cf_create_default_gytignore :: bool
  cf_sign_required :: bool
  cf_ci_mode :: ci_concurrency
  cf_ci_job_modes :: "(bytes \<times> ci_job_mode) list"

definition config_default :: config where
  "config_default = \<lparr>cf_user_name = None, cf_user_email = None, cf_remotes = [], cf_create_default_gytignore = False,
     cf_sign_required = False, cf_ci_mode = Ci_Parallel, cf_ci_job_modes = []\<rparr>"

definition effective_ci_job_mode :: "config \<Rightarrow> bytes \<Rightarrow> ci_job_mode" where
  "effective_ci_job_mode cfg job =
     (case map_of (cf_ci_job_modes cfg) (map to_lower job) of
        Some m \<Rightarrow> m
      | None \<Rightarrow> (case cf_ci_mode cfg of Ci_Serial \<Rightarrow> Job_Queue | Ci_Parallel \<Rightarrow> Job_Parallel))"

definition ci_domain_key :: "config \<Rightarrow> bytes \<Rightarrow> bytes" where
  "ci_domain_key cfg job = (case cf_ci_mode cfg of Ci_Serial \<Rightarrow> ascii ''all'' | Ci_Parallel \<Rightarrow> job)"

definition identity :: "config \<Rightarrow> bytes res" where
  "identity cfg =
     (case cf_user_name cfg of
        None \<Rightarrow> Inl (ERepo ''user.name not set'')
      | Some name \<Rightarrow>
        (case cf_user_email cfg of
           None \<Rightarrow> Inl (ERepo ''user.email not set'')
         | Some email \<Rightarrow> Inr (name @ [SP, 60] @ email @ [62])))"

section \<open>Parsing\<close>

fun strip_comment :: "bool \<Rightarrow> bool \<Rightarrow> bytes \<Rightarrow> bytes" where
  "strip_comment in_quote escape [] = []"
| "strip_comment in_quote escape (b # bs) =
     (if escape then b # strip_comment in_quote False bs
      else if in_quote then b # strip_comment (b \<noteq> 34) (b = BSLASH) bs
      else if b = 34 then b # strip_comment True False bs
      else if b = 35 then []
      else b # strip_comment False False bs)"

fun hex_val :: "nat \<Rightarrow> bytes \<Rightarrow> nat option" where
  "hex_val acc [] = Some acc"
| "hex_val acc (b # bs) = (case hex_nibble b of Inl _ \<Rightarrow> None | Inr n \<Rightarrow> hex_val (acc * 16 + unat n) bs)"

definition parse_hex :: "bytes \<Rightarrow> nat option" where
  \<comment> \<open>\<open>from_str_radix\<close> for base 16; it allows a plus sign\<close>
  "parse_hex s = (let ds = (case s of [] \<Rightarrow> [] | c # cs \<Rightarrow> if c = 43 then cs else s) in if ds = [] then None else hex_val 0 ds)"

definition char_from_u32 :: "nat \<Rightarrow> bytes option" where
  "char_from_u32 cp =
     (if 0xD800 \<le> cp \<and> cp \<le> 0xDFFF then None
      else if cp < 0x80 then Some [word_of_nat cp]
      else if cp < 0x800 then Some [word_of_nat (0xC0 + cp div 64), word_of_nat (0x80 + cp mod 64)]
      else Some [word_of_nat (0xE0 + cp div 4096), word_of_nat (0x80 + cp div 64 mod 64), word_of_nat (0x80 + cp mod 64)])"

function unquote_loop :: "bytes \<Rightarrow> bytes \<Rightarrow> bytes option" where
  \<comment> \<open>by bytes: of a character beyond ASCII no byte is a backslash or a hexadecimal digit\<close>
  "unquote_loop s out =
     (case s of
        [] \<Rightarrow> Some out
      | c # cs \<Rightarrow>
        if c \<noteq> BSLASH then unquote_loop cs (out @ [c])
        else (case cs of
                [] \<Rightarrow> None
              | n # ns \<Rightarrow>
                if n = BSLASH then unquote_loop ns (out @ [BSLASH])
                else if n = 34 then unquote_loop ns (out @ [34])
                else if n = 110 then unquote_loop ns (out @ [NL])
                else if n = 114 then unquote_loop ns (out @ [CR])
                else if n = 116 then unquote_loop ns (out @ [TAB])
                else if n = 117 then
                  (if length ns < 4 then None
                   else (case parse_hex (take 4 ns) of
                           None \<Rightarrow> None
                         | Some cp \<Rightarrow>
                           (case char_from_u32 cp of
                              None \<Rightarrow> None
                            | Some ch \<Rightarrow> unquote_loop (drop 4 ns) (out @ ch))))
                else None))"
  by pat_completeness auto
termination by (relation "measure (\<lambda>(s, out). length s)") auto

declare unquote_loop.simps [simp del]

definition unquote :: "bytes \<Rightarrow> bytes option" where
  "unquote s = (if length s < 2 \<or> hd s \<noteq> 34 \<or> last s \<noteq> 34 then None else unquote_loop (butlast (tl s)) [])"

definition KNOWN_SECTIONS :: "bytes list" where
  "KNOWN_SECTIONS = [ascii ''user'', ascii ''remote'', ascii ''init'', ascii ''commit'', ascii ''ci'']"

definition parse_section :: "bytes \<Rightarrow> bytes list res" where
  "parse_section rest =
     (let section = map (\<lambda>s. map to_lower (trim s)) (split_char 46 (trim rest)) in
      if hd section = [] then Inl (EParse ''empty section component'')
      else if hd section \<notin> set KNOWN_SECTIONS then Inl (EParse ''unknown section'')
      else if [] \<in> set (tl section) then Inl (EParse ''empty section component'')
      else Inr section)"

definition parse_bool :: "bytes \<Rightarrow> bool res" where
  "parse_bool v =
     (if v = ascii ''true'' then Inr True
      else if v = ascii ''false'' then Inr False
      else (case unquote v of
              None \<Rightarrow> Inl (EParse ''expected boolean'')
            | Some s \<Rightarrow> if map to_lower s = ascii ''true'' then Inr True
                        else if map to_lower s = ascii ''false'' then Inr False
                        else Inl (EParse ''expected boolean'')))"

definition parse_ci_mode :: "bytes \<Rightarrow> ci_concurrency res" where
  "parse_ci_mode v =
     (let m = map to_lower v in
      if m = ascii ''parallel'' then Inr Ci_Parallel
      else if m \<in> {ascii ''serial'', ascii ''queue'', ascii ''queued''} then Inr Ci_Serial
      else Inl (EParse ''[ci] mode must be parallel or serial''))"

definition parse_job_mode :: "bytes \<Rightarrow> ci_job_mode res" where
  "parse_job_mode v =
     (let m = map to_lower v in
      if m = ascii ''parallel'' then Inr Job_Parallel
      else if m \<in> {ascii ''queue'', ascii ''queued'', ascii ''serial''} then Inr Job_Queue
      else if m \<in> {ascii ''interrupt'', ascii ''preempt''} then Inr Job_Interrupt
      else Inl (EParse ''mode must be interrupt, queue, or parallel''))"

definition config_field :: "bytes list \<Rightarrow> config \<Rightarrow> bytes \<Rightarrow> bytes \<Rightarrow> config res" where
  "config_field section cfg key value =
     (if section = [ascii ''init''] \<and> key = ascii ''create_default_gytignore''
      then map_res (parse_bool value) (\<lambda>b. cfg\<lparr>cf_create_default_gytignore := b\<rparr>)
      else if section = [ascii ''commit''] \<and> key = ascii ''sign_required''
      then map_res (parse_bool value) (\<lambda>b. cfg\<lparr>cf_sign_required := b\<rparr>)
      else (case unquote value of
              None \<Rightarrow> Inl (EParse ''value must be a quoted string'')
            | Some v \<Rightarrow>
              (case section of
                 [s] \<Rightarrow>
                   if s = ascii ''user'' then
                     (if key = ascii ''name'' then Inr (cfg\<lparr>cf_user_name := Some v\<rparr>)
                      else if key = ascii ''email'' then Inr (cfg\<lparr>cf_user_email := Some v\<rparr>)
                      else Inl (EParse ''unknown key in [user]''))
                   else if s = ascii ''ci'' then
                     (if key = ascii ''mode'' then map_res (parse_ci_mode v) (\<lambda>m. cfg\<lparr>cf_ci_mode := m\<rparr>)
                      else Inl (EParse ''unknown key in [ci]''))
                   else if s = ascii ''init'' then Inl (EParse ''unknown key in [init]'')
                   else if s = ascii ''commit'' then Inl (EParse ''unknown key in [commit]'')
                   else Inl (EParse ''stray key outside a known section'')
               | [s, name] \<Rightarrow>
                   if s = ascii ''remote'' then
                     (if key = ascii ''url'' then Inr (cfg\<lparr>cf_remotes := btree_insert name v (cf_remotes cfg)\<rparr>)
                      else Inl (EParse ''unknown key in [remote]''))
                   else if s = ascii ''ci'' then
                     (if key = ascii ''mode''
                      then map_res (parse_job_mode v) (\<lambda>m. cfg\<lparr>cf_ci_job_modes := btree_insert name m (cf_ci_job_modes cfg)\<rparr>)
                      else Inl (EParse ''unknown key in [ci]''))
                   else Inl (EParse ''stray key outside a known section'')
               | _ \<Rightarrow> Inl (EParse ''stray key outside a known section''))))"

definition config_line :: "bytes list \<times> config \<Rightarrow> bytes \<Rightarrow> (bytes list \<times> config) res" where
  "config_line = (\<lambda>(section, cfg) raw.
     let line = trim (strip_comment False False raw) in
     if line = [] then Inr (section, cfg)
     else if hd line = 91 \<and> tl line \<noteq> [] \<and> last line = 93 then map_res (parse_section (butlast (tl line))) (\<lambda>s. (s, cfg))
     else (case split_once [61] line of
             None \<Rightarrow> Inl (EParse ''expected `key = value`'')
           | Some (key, value) \<Rightarrow>
             map_res (config_field section cfg (map to_lower (trim key)) (trim value)) (\<lambda>c. (section, c))))"

fun config_lines_loop :: "bytes list \<times> config \<Rightarrow> bytes list \<Rightarrow> config res" where
  "config_lines_loop st [] = Inr (snd st)"
| "config_lines_loop st (raw # raws) = (case config_line st raw of Inl e \<Rightarrow> Inl e | Inr st' \<Rightarrow> config_lines_loop st' raws)"

definition config_parse :: "bytes \<Rightarrow> config res" where
  "config_parse b =
     (if \<not> valid_utf8 b then Inl (EParse ''config.toml is not utf-8'')
      else config_lines_loop ([], config_default) (str_lines b))"

section \<open>Writing\<close>

definition ci_mode_str :: "ci_concurrency \<Rightarrow> bytes" where
  "ci_mode_str m = (case m of Ci_Parallel \<Rightarrow> ascii ''parallel'' | Ci_Serial \<Rightarrow> ascii ''serial'')"

definition job_mode_str :: "ci_job_mode \<Rightarrow> bytes" where
  "job_mode_str m = (case m of Job_Parallel \<Rightarrow> ascii ''parallel'' | Job_Queue \<Rightarrow> ascii ''queue'' | Job_Interrupt \<Rightarrow> ascii ''interrupt'')"

definition section_line :: "bytes \<Rightarrow> bytes" where
  "section_line s = 91 # s @ [93]"

definition opt_line :: "(bytes \<Rightarrow> bool) \<Rightarrow> bytes \<Rightarrow> bytes option \<Rightarrow> bytes list" where
  "opt_line U k v = (case v of None \<Rightarrow> [] | Some s \<Rightarrow> [field_line k (debug_str U s)])"

definition config_lines :: "(bytes \<Rightarrow> bool) \<Rightarrow> config \<Rightarrow> bytes list" where
  "config_lines U cfg =
     (if cf_user_name cfg \<noteq> None \<or> cf_user_email cfg \<noteq> None
      then section_line (ascii ''user'') # opt_line U (ascii ''name'') (cf_user_name cfg)
             @ opt_line U (ascii ''email'') (cf_user_email cfg) @ [[]]
      else [])
     @ concat (map (\<lambda>(name, url). [section_line (ascii ''remote.'' @ name), field_line (ascii ''url'') (debug_str U url), []])
         (cf_remotes cfg))
     @ (if cf_create_default_gytignore cfg
        then [[], section_line (ascii ''init''), field_line (ascii ''create_default_gytignore'') (ascii ''true'')] else [])
     @ (if cf_sign_required cfg then [[], section_line (ascii ''commit''), field_line (ascii ''sign_required'') (ascii ''true'')] else [])
     @ (if cf_ci_mode cfg \<noteq> Ci_Parallel
        then [[], section_line (ascii ''ci''), field_line (ascii ''mode'') (debug_str U (ci_mode_str (cf_ci_mode cfg)))] else [])
     @ concat (map (\<lambda>(job, mode). [[], section_line (ascii ''ci.'' @ job), field_line (ascii ''mode'') (debug_str U (job_mode_str mode))])
         (cf_ci_job_modes cfg))"

definition config_text :: "(bytes \<Rightarrow> bool) \<Rightarrow> config \<Rightarrow> bytes" where
  "config_text U cfg = text_lines (config_lines U cfg)"

definition config_write :: "(bytes \<Rightarrow> bool) \<Rightarrow> bytes \<Rightarrow> fs \<Rightarrow> fpath \<Rightarrow> config \<Rightarrow> unit res \<times> fs" where
  "config_write U nonce fs gyt cfg = atomic_write nonce fs (gyt @ [ascii ''config.toml'']) (config_text U cfg)"

section \<open>Loading\<close>

definition merge_into :: "config \<Rightarrow> config \<Rightarrow> config" where
  "merge_into base other =
     base\<lparr>cf_user_name := (if cf_user_name other \<noteq> None then cf_user_name other else cf_user_name base),
       cf_user_email := (if cf_user_email other \<noteq> None then cf_user_email other else cf_user_email base),
       cf_remotes := fold (\<lambda>(k, v). btree_insert k v) (cf_remotes other) (cf_remotes base),
       cf_create_default_gytignore := (cf_create_default_gytignore other \<or> cf_create_default_gytignore base),
       cf_sign_required := cf_sign_required other,
       cf_ci_mode := (if cf_ci_mode other \<noteq> Ci_Parallel then cf_ci_mode other else cf_ci_mode base),
       cf_ci_job_modes := fold (\<lambda>(k, v). btree_insert k v) (cf_ci_job_modes other) (cf_ci_job_modes base)\<rparr>"

definition load_file :: "fs \<Rightarrow> fpath \<Rightarrow> config res" where
  "load_file fs p = (case read_all fs p of Inl e \<Rightarrow> Inl e | Inr b \<Rightarrow> config_parse b)"

definition global_config :: "fs \<Rightarrow> fpath option \<Rightarrow> config res" where
  "global_config fs global =
     (case global of
        None \<Rightarrow> Inr config_default
      | Some g \<Rightarrow> if path_exists fs g then load_file fs g else Inr config_default)"

definition env_override :: "bytes option \<Rightarrow> bytes option \<Rightarrow> config \<Rightarrow> config" where
  "env_override env_name env_email cfg =
     cfg\<lparr>cf_user_name := (case env_name of Some v \<Rightarrow> Some v | None \<Rightarrow> cf_user_name cfg),
         cf_user_email := (case env_email of Some v \<Rightarrow> Some v | None \<Rightarrow> cf_user_email cfg)\<rparr>"

definition config_load_global :: "fs \<Rightarrow> fpath option \<Rightarrow> bytes option \<Rightarrow> bytes option \<Rightarrow> config res" where
  "config_load_global fs global env_name env_email = map_res (global_config fs global) (env_override env_name env_email)"

definition config_load :: "fs \<Rightarrow> fpath option \<Rightarrow> bytes option \<Rightarrow> bytes option \<Rightarrow> fpath \<Rightarrow> config res" where
  "config_load fs global env_name env_email gyt =
     (case global_config fs global of
        Inl e \<Rightarrow> Inl e
      | Inr cfg \<Rightarrow>
        (let p = gyt @ [ascii ''config.toml''] in
         if path_exists fs p
         then map_res (load_file fs p) (\<lambda>repo_cfg. env_override env_name env_email (merge_into cfg repo_cfg))
         else Inr (env_override env_name env_email cfg)))"

section \<open>Reading back what was written\<close>

definition section_char :: "byte \<Rightarrow> bool" where
  \<comment> \<open>lower-case letters, digits, hyphen and underscore\<close>
  "section_char b \<longleftrightarrow> 97 \<le> b \<and> b \<le> 122 \<or> 48 \<le> b \<and> b \<le> 57 \<or> b = 45 \<or> b = 95"

definition section_word :: "bytes \<Rightarrow> bool" where
  "section_word s \<longleftrightarrow> s \<noteq> [] \<and> (\<forall>b \<in> set s. section_char b)"

definition config_ok :: "(bytes \<Rightarrow> bool) \<Rightarrow> config \<Rightarrow> bool" where
  "config_ok U cfg \<longleftrightarrow>
     (\<forall>s \<in> set_option (cf_user_name cfg) \<union> set_option (cf_user_email cfg). printable U s)
     \<and> sorted_wrt (<) (map fst (cf_remotes cfg)) \<and> (\<forall>(k, v) \<in> set (cf_remotes cfg). section_word k \<and> printable U v)
     \<and> sorted_wrt (<) (map fst (cf_ci_job_modes cfg)) \<and> (\<forall>(k, v) \<in> set (cf_ci_job_modes cfg). section_word k)"

lemma section_char_facts:
  "section_char b \<Longrightarrow> solid b \<and> to_lower b = b \<and> b \<notin> {34, 35, 46, 61, 91, 93} \<and> b < 0x80 \<and> b \<noteq> NL \<and> b \<noteq> CR"
  by (auto simp: section_char_def solid_def to_lower_def word_le_nat_alt word_less_nat_alt word_unat_eq_iff)

lemma unquote_step:
  "unquote_loop [] out = Some out"
  "c \<noteq> BSLASH \<Longrightarrow> unquote_loop (c # cs) out = unquote_loop cs (out @ [c])"
  by (simp_all add: unquote_loop.simps [of "[]"] unquote_loop.simps [of "c # cs"])

lemma unquote_plain: "BSLASH \<notin> set c \<Longrightarrow> unquote_loop (c @ rest) out = unquote_loop rest (out @ c)"
  by (induction c arbitrary: out) (auto simp: unquote_step)

lemma unquote_char: "good_char U c \<Longrightarrow> unquote_loop (debug_char U c @ rest) out = unquote_loop rest (out @ c)"
proof (cases "c \<in> {[TAB], [CR], [NL], [34], [BSLASH]}")
  case True
  then show ?thesis by (auto simp: debug_char_def unquote_loop.simps [of "BSLASH # _"])
next
  case False
  assume g: "good_char U c"
  then have "c \<noteq> [0]" by (auto simp: good_char_def wide_def)
  from g show ?thesis
  proof (cases rule: debug_char_good)
    case (esc d x)
    with False \<open>c \<noteq> [0]\<close> show ?thesis by (auto simp: debug_char_def unicode_escape_def split: if_splits)
  qed (simp add: unquote_plain)
qed

lemma unquote_text: "\<forall>c \<in> set cs. good_char U c \<Longrightarrow> unquote_loop (concat (map (debug_char U) cs)) out = Some (out @ concat cs)"
  by (induction cs arbitrary: out) (simp_all add: unquote_char unquote_step)

lemma unquote_debug_str: "printable U s \<Longrightarrow> unquote (debug_str U s) = Some s"
  using unquote_text [of "chars s" U "[]"] printable_good [of U s] by (simp add: unquote_def debug_str_def concat_chars)

lemma comment_plain:
  "BSLASH \<notin> set c \<Longrightarrow> 34 \<notin> set c \<Longrightarrow> strip_comment True False (c @ rest) = c @ strip_comment True False rest"
  by (induction c) auto

lemma comment_char: "good_char U c \<Longrightarrow> strip_comment True False (debug_char U c @ rest) = debug_char U c @ strip_comment True False rest"
  by (erule debug_char_good) (simp_all add: comment_plain)

lemma comment_text:
  "\<forall>c \<in> set cs. good_char U c \<Longrightarrow>
     strip_comment True False (concat (map (debug_char U) cs) @ rest) = concat (map (debug_char U) cs) @ strip_comment True False rest"
  by (induction cs) (simp_all add: comment_char)

lemma comment_debug_str: "printable U s \<Longrightarrow> strip_comment False False (debug_str U s) = debug_str U s"
  using comment_text [of "chars s" U "[34]"] printable_good [of U s] by (simp add: debug_str_def)

lemma comment_none: "34 \<notin> set s \<Longrightarrow> 35 \<notin> set s \<Longrightarrow> strip_comment False False (s @ t) = s @ strip_comment False False t"
  by (induction s) auto

lemma config_line_blank: "config_line st [] = Inr st"
  by (cases st) (simp add: config_line_def trim_graphic graphic_def)

lemma config_line_field:
  assumes "key_name k" "34 \<notin> set k" "35 \<notin> set k" "map to_lower k = k" "value_ok v" "strip_comment False False v = v"
  shows "config_line (section, cfg) (field_line k v) = map_res (config_field section cfg k v) (\<lambda>c. (section, c))"
proof -
  let ?l = "field_line k v"
  have l: "?l \<noteq> []" "hd ?l = hd k" "last ?l = last v" "hd k \<noteq> 91"
    using assms(1,5) by (simp_all add: field_line_def key_name_def value_ok_def)
  have s: "solid (hd k)" "solid (last k)" using assms(1) by (simp_all add: key_name_def)
  have "strip_comment False False ?l = ?l"
    using comment_none [of "k @ [SP, 61, SP]" v] assms(2,3,6) by (simp add: field_line_def)
  moreover have "trim ?l = ?l" using l s assms(5) by (intro trim_solid) (simp_all add: value_ok_def)
  moreover have "split_once [61] ?l = Some (k @ [SP], SP # v)"
    using split_once_char [of 61 "k @ [SP]" "SP # v"] assms(1) by (auto simp: field_line_def key_name_def)
  moreover have "trim (k @ [SP]) = k" "trim (SP # v) = v"
    using assms(1,5) s by (simp_all add: trim_sp_right trim_sp_left key_name_def value_ok_def)
  ultimately show ?thesis using l assms(4) by (simp add: config_line_def)
qed

definition sect_name :: "bytes \<Rightarrow> bool" where
  "sect_name s \<longleftrightarrow> s \<noteq> [] \<and> (\<forall>b \<in> set s. section_char b \<or> b = 46)"

lemma config_line_section:
  assumes "sect_name s"
  shows "config_line (section, cfg) (section_line s) = map_res (parse_section s) (\<lambda>x. (x, cfg))"
proof -
  have s: "34 \<notin> set s" "35 \<notin> set s" "\<forall>b \<in> set s. solid b"
    using assms section_char_facts by (fastforce simp: sect_name_def solid_def)+
  have "strip_comment False False (section_line s) = section_line s"
    using comment_none [of "section_line s" "[]"] s by (simp add: section_line_def)
  moreover have "trim (section_line s) = section_line s"
    by (rule trim_solid) (simp_all add: section_line_def solid_def)
  ultimately show ?thesis by (simp add: config_line_def) (simp add: section_line_def)
qed

lemma sect_plain: "sect_name s \<Longrightarrow> plain_line (section_line s)"
proof -
  assume "sect_name s"
  then have "\<forall>b \<in> set (section_line s). b < 0x80 \<and> b \<noteq> NL \<and> b \<noteq> CR"
    using section_char_facts by (fastforce simp: sect_name_def section_line_def)
  then show ?thesis by (intro plain_line_ascii) (simp add: list_all_iff)
qed

lemma word_of_section: "section_word s \<Longrightarrow> trim s = s \<and> map to_lower s = s \<and> 46 \<notin> set s"
  using section_char_facts by (auto simp: section_word_def graphic_def solid_def intro!: trim_graphic map_idI)

lemma known_words:
  "section_word (ascii ''user'')" "section_word (ascii ''remote'')" "section_word (ascii ''init'')" "section_word (ascii ''commit'')"
  "section_word (ascii ''ci'')"
  by (simp_all add: section_word_def section_char_def)

lemma parse_section_one: "s \<in> set KNOWN_SECTIONS \<Longrightarrow> section_word s \<Longrightarrow> parse_section s = Inr [s]"
  using word_of_section [of s] by (simp add: parse_section_def split_char_piece section_word_def)

lemma parse_section_two:
  assumes "s \<in> set KNOWN_SECTIONS" "section_word s" "section_word t"
  shows "parse_section (s @ 46 # t) = Inr [s, t]"
proof -
  have "graphic (s @ 46 # t)" using assms(2,3) section_char_facts by (auto simp: section_word_def graphic_def solid_def)
  then have "trim (s @ 46 # t) = s @ 46 # t" by (rule trim_graphic)
  moreover have "split_char 46 (s @ 46 # t) = [s, t]"
    using word_of_section [OF assms(2)] word_of_section [OF assms(3)] by (simp add: split_char_append split_char_piece)
  ultimately show ?thesis
    using assms word_of_section [OF assms(2)] word_of_section [OF assms(3)] by (auto simp: parse_section_def section_word_def)
qed

lemma sect_names:
  "section_word s \<Longrightarrow> sect_name s" "section_word s \<Longrightarrow> section_word t \<Longrightarrow> sect_name (s @ 46 # t)"
  by (auto simp: section_word_def sect_name_def)

lemma config_keys:
  "key_name (ascii ''name'')" "key_name (ascii ''email'')" "key_name (ascii ''url'')" "key_name (ascii ''mode'')"
  "key_name (ascii ''create_default_gytignore'')" "key_name (ascii ''sign_required'')"
  by (rule key_name_word; simp add: word_chars_def)+

lemma true_value: "value_ok (ascii ''true'')" "strip_comment False False (ascii ''true'') = ascii ''true''"
  by (simp_all add: value_ok_def solid_def valid_utf8_low)

lemma known_sections:
  "ascii ''user'' \<in> set KNOWN_SECTIONS" "ascii ''remote'' \<in> set KNOWN_SECTIONS" "ascii ''init'' \<in> set KNOWN_SECTIONS"
  "ascii ''commit'' \<in> set KNOWN_SECTIONS" "ascii ''ci'' \<in> set KNOWN_SECTIONS"
  by (simp_all add: KNOWN_SECTIONS_def del: ascii_Cons)

lemma mode_words:
  "printable U (ci_mode_str m) \<and> parse_ci_mode (ci_mode_str m) = Inr m"
  "printable U (job_mode_str j) \<and> parse_job_mode (job_mode_str j) = Inr j"
  by (cases m; simp add: ci_mode_str_def printable_ascii parse_ci_mode_def to_lower_def)
    (cases j; simp add: job_mode_str_def printable_ascii parse_job_mode_def to_lower_def)

definition takes :: "bytes list \<Rightarrow> config \<Rightarrow> config \<Rightarrow> bool" where
  \<comment> \<open>the parser reads the lines, in whatever section it is, and has then changed the first configuration to the second\<close>
  "takes ls c c' \<longleftrightarrow> (\<forall>sec. \<exists>sec'. \<forall>rest. config_lines_loop (sec, c) (ls @ rest) = config_lines_loop (sec', c') rest)"

lemma takes_Nil: "takes [] c c"
  by (auto simp: takes_def)

lemma takes_append: "takes xs a b \<Longrightarrow> takes ys b c \<Longrightarrow> takes (xs @ ys) a c"
  unfolding takes_def append_assoc by metis

lemma takes_parse: "takes ls config_default c \<Longrightarrow> config_lines_loop ([], config_default) ls = Inr c"
  unfolding takes_def by (drule spec [of _ "[]"], elim exE) (drule spec [of _ "[]"], simp)

lemma debug_value:
  "printable U s \<Longrightarrow> value_ok (debug_str U s) \<and> strip_comment False False (debug_str U s) = debug_str U s
     \<and> unquote (debug_str U s) = Some s"
  by (simp add: debug_str_value comment_debug_str unquote_debug_str)

lemma line_section:
  "section_word s \<Longrightarrow> s \<in> set KNOWN_SECTIONS \<Longrightarrow> config_line (sec, c) (section_line s) = Inr ([s], c)"
  "section_word s \<Longrightarrow> s \<in> set KNOWN_SECTIONS \<Longrightarrow> section_word t \<Longrightarrow> config_line (sec, c) (section_line (s @ 46 # t)) = Inr ([s, t], c)"
  by (simp_all add: config_line_section sect_names parse_section_one parse_section_two map_res_def)

lemma key_plain:
  "34 \<notin> set (ascii ''name'') \<and> 35 \<notin> set (ascii ''name'') \<and> map to_lower (ascii ''name'') = ascii ''name''"
  "34 \<notin> set (ascii ''email'') \<and> 35 \<notin> set (ascii ''email'') \<and> map to_lower (ascii ''email'') = ascii ''email''"
  "34 \<notin> set (ascii ''url'') \<and> 35 \<notin> set (ascii ''url'') \<and> map to_lower (ascii ''url'') = ascii ''url''"
  "34 \<notin> set (ascii ''mode'') \<and> 35 \<notin> set (ascii ''mode'') \<and> map to_lower (ascii ''mode'') = ascii ''mode''"
  "34 \<notin> set (ascii ''sign_required'') \<and> 35 \<notin> set (ascii ''sign_required'') \<and> map to_lower (ascii ''sign_required'') = ascii ''sign_required''"
  "34 \<notin> set (ascii ''create_default_gytignore'') \<and> 35 \<notin> set (ascii ''create_default_gytignore'')
     \<and> map to_lower (ascii ''create_default_gytignore'') = ascii ''create_default_gytignore''"
  by (simp_all add: to_lower_def)

lemmas config_run_simps = config_line_blank line_section config_line_field config_keys key_plain known_words known_sections
  debug_value true_value mode_words map_res_def config_field_def parse_bool_def

lemma takes_user:
  assumes "\<forall>s \<in> set_option n \<union> set_option e. printable U s"
  shows "takes (section_line (ascii ''user'') # opt_line U (ascii ''name'') n @ opt_line U (ascii ''email'') e @ [[]])
    c (c\<lparr>cf_user_name := (if n = None then cf_user_name c else n), cf_user_email := (if e = None then cf_user_email c else e)\<rparr>)"
  unfolding takes_def
proof
  fix sec
  show "\<exists>sec'. \<forall>rest. config_lines_loop (sec, c) ((section_line (ascii ''user'') # opt_line U (ascii ''name'') n
     @ opt_line U (ascii ''email'') e @ [[]]) @ rest) = config_lines_loop (sec', c\<lparr>cf_user_name := (if n = None then cf_user_name c else n),
       cf_user_email := (if e = None then cf_user_email c else e)\<rparr>) rest"
    using assms
    by (intro exI [of _ "[ascii ''user'']"]; cases n; cases e) (simp_all add: opt_line_def config_run_simps del: ascii_Cons)
qed

lemma dotted: "ascii ''remote.'' @ k = ascii ''remote'' @ 46 # k" "ascii ''ci.'' @ k = ascii ''ci'' @ 46 # k"
  by simp_all

lemma takes_remotes:
  "\<forall>(k, v) \<in> set rs. section_word k \<and> printable U v \<Longrightarrow> sorted_wrt (<) (map fst (cf_remotes c @ rs)) \<Longrightarrow>
     takes (concat (map (\<lambda>(name, url). [section_line (ascii ''remote.'' @ name), field_line (ascii ''url'') (debug_str U url), []]) rs))
       c (c\<lparr>cf_remotes := cf_remotes c @ rs\<rparr>)"
proof (induction rs arbitrary: c)
  case (Cons r rs)
  obtain k v where r: "r = (k, v)" by fastforce
  let ?c = "c\<lparr>cf_remotes := cf_remotes c @ [(k, v)]\<rparr>"
  have "btree_insert k v (cf_remotes c) = cf_remotes c @ [(k, v)]"
    using Cons.prems(2) r by (intro btree_insert_last) (auto simp: sorted_wrt_append)
  then have "takes [section_line (ascii ''remote.'' @ k), field_line (ascii ''url'') (debug_str U v), []] c ?c"
    using Cons.prems(1) r unfolding takes_def dotted
    by (intro allI exI [of _ "[ascii ''remote'', k]"]) (simp add: config_run_simps del: ascii_Cons)
  moreover have "takes (concat (map (\<lambda>(name, url). [section_line (ascii ''remote.'' @ name), field_line (ascii ''url'') (debug_str U url), []]) rs))
      ?c (?c\<lparr>cf_remotes := cf_remotes ?c @ rs\<rparr>)"
    by (rule Cons.IH) (use Cons.prems r in simp_all)
  ultimately show ?case using r takes_append by fastforce
qed (simp add: takes_Nil)

lemma takes_jobs:
  "\<forall>(k, m) \<in> set js. section_word k \<Longrightarrow> sorted_wrt (<) (map fst (cf_ci_job_modes c @ js)) \<Longrightarrow>
     takes (concat (map (\<lambda>(job, mode). [[], section_line (ascii ''ci.'' @ job), field_line (ascii ''mode'') (debug_str U (job_mode_str mode))]) js))
       c (c\<lparr>cf_ci_job_modes := cf_ci_job_modes c @ js\<rparr>)"
proof (induction js arbitrary: c)
  case (Cons r js)
  obtain k m where r: "r = (k, m)" by fastforce
  let ?c = "c\<lparr>cf_ci_job_modes := cf_ci_job_modes c @ [(k, m)]\<rparr>"
  have "btree_insert k m (cf_ci_job_modes c) = cf_ci_job_modes c @ [(k, m)]"
    using Cons.prems(2) r by (intro btree_insert_last) (auto simp: sorted_wrt_append)
  then have "takes [[], section_line (ascii ''ci.'' @ k), field_line (ascii ''mode'') (debug_str U (job_mode_str m))] c ?c"
    using Cons.prems(1) r unfolding takes_def dotted
    by (intro allI exI [of _ "[ascii ''ci'', k]"]) (simp add: config_run_simps del: ascii_Cons)
  moreover have "takes (concat (map (\<lambda>(job, mode). [[], section_line (ascii ''ci.'' @ job), field_line (ascii ''mode'') (debug_str U (job_mode_str mode))]) js))
      ?c (?c\<lparr>cf_ci_job_modes := cf_ci_job_modes ?c @ js\<rparr>)"
    by (rule Cons.IH) (use Cons.prems r in simp_all)
  ultimately show ?case using r takes_append by fastforce
qed (simp add: takes_Nil)

lemma takes_flags:
  "takes [[], section_line (ascii ''init''), field_line (ascii ''create_default_gytignore'') (ascii ''true'')]
     c (c\<lparr>cf_create_default_gytignore := True\<rparr>)"
  "takes [[], section_line (ascii ''commit''), field_line (ascii ''sign_required'') (ascii ''true'')] c (c\<lparr>cf_sign_required := True\<rparr>)"
  "takes [[], section_line (ascii ''ci''), field_line (ascii ''mode'') (debug_str U (ci_mode_str m))] c (c\<lparr>cf_ci_mode := m\<rparr>)"
proof -
  show "takes [[], section_line (ascii ''init''), field_line (ascii ''create_default_gytignore'') (ascii ''true'')]
     c (c\<lparr>cf_create_default_gytignore := True\<rparr>)"
    unfolding takes_def by (intro allI exI [of _ "[ascii ''init'']"]) (simp add: config_run_simps del: ascii_Cons)
  show "takes [[], section_line (ascii ''commit''), field_line (ascii ''sign_required'') (ascii ''true'')] c (c\<lparr>cf_sign_required := True\<rparr>)"
    unfolding takes_def by (intro allI exI [of _ "[ascii ''commit'']"]) (simp add: config_run_simps del: ascii_Cons)
  show "takes [[], section_line (ascii ''ci''), field_line (ascii ''mode'') (debug_str U (ci_mode_str m))] c (c\<lparr>cf_ci_mode := m\<rparr>)"
    unfolding takes_def by (intro allI exI [of _ "[ascii ''ci'']"]) (simp add: config_run_simps del: ascii_Cons)
qed

lemma takes_config:
  assumes "config_ok U cfg"
  shows "takes (config_lines U cfg) config_default cfg"
proof -
  let ?d = config_default
  let ?c1 = "?d\<lparr>cf_user_name := cf_user_name cfg, cf_user_email := cf_user_email cfg\<rparr>"
  let ?c2 = "?c1\<lparr>cf_remotes := cf_remotes cfg\<rparr>"
  let ?c3 = "?c2\<lparr>cf_create_default_gytignore := cf_create_default_gytignore cfg\<rparr>"
  let ?c4 = "?c3\<lparr>cf_sign_required := cf_sign_required cfg\<rparr>"
  let ?c5 = "?c4\<lparr>cf_ci_mode := cf_ci_mode cfg\<rparr>"
  have ok: "\<forall>s \<in> set_option (cf_user_name cfg) \<union> set_option (cf_user_email cfg). printable U s"
    "sorted_wrt (<) (map fst (cf_remotes cfg))" "\<forall>(k, v) \<in> set (cf_remotes cfg). section_word k \<and> printable U v"
    "sorted_wrt (<) (map fst (cf_ci_job_modes cfg))" "\<forall>(k, v) \<in> set (cf_ci_job_modes cfg). section_word k"
    using assms by (simp_all add: config_ok_def)
  have c: "cfg = ?c5\<lparr>cf_ci_job_modes := cf_ci_job_modes cfg\<rparr>" by (cases cfg) (simp add: config_default_def)
  have n: "cf_user_name ?d = None" "cf_user_email ?d = None" "cf_remotes ?c1 = []" "cf_create_default_gytignore ?c2 = False"
    "cf_sign_required ?c3 = False" "cf_ci_mode ?c4 = Ci_Parallel" "cf_ci_job_modes ?c5 = []" by (simp_all add: config_default_def)
  have u: "(if x = None then cf_user_name ?d else x) = x" "(if x = None then cf_user_email ?d else x) = x" for x
    by (simp_all add: n(1,2))
  have "takes (config_lines U cfg) ?d (?c5\<lparr>cf_ci_job_modes := cf_ci_job_modes cfg\<rparr>)"
    unfolding config_lines_def
  proof (intro takes_append)
    show "takes (if cf_user_name cfg \<noteq> None \<or> cf_user_email cfg \<noteq> None
      then section_line (ascii ''user'') # opt_line U (ascii ''name'') (cf_user_name cfg)
             @ opt_line U (ascii ''email'') (cf_user_email cfg) @ [[]] else []) ?d ?c1"
      using takes_user [OF ok(1), of ?d] unfolding u by (auto simp: takes_Nil) (simp add: takes_Nil config_default_def)
  next
    show "takes (concat (map (\<lambda>(name, url). [section_line (ascii ''remote.'' @ name), field_line (ascii ''url'') (debug_str U url), []])
         (cf_remotes cfg))) ?c1 ?c2" using takes_remotes [OF ok(3), of ?c1] ok(2) n(3) by simp
  next
    show "takes (if cf_create_default_gytignore cfg then [[], section_line (ascii ''init''),
      field_line (ascii ''create_default_gytignore'') (ascii ''true'')] else []) ?c2 ?c3"
      using takes_flags(1) [of ?c2] n(4) by (auto simp: takes_Nil config_default_def)
  next
    show "takes (if cf_sign_required cfg then [[], section_line (ascii ''commit''), field_line (ascii ''sign_required'') (ascii ''true'')] else [])
      ?c3 ?c4" using takes_flags(2) [of ?c3] by (auto simp: takes_Nil config_default_def)
  next
    show "takes (if cf_ci_mode cfg \<noteq> Ci_Parallel then [[], section_line (ascii ''ci''),
      field_line (ascii ''mode'') (debug_str U (ci_mode_str (cf_ci_mode cfg)))] else []) ?c4 ?c5"
      using takes_flags(3) [of U "cf_ci_mode cfg" ?c4] by (auto simp: takes_Nil config_default_def)
  next
    show "takes (concat (map (\<lambda>(job, mode). [[], section_line (ascii ''ci.'' @ job), field_line (ascii ''mode'') (debug_str U (job_mode_str mode))])
         (cf_ci_job_modes cfg))) ?c5 (?c5\<lparr>cf_ci_job_modes := cf_ci_job_modes cfg\<rparr>)"
      using takes_jobs [OF ok(5), of ?c5 U] ok(4) n(7) by simp
  qed
  then show ?thesis by (rule ssubst [where P = "takes (config_lines U cfg) ?d", OF c])
qed

lemma section_words_plain: "section_word s \<Longrightarrow> plain_line (section_line s)"
  "section_word s \<Longrightarrow> section_word t \<Longrightarrow> plain_line (section_line (s @ 46 # t))"
  by (simp_all add: sect_plain sect_names)

lemma config_lines_plain: "config_ok U cfg \<Longrightarrow> \<forall>l \<in> set (config_lines U cfg). plain_line l"
  unfolding config_ok_def config_lines_def opt_line_def dotted
  by (auto simp: plain_line_Nil section_words_plain known_words plain_field_line config_keys debug_value true_value mode_words
      simp del: ascii_Cons split: option.splits if_splits)

lemma config_parse_text: "config_ok U cfg \<Longrightarrow> config_parse (config_text U cfg) = Inr cfg"
  using config_lines_plain [of U cfg] takes_parse [OF takes_config [of U cfg]]
  by (simp add: config_parse_def config_text_def valid_text_lines str_lines_text)

lemma btree_insert_fold:
  "sorted_wrt (<) (map fst (m @ m')) \<Longrightarrow> fold (\<lambda>(k, v). btree_insert k v) m' m = m @ m'"
proof (induction m' arbitrary: m)
  case (Cons kv m')
  obtain k v where kv: "kv = (k, v)" by fastforce
  have "btree_insert k v m = m @ [(k, v)]"
    using Cons.prems kv by (intro btree_insert_last) (auto simp: sorted_wrt_append)
  with Cons.IH [of "m @ [(k, v)]"] Cons.prems kv show ?case by simp
qed simp

lemma merge_into_default: "config_ok U cfg \<Longrightarrow> merge_into config_default cfg = cfg"
  using btree_insert_fold [of "[]" "cf_remotes cfg"] btree_insert_fold [of "[]" "cf_ci_job_modes cfg"]
  by (cases cfg) (auto simp: merge_into_def config_default_def config_ok_def)

section \<open>Properties\<close>


definition sample_config :: config where
  "sample_config = config_default\<lparr>cf_user_name := Some (ascii ''Ann''), cf_remotes := [(ascii ''origin'', ascii ''https://h/r'')],
     cf_sign_required := True\<rparr>"


text \<open>A remote whose name has a capital letter is loaded under another name, and a global demand for signatures is lost
  as soon as the repository has a file of its own, whatever that file says.\<close>

lemma remote_name_lowered:
  assumes "printable U url"
  shows "config_parse (config_text U (config_default\<lparr>cf_remotes := [(ascii ''Origin'', url)]\<rparr>))
    = Inr (config_default\<lparr>cf_remotes := [(ascii ''origin'', url)]\<rparr>)"
proof -
  let ?s = "section_line (ascii ''remote.Origin'')" and ?f = "field_line (ascii ''url'') (debug_str U url)"
  have g: "graphic (ascii ''remote.Origin'')" "graphic (ascii ''remote'')" "graphic (ascii ''Origin'')" by (simp_all add: graphic_def)
  have "trim ?s = ?s" by (rule trim_solid) (simp_all add: section_line_def solid_def)
  moreover have "strip_comment False False ?s = ?s" by (simp add: section_line_def)
  moreover have "split_char 46 (ascii ''remote.Origin'') = [ascii ''remote'', ascii ''Origin'']" by simp
  then have "parse_section (ascii ''remote.Origin'') = Inr [ascii ''remote'', ascii ''origin'']"
    using g known_sections(2) by (simp add: parse_section_def trim_graphic del: ascii_Cons) (simp add: to_lower_def)
  ultimately have s: "config_line (sec, c) ?s = Inr ([ascii ''remote'', ascii ''origin''], c)" for sec c
    by (simp add: config_line_def map_res_def) (simp add: section_line_def)
  have "\<forall>l \<in> set [?s, ?f, []]. plain_line l"
    using assms plain_field_line [OF config_keys(3)] debug_value [of U url] plain_line_ascii [of ?s]
    by (simp add: plain_line_Nil) (simp add: section_line_def)
  moreover have "config_text U (config_default\<lparr>cf_remotes := [(ascii ''Origin'', url)]\<rparr>) = text_lines [?s, ?f, []]"
    by (simp add: config_text_def config_lines_def config_default_def)
  ultimately show ?thesis
    using assms by (simp add: config_parse_def valid_text_lines str_lines_text s config_run_simps del: ascii_Cons)
      (simp add: config_default_def)
qed

lemma global_sign_required_lost: "cf_sign_required (merge_into (c\<lparr>cf_sign_required := True\<rparr>) config_default) = False"
  by (simp add: merge_into_def config_default_def)

end
