(* ===== verification/Spec2Isabelle.thy ===== *)
theory Spec2Isabelle
  imports Prelude Hash Objects Tree_Object Commit_Object Tag_Object Diff Hunks
    Merge3 Stores Index Fs Refs
    Compress Pack Object_Store Ignore Protocol Reflog
    Store_View Toml Metadata Issues Prs Incidents
    Graph Signing Config
begin

text \<open>
  Verification of gyt, a version-control system written in Rust (sources under \<open>src/src/\<close>).

  \<^bold>\<open>The program.\<close> gyt stores content-addressed objects (blobs, trees, commits, tags) below a \<open>.gyt\<close> directory,
  loose or in packs, names them by refs, stages files in an index, diffs and merges text, and talks to a
  server over HTTP. Issues, pull requests and incidents are records kept as blobs under their own refs.

  \<^bold>\<open>Conventions\<close> (\<open>Prelude\<close>). Bytes are \<open>8 word\<close>, a Rust \<open>str\<close> is its UTF-8 bytes, \<open>Result\<close> is \<open>'a res\<close> with the
  constructors of \<open>errors.rs\<close>; a message keeps the fixed words of the source's message. A panic is the value
  \<open>Panic\<close> of \<open>'a run\<close>. A loop that may not end is run by \<open>loop\<close>, whose value is then \<open>None\<close>, or on fuel; every
  other loop is a function with a termination proof. Fixed-width integers are words where they are printed,
  parsed or stored, and naturals with the limit written out where the code checks one.

  \<^bold>\<open>Parameters.\<close> BLAKE3 is the function \<open>H\<close> (its digests have 32 bytes where that matters, \<open>digest32\<close>); the xz
  library is the record \<open>xz_lib\<close> with \<open>xz_lossless\<close> as its documented behaviour; the choices the system makes
  for the pack-index cache (canonical paths, modification times, the victim of an eviction) are the record
  \<open>pack_env\<close>; the Unicode tables behind \<open>{:?}\<close> are the predicate \<open>U\<close>; the random part of a temporary file name is
  the argument \<open>nonce\<close>; ed25519 is the record \<open>ed25519\<close> with \<open>ed_correct\<close> as its documented behaviour; the
  environment variables and the path of the global configuration file are arguments of \<open>config_load\<close>.

  \<^bold>\<open>Theories and the files they model.\<close>
  \<^item> \<open>Hash\<close> (\<open>hash.rs\<close>), \<open>Objects\<close> (\<open>object/mod.rs\<close>, framing of \<open>object/store.rs\<close>), \<open>Tree_Object\<close>,
    \<open>Commit_Object\<close>, \<open>Tag_Object\<close> (\<open>object/tree.rs\<close>, \<open>commit.rs\<close>, \<open>tag.rs\<close>): ids and the object codecs. Lemmas: decoding
    accepts exactly the canonical encodings, round trips, confinement of tree names. The locales \<open>codec\<close> and
    \<open>payload_codec\<close> are their interface.
  \<^item> \<open>Diff\<close>, \<open>Hunks\<close> (\<open>diff.rs\<close>): the Myers search with its bounds-checked array, its backtrack, grouping into hunks.
    Lemmas: every result is an edit script, a shortest one, and the hunks are a patch.
  \<^item> \<open>Merge3\<close> (\<open>merge3.rs\<close>): line merge, markers, tree merge. Lemmas: agreement with the three-way rule; what the
    line merge does on separate edits; where it diverges and what it drops.
  \<^item> \<open>Stores\<close>, \<open>Index\<close> (\<open>index.rs\<close>), \<open>Fs\<close> (\<open>fs_util.rs\<close>), \<open>Refs\<close> (\<open>refs.rs\<close>), \<open>Reflog\<close> (\<open>reflog.rs\<close>): files as a map from paths to
    nodes, atomic writes and lock files as step relations, the index file, refs and their log. The locale
    \<open>keyed_store\<close> is the map both the index and the refs refine.
  \<^item> \<open>Compress\<close>, \<open>Pack\<close>, \<open>Object_Store\<close>, \<open>Store_View\<close> (\<open>compress.rs\<close>, \<open>object/pack.rs\<close>, \<open>object/store.rs\<close>, typed reads of
    \<open>object/*.rs\<close>): objects on disk. Lemmas: written objects read back, an id names one object, the index cache
    does not show, no panic.
  \<^item> \<open>Ignore\<close> (\<open>ignore.rs\<close>), \<open>Protocol\<close> (\<open>net/protocol.rs\<close>): pattern matching against its language; the wire codec.
  \<^item> \<open>Toml\<close>, \<open>Metadata\<close>, \<open>Issues\<close> (\<open>issues.rs\<close>), \<open>Prs\<close> (\<open>prs.rs\<close>), \<open>Incidents\<close> (\<open>incidents.rs\<close>): records stored as text.
    The locale \<open>ledger\<close> is what the three numbered collections have in common. Lemmas: a stored record is read
    back, numbers are given out in ascending order, the history of a record only grows.
  \<^item> \<open>Graph\<close> (the walks of \<open>cmd/merge.rs\<close>, \<open>cmd/branch.rs\<close>, \<open>cmd/status.rs\<close>, \<open>cmd/rebase.rs\<close>): ancestry, merge base, counts
    and the commits to replay. The locale \<open>traversal\<close> is one turn of such a walk. Lemmas: every walk ends and
    visits exactly what can be reached; two examples where the result is not what the comment says.
  \<^item> \<open>Signing\<close> (\<open>cmd/signing.rs\<close>): signed bytes, base64, keys. Lemmas: the decoder accepts exactly the encodings, the
    signed bytes fix the commit, what is signed verifies.
  \<^item> \<open>Config\<close> (\<open>config.rs\<close>): the configuration file and how its layers combine. Lemma: what is written is loaded back.

  \<^bold>\<open>Bounds and fuel.\<close> Symbolic links are followed at most \<open>ELOOP_MAX\<close> times, as the kernel does. The merge loop
  runs on fuel with the third outcome \<open>Diverge\<close>; the theorems about it either give the fuel that is enough or
  hold for every amount.

  \<^bold>\<open>Not modelled.\<close> Terminal output, sockets, TLS, HTTP/2 and QUIC, threads of the server, the WASM sandbox of
  the CI runner and encryption of its secrets are third-party libraries or input and output with no state to
  reason about. Of the commands below \<open>cmd/\<close> only the walks and the signatures above are modelled: the rest updates the
  working directory and prints. The server's ref policy and the CI runner are not modelled. Device errors and the order in which a crash makes writes durable are left out of \<open>Fs\<close>.
\<close>

end
